(* ===== verification/Prelude.thy ===== *)
theory Prelude
  imports Main "HOL-Library.Word" "HOL-Library.Code_Target_Nat"
begin

text \<open>
  Shared vocabulary of the development: the fact collections the component
  theories feed, the byte and integer types of the Go sources, and generic
  lemmas on lists, options and words.
\<close>

named_theorems go_simps \<open>rewrite rules of the Go string and number library\<close>
named_theorems netip_simps \<open>rewrite rules of the net/netip model\<close>
named_theorems wire_simps \<open>encode and decode rules of the wire formats\<close>
named_theorems inv_intros \<open>invariant preservation rules\<close>

type_synonym u8 = "8 word"
type_synonym u16 = "16 word"
type_synonym u32 = "32 word"
type_synonym u64 = "64 word"
type_synonym bytes = "8 word list"

subsection \<open>Lists\<close>

lemma take_append_exact [simp]: "length xs = n \<Longrightarrow> take n (xs @ ys) = xs"
  by simp

lemma drop_append_exact [simp]: "length xs = n \<Longrightarrow> drop n (xs @ ys) = ys"
  by simp

lemma last_in_set_conv: "xs \<noteq> [] \<Longrightarrow> last xs \<in> set xs"
  by simp

lemma map_eq_append_split:
  "map f xs = ys @ zs \<Longrightarrow> \<exists>us vs. xs = us @ vs \<and> map f us = ys \<and> map f vs = zs"
  by (metis map_eq_append_conv)

lemma find_Some_first:
  "find P xs = Some x \<Longrightarrow> P x \<and> x \<in> set xs"
  by (induction xs) (auto split: if_splits)

lemma find_Some_split:
  "find P xs = Some x \<longleftrightarrow>
     (\<exists>pre post. xs = pre @ x # post \<and> P x \<and> list_all (\<lambda>y. \<not> P y) pre)"
proof
  assume "find P xs = Some x"
  then show "\<exists>pre post. xs = pre @ x # post \<and> P x \<and> list_all (\<lambda>y. \<not> P y) pre"
  proof (induction xs)
    case (Cons y ys)
    show ?case
    proof (cases "P y")
      case True
      with Cons.prems show ?thesis by (intro exI [of _ "[]"] exI [of _ ys]) simp
    next
      case False
      with Cons obtain pre post where "ys = pre @ x # post" "P x" "list_all (\<lambda>y. \<not> P y) pre" by auto
      with False show ?thesis by (intro exI [of _ "y # pre"] exI [of _ post]) simp
    qed
  qed simp
next
  assume "\<exists>pre post. xs = pre @ x # post \<and> P x \<and> list_all (\<lambda>y. \<not> P y) pre"
  then obtain pre post where "xs = pre @ x # post" "P x" "list_all (\<lambda>y. \<not> P y) pre" by blast
  then show "find P xs = Some x" by (induction pre arbitrary: xs) auto
qed

lemma foldl_preserves:
  assumes "\<And>s x. I s \<Longrightarrow> I (f s x)" and "I s"
  shows "I (foldl f s xs)"
  using assms(2) by (induction xs arbitrary: s) (auto intro: assms(1))

subsection \<open>Maps\<close>

lemma dom_fun_upd_None [simp]: "dom (m(k := None)) = dom m - {k}"
  by auto

lemma map_upd_Some_iff: "(m(k \<mapsto> v)) k' = Some w \<longleftrightarrow> (if k' = k then w = v else m k' = Some w)"
  by auto

subsection \<open>Words\<close>

lemma unat_of_nat_less: "n < 2 ^ LENGTH('a::len) \<Longrightarrow> unat (of_nat n :: 'a word) = n"
  by (simp add: unat_of_nat take_bit_nat_eq_self)

lemma unat_add_small:
  fixes a b :: "'a::len word"
  assumes "unat a + unat b < 2 ^ LENGTH('a)"
  shows "unat (a + b) = unat a + unat b"
  using assms by (simp add: unat_word_ariths)

lemma unat_sub_le:
  fixes a b :: "'a::len word"
  assumes "b \<le> a"
  shows "unat (a - b) = unat a - unat b"
  using assms by (simp add: unat_sub)

subsection \<open>Invariants of step relations\<close>

text \<open>
  What the components with goroutines promise: an invariant that holds at the start and is kept by
  every step holds in every reachable state.
\<close>

locale kept_invariant =
  fixes step :: "'s \<Rightarrow> 's \<Rightarrow> bool" and start :: 's and inv :: "'s \<Rightarrow> bool"
  assumes start_inv: "inv start" and step_inv: "step s t \<Longrightarrow> inv s \<Longrightarrow> inv t"
begin

lemma always: "step\<^sup>*\<^sup>* start s \<Longrightarrow> inv s"
  by (induction rule: rtranclp_induct) (auto intro: start_inv step_inv)

lemma always_from: "step\<^sup>*\<^sup>* s t \<Longrightarrow> inv s \<Longrightarrow> inv t"
  by (induction rule: rtranclp_induct) (auto intro: step_inv)

end

end
