(* ===== verification/GoStrings.thy ===== *)
theory GoStrings
  imports Prelude "HOL-Library.Sublist"
begin

text \<open>
  The parts of Go's \<open>strings\<close>, \<open>bytes\<close> and \<open>strconv\<close> packages that the sources
  call. A Go string is a byte sequence and is modelled as \<^typ>\<open>string\<close> (a list
  of 8-bit characters). Case mapping, case folding and white space are the ASCII
  part of Go's Unicode tables: host names, header names and rule keywords are
  ASCII in every use below.
\<close>

subsection \<open>Characters\<close>

definition lower_char :: "char \<Rightarrow> char" where
  "lower_char c =
     (let n = (of_char c :: nat) in if 65 \<le> n \<and> n \<le> 90 then char_of (n + 32) else c)"

definition isSpace :: "char \<Rightarrow> bool" where
  "isSpace c \<longleftrightarrow>
     c \<in> set [CHR 0x09, CHR 0x0A, CHR 0x0B, CHR 0x0C, CHR 0x0D, CHR '' '']"

definition isDigit :: "char \<Rightarrow> bool" where
  "isDigit c \<longleftrightarrow> (let n = (of_char c :: nat) in 48 \<le> n \<and> n \<le> 57)"

text \<open>Value of a digit in bases up to 36, as \<open>strconv.ParseUint\<close> reads it.\<close>

definition digit_val :: "char \<Rightarrow> nat option" where
  "digit_val c =
     (let n = (of_char c :: nat) in
      if 48 \<le> n \<and> n \<le> 57 then Some (n - 48)
      else if 97 \<le> n \<and> n \<le> 122 then Some (n - 97 + 10)
      else if 65 \<le> n \<and> n \<le> 90 then Some (n - 65 + 10)
      else None)"

subsection \<open>Strings\<close>

definition ToLower :: "string \<Rightarrow> string" where
  "ToLower s = map lower_char s"

definition EqualFold :: "string \<Rightarrow> string \<Rightarrow> bool" where
  "EqualFold s t \<longleftrightarrow> ToLower s = ToLower t"

definition TrimLeftFunc :: "(char \<Rightarrow> bool) \<Rightarrow> string \<Rightarrow> string" where
  "TrimLeftFunc f s = dropWhile f s"

definition TrimRightFunc :: "(char \<Rightarrow> bool) \<Rightarrow> string \<Rightarrow> string" where
  "TrimRightFunc f s = rev (dropWhile f (rev s))"

definition TrimFunc :: "(char \<Rightarrow> bool) \<Rightarrow> string \<Rightarrow> string" where
  "TrimFunc f s = TrimRightFunc f (TrimLeftFunc f s)"

definition TrimSpace :: "string \<Rightarrow> string" where
  "TrimSpace s = TrimFunc isSpace s"

definition Trim :: "string \<Rightarrow> string \<Rightarrow> string" where
  "Trim s cutset = TrimFunc (\<lambda>c. c \<in> set cutset) s"

definition TrimRight :: "string \<Rightarrow> string \<Rightarrow> string" where
  "TrimRight s cutset = TrimRightFunc (\<lambda>c. c \<in> set cutset) s"

definition HasPrefix :: "string \<Rightarrow> string \<Rightarrow> bool" where
  "HasPrefix s p \<longleftrightarrow> take (length p) s = p"

definition HasSuffix :: "string \<Rightarrow> string \<Rightarrow> bool" where
  "HasSuffix s t \<longleftrightarrow> length t \<le> length s \<and> drop (length s - length t) s = t"

definition TrimSuffix :: "string \<Rightarrow> string \<Rightarrow> string" where
  "TrimSuffix s t = (if HasSuffix s t then take (length s - length t) s else s)"

definition TrimPrefix :: "string \<Rightarrow> string \<Rightarrow> string" where
  "TrimPrefix s t = (if HasPrefix s t then drop (length t) s else s)"

definition ContainsAny :: "string \<Rightarrow> string \<Rightarrow> bool" where
  "ContainsAny s cs \<longleftrightarrow> list_ex (\<lambda>c. c \<in> set cs) s"

text \<open>\<open>Index\<close>: the first position of a substring, \<open>None\<close> for Go's \<open>-1\<close>.\<close>

fun Index :: "string \<Rightarrow> string \<Rightarrow> nat option" where
  "Index [] t = (if t = [] then Some 0 else None)"
| "Index (c # s) t =
     (if HasPrefix (c # s) t then Some 0 else map_option Suc (Index s t))"

definition Contains :: "string \<Rightarrow> string \<Rightarrow> bool" where
  "Contains s t \<longleftrightarrow> Index s t \<noteq> None"

fun IndexFunc :: "(char \<Rightarrow> bool) \<Rightarrow> string \<Rightarrow> nat option" where
  "IndexFunc f [] = None"
| "IndexFunc f (c # s) = (if f c then Some 0 else map_option Suc (IndexFunc f s))"

definition IndexByte :: "string \<Rightarrow> char \<Rightarrow> nat option" where
  "IndexByte s c = IndexFunc (\<lambda>x. x = c) s"

definition IndexAny :: "string \<Rightarrow> string \<Rightarrow> nat option" where
  "IndexAny s cs = IndexFunc (\<lambda>x. x \<in> set cs) s"

text \<open>The last position of a character satisfying \<open>f\<close>.\<close>

fun LastIndexFunc :: "(char \<Rightarrow> bool) \<Rightarrow> string \<Rightarrow> nat option" where
  "LastIndexFunc f [] = None"
| "LastIndexFunc f (c # s) =
     (case LastIndexFunc f s of
        Some i \<Rightarrow> Some (Suc i)
      | None \<Rightarrow> if f c then Some 0 else None)"

definition LastIndexByte :: "string \<Rightarrow> char \<Rightarrow> nat option" where
  "LastIndexByte s c = LastIndexFunc (\<lambda>x. x = c) s"

definition LastIndexAny :: "string \<Rightarrow> string \<Rightarrow> nat option" where
  "LastIndexAny s cs = LastIndexFunc (\<lambda>x. x \<in> set cs) s"

text \<open>The last position of a substring.\<close>

fun LastIndex :: "string \<Rightarrow> string \<Rightarrow> nat option" where
  "LastIndex [] t = (if t = [] then Some 0 else None)"
| "LastIndex (c # s) t =
     (case LastIndex s t of
        Some i \<Rightarrow> Some (Suc i)
      | None \<Rightarrow> if HasPrefix (c # s) t then Some 0 else None)"

definition CountByte :: "string \<Rightarrow> char \<Rightarrow> nat" where
  "CountByte s c = length (filter (\<lambda>x. x = c) s)"

text \<open>\<open>Split\<close> on a one-character separator.\<close>

fun Split :: "string \<Rightarrow> char \<Rightarrow> string list" where
  "Split [] c = [[]]"
| "Split (x # xs) c =
     (if x = c then [] # Split xs c
      else (case Split xs c of
              [] \<Rightarrow> [[x]]
            | t # ts \<Rightarrow> (x # t) # ts))"

text \<open>\<open>SplitN s c n\<close>: at most \<open>n\<close> pieces, the last one unsplit.\<close>

fun SplitN :: "string \<Rightarrow> char \<Rightarrow> nat \<Rightarrow> string list" where
  "SplitN s c 0 = []"
| "SplitN s c (Suc 0) = [s]"
| "SplitN s c (Suc (Suc n)) =
     (case IndexByte s c of
        None \<Rightarrow> [s]
      | Some i \<Rightarrow> take i s # SplitN (drop (Suc i) s) c (Suc n))"

subsection \<open>Numbers\<close>

fun digits_val :: "nat \<Rightarrow> nat \<Rightarrow> string \<Rightarrow> nat option" where
  "digits_val base acc [] = Some acc"
| "digits_val base acc (c # s) =
     (case digit_val c of
        None \<Rightarrow> None
      | Some d \<Rightarrow> if d < base then digits_val base (acc * base + d) s else None)"

text \<open>\<open>strconv.ParseUint\<close> for an explicit base: \<open>None\<close> is any of its errors.\<close>

definition ParseUint :: "string \<Rightarrow> nat \<Rightarrow> nat \<Rightarrow> nat option" where
  "ParseUint s base bits =
     (if s = [] then None
      else case digits_val base 0 s of
             None \<Rightarrow> None
           | Some n \<Rightarrow> if n < 2 ^ bits then Some n else None)"

definition ParseInt :: "string \<Rightarrow> nat \<Rightarrow> nat \<Rightarrow> int option" where
  "ParseInt s base bits =
     (let neg = (s \<noteq> [] \<and> hd s = CHR ''-'');
          r = (if s \<noteq> [] \<and> (hd s = CHR ''+'' \<or> hd s = CHR ''-'') then tl s else s)
      in case ParseUint r base bits of
           None \<Rightarrow> None
         | Some n \<Rightarrow>
             if neg then (if n \<le> 2 ^ (bits - 1) then Some (- int n) else None)
             else if n < 2 ^ (bits - 1) then Some (int n) else None)"

definition Atoi :: "string \<Rightarrow> int option" where
  "Atoi s = ParseInt s 10 64"

definition digit_char :: "nat \<Rightarrow> char" where
  "digit_char n = (if n < 10 then char_of (48 + n) else char_of (87 + n))"

fun show_base :: "nat \<Rightarrow> nat \<Rightarrow> string" where
  "show_base b n =
     (if n < b \<or> b < 2 then [digit_char n] else show_base b (n div b) @ [digit_char (n mod b)])"

declare show_base.simps [simp del]

definition Itoa :: "nat \<Rightarrow> string" where
  "Itoa n = show_base 10 n"

definition bytes_of_string :: "string \<Rightarrow> bytes" where
  "bytes_of_string s = map (\<lambda>c. of_nat (of_char c)) s"

definition string_of_bytes :: "bytes \<Rightarrow> string" where
  "string_of_bytes b = map (\<lambda>w. char_of (unat w)) b"


subsection \<open>Lemmas: characters and case\<close>

lemma bit_one_zero [simp]: "bit (Suc 0) 0"
  by (simp add: bit_0)

lemma of_char_lower_char:
  "(of_char (lower_char c) :: nat) =
     (if 65 \<le> (of_char c :: nat) \<and> (of_char c :: nat) \<le> 90
      then of_char c + 32 else of_char c)"
  by (simp add: lower_char_def Let_def)

lemma lower_char_idem [simp]: "lower_char (lower_char c) = lower_char c"
proof -
  have "\<not> (65 \<le> (of_char (lower_char c) :: nat) \<and> (of_char (lower_char c) :: nat) \<le> 90)"
    by (auto simp: of_char_lower_char)
  then show ?thesis by (subst lower_char_def) (auto simp: Let_def)
qed

lemma lower_char_nonletter:
  assumes "(of_char d :: nat) < 65 \<or> 122 < (of_char d :: nat)"
  shows "lower_char c = d \<longleftrightarrow> c = d"
proof
  assume "lower_char c = d"
  then have "(of_char (lower_char c) :: nat) = of_char d" by simp
  with assms have "(of_char c :: nat) = of_char d" by (auto simp: of_char_lower_char split: if_splits)
  then show "c = d" by (simp only: of_char_eq_iff)
next
  assume "c = d"
  with assms show "lower_char c = d" by (auto simp: lower_char_def Let_def)
qed

lemma set_ToLower_nonletter:
  assumes "(of_char d :: nat) < 65 \<or> 122 < (of_char d :: nat)"
  shows "d \<in> set (ToLower s) \<longleftrightarrow> d \<in> set s"
  unfolding ToLower_def set_map image_iff using lower_char_nonletter [OF assms] by metis

lemma ToLower_idem [simp]: "ToLower (ToLower s) = ToLower s"
  by (simp add: ToLower_def)

lemma ToLower_simps [simp]:
  "ToLower [] = []" "ToLower (c # s) = lower_char c # ToLower s"
  "ToLower (s @ t) = ToLower s @ ToLower t"
  by (simp_all add: ToLower_def)

lemma length_ToLower [simp]: "length (ToLower s) = length s"
  by (simp add: ToLower_def)

lemma EqualFold_refl [simp]: "EqualFold s s"
  by (simp add: EqualFold_def)

lemma EqualFold_sym: "EqualFold s t \<Longrightarrow> EqualFold t s"
  by (simp add: EqualFold_def)

lemma EqualFold_trans: "EqualFold s t \<Longrightarrow> EqualFold t u \<Longrightarrow> EqualFold s u"
  by (simp add: EqualFold_def)

subsection \<open>Lemmas: prefixes and suffixes\<close>

lemma HasPrefix_iff: "HasPrefix s p \<longleftrightarrow> (\<exists>t. s = p @ t)"
  unfolding HasPrefix_def by (metis append_eq_conv_conj)

lemma HasSuffix_iff: "HasSuffix s t \<longleftrightarrow> (\<exists>u. s = u @ t)"
proof
  assume "HasSuffix s t"
  then have "s = take (length s - length t) s @ t"
    unfolding HasSuffix_def by (metis append_take_drop_id)
  then show "\<exists>u. s = u @ t" by blast
qed (auto simp: HasSuffix_def)

lemma HasPrefix_append [simp]: "HasPrefix (p @ t) p"
  by (auto simp: HasPrefix_iff)

lemma HasSuffix_append [simp]: "HasSuffix (u @ t) t"
  by (auto simp: HasSuffix_iff)

lemma HasSuffix_trans: "HasSuffix s t \<Longrightarrow> HasSuffix t u \<Longrightarrow> HasSuffix s u"
  by (auto simp: HasSuffix_iff)

lemma TrimSuffix_append [simp]: "TrimSuffix (s @ t) t = s"
  by (simp add: TrimSuffix_def)

lemma TrimSuffix_id: "\<not> HasSuffix s t \<Longrightarrow> TrimSuffix s t = s"
  by (simp add: TrimSuffix_def)

lemma ToLower_TrimSuffix_dot:
  "ToLower (TrimSuffix s ''.'') = TrimSuffix (ToLower s) ''.''"
proof (cases "HasSuffix s ''.''")
  case True
  then obtain u where "s = u @ ''.''" by (auto simp: HasSuffix_iff)
  moreover have "lower_char CHR ''.'' = CHR ''.''" by (simp add: lower_char_def)
  ultimately show ?thesis by (simp only: ToLower_simps TrimSuffix_append)
next
  case False
  have "\<not> HasSuffix (ToLower s) ''.''"
  proof
    assume "HasSuffix (ToLower s) ''.''"
    then obtain u where "ToLower s = u @ ''.''" by (auto simp: HasSuffix_iff)
    then obtain v c where s: "s = v @ [c]" and c: "lower_char c = CHR ''.''"
      unfolding ToLower_def by (auto simp: map_eq_append_conv)
    from c have "(of_char (lower_char c) :: nat) = 46" by simp
    then have "(of_char c :: nat) = 46"
      by (simp add: of_char_lower_char split: if_splits)
    then have "c = char_of (46 :: nat)" by (metis char_of_char)
    then have "c = CHR ''.''" by (simp add: char_of_def)
    with s False show False by (simp add: HasSuffix_iff)
  qed
  with False show ?thesis by (simp add: TrimSuffix_id)
qed

lemma TrimLeftFunc_id: "s = [] \<or> \<not> f (hd s) \<Longrightarrow> TrimLeftFunc f s = s"
  by (cases s) (auto simp: TrimLeftFunc_def)

lemma TrimRightFunc_id: "s = [] \<or> \<not> f (last s) \<Longrightarrow> TrimRightFunc f s = s"
  by (cases s rule: rev_cases) (auto simp: TrimRightFunc_def)

lemma TrimRightFunc_append_all:
  "list_all f t \<Longrightarrow> TrimRightFunc f (s @ t) = TrimRightFunc f s"
  by (auto simp: TrimRightFunc_def list_all_iff dropWhile_append)

lemma TrimFunc_id:
  "s = [] \<or> (\<not> f (hd s) \<and> \<not> f (last s)) \<Longrightarrow> TrimFunc f s = s"
  by (auto simp: TrimFunc_def TrimLeftFunc_id TrimRightFunc_id)

lemma TrimFunc_cons: "f c \<Longrightarrow> TrimFunc f (c # s) = TrimFunc f s"
  by (simp add: TrimFunc_def TrimLeftFunc_def)

subsection \<open>Lemmas: searching and splitting\<close>

lemma IndexFunc_None: "IndexFunc f s = None \<longleftrightarrow> (\<forall>c \<in> set s. \<not> f c)"
  by (induction s) auto

lemma IndexFunc_append_hit:
  "\<forall>c \<in> set s. \<not> f c \<Longrightarrow> f c \<Longrightarrow> IndexFunc f (s @ c # t) = Some (length s)"
  by (induction s) auto

lemma IndexFunc_Some:
  "IndexFunc f s = Some i \<Longrightarrow>
     i < length s \<and> f (s ! i) \<and> (\<forall>c \<in> set (take i s). \<not> f c)"
  by (induction s arbitrary: i) (auto split: if_splits)

lemma LastIndexFunc_None: "LastIndexFunc f s = None \<longleftrightarrow> (\<forall>c \<in> set s. \<not> f c)"
  by (induction s) (auto split: option.splits)

lemma LastIndexFunc_Some:
  "LastIndexFunc f s = Some i \<Longrightarrow>
     i < length s \<and> f (s ! i) \<and> (\<forall>c \<in> set (drop (Suc i) s). \<not> f c)"
proof (induction s arbitrary: i)
  case (Cons c s)
  show ?case
  proof (cases "LastIndexFunc f s")
    case None
    with Cons.prems have "i = 0" "f c" by (auto split: if_splits)
    with None show ?thesis by (auto simp: LastIndexFunc_None)
  next
    case (Some j)
    with Cons show ?thesis by auto
  qed
qed simp

lemma Split_not_Nil [simp]: "Split s c \<noteq> []"
  by (induction s) (auto split: list.splits)

lemma Split_no_sep: "c \<notin> set s \<Longrightarrow> Split s c = [s]"
  by (induction s) auto

lemma Split_append_sep: "c \<notin> set s \<Longrightarrow> Split (s @ c # t) c = s # Split t c"
  by (induction s) auto

lemma Split_pieces: "p \<in> set (Split s c) \<Longrightarrow> c \<notin> set p"
proof (induction s arbitrary: p)
  case (Cons x xs)
  then show ?case
    by (cases "Split xs c") (auto split: if_splits)
qed simp

lemma SplitN_append_sep:
  "c \<notin> set s \<Longrightarrow> SplitN (s @ c # t) c (Suc (Suc n)) = s # SplitN t c (Suc n)"
proof -
  assume "c \<notin> set s"
  then have "IndexFunc (\<lambda>x. x = c) (s @ c # t) = Some (length s)"
    by (intro IndexFunc_append_hit) auto
  then show ?thesis by (simp add: IndexByte_def)
qed

lemma SplitN_no_sep: "c \<notin> set s \<Longrightarrow> SplitN s c (Suc n) = [s]"
proof -
  assume "c \<notin> set s"
  then have "IndexFunc (\<lambda>x. x = c) s = None" by (auto simp: IndexFunc_None)
  then show ?thesis by (cases n) (simp_all add: IndexByte_def)
qed

subsection \<open>Lemmas: numbers\<close>

lemma of_char_digit_char:
  "n < 36 \<Longrightarrow> (of_char (digit_char n) :: nat) = (if n < 10 then 48 + n else 87 + n)"
  by (simp add: digit_char_def)

lemma digit_val_digit_char [simp]: "n < 36 \<Longrightarrow> digit_val (digit_char n) = Some n"
  by (auto simp: digit_val_def Let_def of_char_digit_char)

lemma digits_val_append:
  "digits_val b acc (s @ t) =
     (case digits_val b acc s of None \<Rightarrow> None | Some n \<Rightarrow> digits_val b n t)"
  by (induction b acc s rule: digits_val.induct) (auto split: option.splits)

lemma digits_val_show_base:
  assumes "2 \<le> b" and "b \<le> 36"
  shows "digits_val b 0 (show_base b n) = Some n"
proof (induction n rule: less_induct)
  case (less n)
  show ?case
  proof (cases "n < b")
    case True
    with assms show ?thesis by (simp add: show_base.simps [of b n])
  next
    case False
    then have "n div b < n" using assms(1) by simp
    from less.IH [OF this] have "digits_val b 0 (show_base b (n div b)) = Some (n div b)" .
    moreover have m: "n mod b < b" using assms(1) by simp
    moreover have "digit_val (digit_char (n mod b)) = Some (n mod b)"
      using m assms(2) by (intro digit_val_digit_char) simp
    ultimately show ?thesis
      using False assms by (simp add: show_base.simps [of b n] digits_val_append)
  qed
qed

lemma show_base_not_Nil [simp]: "show_base b n \<noteq> []"
  by (subst show_base.simps) simp

lemma Itoa_not_Nil [simp]: "Itoa n \<noteq> []"
  by (simp add: Itoa_def)

lemma digit_char_isDigit: "n < 10 \<Longrightarrow> isDigit (digit_char n)"
  by (simp add: isDigit_def Let_def of_char_digit_char)

lemma Itoa_digits: "c \<in> set (Itoa n) \<Longrightarrow> isDigit c"
proof (induction n rule: less_induct)
  case (less n)
  show ?case
  proof (cases "n < 10")
    case True
    with less.prems show ?thesis
      by (simp add: Itoa_def show_base.simps [of 10 n] digit_char_isDigit)
  next
    case False
    with less.prems have "c \<in> set (Itoa (n div 10)) \<or> c = digit_char (n mod 10)"
      by (auto simp: Itoa_def show_base.simps [of 10 n])
    then show ?thesis
      using less.IH [of "n div 10"] False digit_char_isDigit by fastforce
  qed
qed

lemma isDigit_simps:
  "isDigit c \<Longrightarrow> \<not> isSpace c" "isDigit c \<Longrightarrow> c \<noteq> CHR ''+''" "isDigit c \<Longrightarrow> c \<noteq> CHR ''-''"
  "isDigit c \<Longrightarrow> c \<noteq> CHR '',''" "isDigit c \<Longrightarrow> c \<noteq> CHR '':''" "isDigit c \<Longrightarrow> c \<noteq> CHR '';''"
  by (auto simp: isDigit_def isSpace_def)

lemma ParseUint_Itoa: "n < 2 ^ bits \<Longrightarrow> ParseUint (Itoa n) 10 bits = Some n"
  by (simp add: ParseUint_def Itoa_def digits_val_show_base)

lemma ParseInt_Itoa:
  assumes "n < 2 ^ (bits - 1)"
  shows "ParseInt (Itoa n) 10 bits = Some (int n)"
proof -
  have "hd (Itoa n) \<in> set (Itoa n)" by simp
  then have "isDigit (hd (Itoa n))" by (rule Itoa_digits)
  then have h: "hd (Itoa n) \<noteq> CHR ''+''" "hd (Itoa n) \<noteq> CHR ''-''"
    by (auto simp: isDigit_simps)
  have "(2::nat) ^ (bits - 1) \<le> 2 ^ bits" by (rule power_increasing) simp_all
  with assms have "n < 2 ^ bits" by (rule less_le_trans)
  from ParseUint_Itoa [OF this] h assms show ?thesis
    by (simp add: ParseInt_def Let_def)
qed

lemma ParseUint_bound: "ParseUint s base bits = Some n \<Longrightarrow> n < 2 ^ bits"
  by (auto simp: ParseUint_def split: if_splits option.splits)

lemma ParseInt_bounds:
  "ParseInt s base bits = Some i \<Longrightarrow> - (2 ^ (bits - 1)) \<le> i \<and> i < 2 ^ (bits - 1)"
proof -
  assume a: "ParseInt s base bits = Some i"
  let ?r = "if s \<noteq> [] \<and> (hd s = CHR ''+'' \<or> hd s = CHR ''-'') then tl s else s"
  from a obtain n where n: "ParseUint ?r base bits = Some n"
    and d: "(i = - int n \<and> n \<le> 2 ^ (bits - 1)) \<or> (i = int n \<and> n < 2 ^ (bits - 1))"
    by (auto simp: ParseInt_def Let_def split: if_splits option.splits)
  have c: "int (2 ^ (bits - 1)) = 2 ^ (bits - 1)" by simp
  from d show ?thesis
  proof
    assume "i = - int n \<and> n \<le> 2 ^ (bits - 1)"
    then have "int n \<le> 2 ^ (bits - 1)" and i: "i = - int n"
      by (auto simp flip: c)
    moreover have "(0::int) < 2 ^ (bits - 1)" by simp
    ultimately show ?thesis unfolding i by linarith
  next
    assume "i = int n \<and> n < 2 ^ (bits - 1)"
    then have "int n < 2 ^ (bits - 1)" and i: "i = int n"
      by (auto simp flip: c)
    moreover have "(0::int) < 2 ^ (bits - 1)" by simp
    ultimately show ?thesis unfolding i by linarith
  qed
qed

subsection \<open>Lemmas: bytes\<close>

lemma string_of_bytes_of_string [simp]: "string_of_bytes (bytes_of_string s) = s"
proof -
  have "char_of (unat (of_nat (of_char c) :: u8)) = c" for c
  proof -
    have "(of_char c :: nat) < 256" by simp
    then have "unat (of_nat (of_char c) :: u8) = of_char c"
      by (simp add: unat_of_nat_less)
    then show ?thesis by simp
  qed
  then show ?thesis by (simp add: string_of_bytes_def bytes_of_string_def comp_def)
qed

lemma bytes_of_string_of_bytes [simp]: "bytes_of_string (string_of_bytes b) = b"
proof -
  have "(of_nat (of_char (char_of (unat w) :: char)) :: u8) = w" for w :: u8
  proof -
    have "unat w < 256" using unsigned_less [of w] by simp
    then have "(of_char (char_of (unat w) :: char) :: nat) = unat w" by simp
    then show ?thesis by simp
  qed
  then show ?thesis by (simp add: string_of_bytes_def bytes_of_string_def comp_def)
qed

lemma length_bytes_of_string [simp]: "length (bytes_of_string s) = length s"
  by (simp add: bytes_of_string_def)

lemma length_string_of_bytes [simp]: "length (string_of_bytes b) = length b"
  by (simp add: string_of_bytes_def)

text \<open>Evaluation of closed string terms by the simplifier.\<close>

lemmas go_eval =
  lower_char_def isSpace_def isDigit_def digit_val_def char_of_def ToLower_def EqualFold_def
  TrimSpace_def TrimFunc_def TrimLeftFunc_def TrimRightFunc_def Trim_def TrimRight_def
  HasPrefix_def HasSuffix_def TrimSuffix_def TrimPrefix_def ContainsAny_def Contains_def
  IndexByte_def IndexAny_def LastIndexByte_def LastIndexAny_def CountByte_def
  ParseUint_def ParseInt_def Atoi_def digit_char_def Itoa_def

end
