(* ===== verification/GoNetip.thy ===== *)
theory GoNetip
  imports GoStrings
begin

text \<open>
  The parts of Go's \<open>encoding/binary\<close> and \<open>net/netip\<close> packages that the sources
  call: big-endian fields, addresses, prefixes, and the text parsers
  \<open>ParseAddr\<close> and \<open>ParsePrefix\<close> in the order in which the library checks its input.
\<close>

unbundle bit_operations_syntax

subsection \<open>Big-endian fields\<close>

definition be_nat :: "bytes \<Rightarrow> nat" where
  "be_nat bs = foldl (\<lambda>a b. a * 256 + unat b) 0 bs"

fun be_bytes :: "nat \<Rightarrow> nat \<Rightarrow> bytes" where
  "be_bytes 0 n = []"
| "be_bytes (Suc k) n = be_bytes k (n div 256) @ [of_nat (n mod 256)]"

lemma be_nat_snoc: "be_nat (bs @ [b]) = be_nat bs * 256 + unat b"
  by (simp add: be_nat_def)

lemma be_nat_Nil [simp]: "be_nat [] = 0"
  by (simp add: be_nat_def)

lemma length_be_bytes [simp]: "length (be_bytes k n) = k"
  by (induction k arbitrary: n) auto

lemma unat_u8_less [simp]: "unat (b :: u8) < 256"
  using unsigned_less [of b] by simp

lemma be_nat_less: "be_nat bs < 256 ^ length bs"
proof (induction bs rule: rev_induct)
  case (snoc b bs)
  have "unat b < 256" by simp
  with snoc have "be_nat bs * 256 + unat b < (be_nat bs + 1) * 256" by simp
  also from snoc have "(be_nat bs + 1) * 256 \<le> 256 ^ length bs * 256"
    by (intro mult_right_mono) auto
  finally show ?case by (simp add: be_nat_snoc mult.commute)
qed simp

lemma be_nat_be_bytes [wire_simps]: "be_nat (be_bytes k n) = n mod 256 ^ k"
proof (induction k arbitrary: n)
  case (Suc k)
  have "unat (of_nat (n mod 256) :: u8) = n mod 256"
    by (simp add: unat_of_nat_less)
  then have "be_nat (be_bytes (Suc k) n) = (n div 256) mod 256 ^ k * 256 + n mod 256"
    by (simp add: be_nat_snoc Suc)
  also have "\<dots> = n mod (256 * 256 ^ k)"
    by (simp add: mod_mult2_eq mult.commute)
  finally show ?case by simp
qed simp

lemma be_bytes_be_nat [wire_simps]: "be_bytes (length bs) (be_nat bs) = bs"
proof (induction bs rule: rev_induct)
  case (snoc b bs)
  have "(be_nat bs * 256 + unat b) div 256 = be_nat bs" by simp
  moreover have "(be_nat bs * 256 + unat b) mod 256 = unat b" by simp
  ultimately show ?case by (simp add: be_nat_snoc snoc)
qed simp

subsection \<open>Addresses\<close>

text \<open>\<open>AddrNone\<close> is the zero \<open>netip.Addr\<close>; the string of \<open>Addr6\<close> is the zone.\<close>

datatype addr = AddrNone | Addr4 u32 | Addr6 "128 word" string

definition Is4 :: "addr \<Rightarrow> bool" where
  "Is4 a \<longleftrightarrow> (case a of Addr4 _ \<Rightarrow> True | _ \<Rightarrow> False)"

definition Is6 :: "addr \<Rightarrow> bool" where
  "Is6 a \<longleftrightarrow> (case a of Addr6 _ _ \<Rightarrow> True | _ \<Rightarrow> False)"

definition IsValid :: "addr \<Rightarrow> bool" where
  "IsValid a \<longleftrightarrow> a \<noteq> AddrNone"

definition BitLen :: "addr \<Rightarrow> nat" where
  "BitLen a = (case a of AddrNone \<Rightarrow> 0 | Addr4 _ \<Rightarrow> 32 | Addr6 _ _ \<Rightarrow> 128)"

definition hasZone :: "addr \<Rightarrow> bool" where
  "hasZone a \<longleftrightarrow> (case a of Addr6 _ z \<Rightarrow> z \<noteq> [] | _ \<Rightarrow> False)"

definition withoutZone :: "addr \<Rightarrow> addr" where
  "withoutZone a = (case a of Addr6 w _ \<Rightarrow> Addr6 w [] | _ \<Rightarrow> a)"

text \<open>\<open>Unmap\<close> turns an IPv4-mapped IPv6 address into the IPv4 one.\<close>

definition Unmap :: "addr \<Rightarrow> addr" where
  "Unmap a =
     (case a of
        Addr6 w z \<Rightarrow> if drop_bit 32 w = 0xFFFF then Addr4 (ucast w) else a
      | _ \<Rightarrow> a)"

definition AddrFrom4 :: "bytes \<Rightarrow> addr" where
  "AddrFrom4 b = Addr4 (of_nat (be_nat b))"

definition AddrFrom16 :: "bytes \<Rightarrow> addr" where
  "AddrFrom16 b = Addr6 (of_nat (be_nat b)) []"

text \<open>\<open>As4\<close> and \<open>As16\<close>: the address bytes (\<open>As4\<close> of an IPv6 address panics unless mapped).\<close>

definition As4 :: "addr \<Rightarrow> bytes option" where
  "As4 a = (case Unmap a of Addr4 w \<Rightarrow> Some (be_bytes 4 (unat w)) | _ \<Rightarrow> None)"

definition As16 :: "addr \<Rightarrow> bytes" where
  "As16 a =
     (case a of
        AddrNone \<Rightarrow> be_bytes 16 0
      | Addr4 w \<Rightarrow> be_bytes 16 (0xFFFF * 2 ^ 32 + unat w)
      | Addr6 w _ \<Rightarrow> be_bytes 16 (unat w))"

lemma addr_kind_simps [simp, netip_simps]:
  "\<not> Is4 AddrNone" "Is4 (Addr4 w)" "\<not> Is4 (Addr6 v z)"
  "\<not> Is6 AddrNone" "\<not> Is6 (Addr4 w)" "Is6 (Addr6 v z)"
  "\<not> IsValid AddrNone" "IsValid (Addr4 w)" "IsValid (Addr6 v z)"
  "BitLen AddrNone = 0" "BitLen (Addr4 w) = 32" "BitLen (Addr6 v z) = 128"
  "\<not> hasZone AddrNone" "\<not> hasZone (Addr4 w)" "hasZone (Addr6 v z) \<longleftrightarrow> z \<noteq> []"
  "withoutZone AddrNone = AddrNone" "withoutZone (Addr4 w) = Addr4 w"
  "withoutZone (Addr6 v z) = Addr6 v []"
  "Unmap AddrNone = AddrNone" "Unmap (Addr4 w) = Addr4 w"
  by (simp_all add: Is4_def Is6_def IsValid_def BitLen_def hasZone_def withoutZone_def Unmap_def)

lemma Unmap_idem [simp]: "Unmap (Unmap a) = Unmap a"
  by (cases a) (auto simp: Unmap_def)

lemma IsValid_Unmap [simp]: "IsValid (Unmap a) = IsValid a"
  by (cases a) (auto simp: Unmap_def)

lemma Is4_conv: "Is4 a \<longleftrightarrow> (\<exists>w. a = Addr4 w)"
  by (cases a) auto

lemma AddrFrom4_As4: "AddrFrom4 (be_bytes 4 (unat w)) = Addr4 w"
proof -
  have "unat w < 256 ^ 4" using unsigned_less [of w] by simp
  then show ?thesis by (simp add: AddrFrom4_def be_nat_be_bytes del: be_bytes.simps)
qed

lemma AddrFrom16_As16: "AddrFrom16 (be_bytes 16 (unat w)) = Addr6 w []"
proof -
  have "unat w < 256 ^ 16" using unsigned_less [of w] by simp
  then show ?thesis by (simp add: AddrFrom16_def be_nat_be_bytes del: be_bytes.simps)
qed

subsection \<open>Prefixes\<close>

text \<open>\<open>None\<close> bits is Go's invalid prefix (\<open>bitsPlusOne = 0\<close>).\<close>

datatype pfx = Pfx (pfx_addr: addr) (pfx_bits: "nat option")

definition zero_pfx :: pfx where
  "zero_pfx = Pfx AddrNone None"

definition PrefixFrom :: "addr \<Rightarrow> nat \<Rightarrow> pfx" where
  "PrefixFrom a b =
     Pfx (withoutZone a) (if IsValid a \<and> b \<le> BitLen a then Some b else None)"

definition pfx_valid :: "pfx \<Rightarrow> bool" where
  "pfx_valid p \<longleftrightarrow> pfx_bits p \<noteq> None"

text \<open>The high bits of an address, the rest cleared (\<open>Addr.Prefix\<close>).\<close>

definition mask_addr :: "nat \<Rightarrow> addr \<Rightarrow> addr" where
  "mask_addr b a =
     (case a of
        AddrNone \<Rightarrow> AddrNone
      | Addr4 w \<Rightarrow> Addr4 (push_bit (32 - b) (drop_bit (32 - b) w))
      | Addr6 w _ \<Rightarrow> Addr6 (push_bit (128 - b) (drop_bit (128 - b) w)) [])"

definition Masked :: "pfx \<Rightarrow> pfx" where
  "Masked p = (case pfx_bits p of
                 None \<Rightarrow> zero_pfx
               | Some b \<Rightarrow> PrefixFrom (mask_addr b (pfx_addr p)) b)"

definition PContains :: "pfx \<Rightarrow> addr \<Rightarrow> bool" where
  "PContains p ip =
     (case pfx_bits p of
        None \<Rightarrow> False
      | Some b \<Rightarrow>
          \<not> hasZone ip \<and>
          (case (pfx_addr p, ip) of
             (Addr4 w, Addr4 v) \<Rightarrow> drop_bit (32 - b) (v XOR w) = 0
           | (Addr6 w _, Addr6 v _) \<Rightarrow> drop_bit (128 - b) (v XOR w) = 0
           | _ \<Rightarrow> False))"

definition Overlaps :: "pfx \<Rightarrow> pfx \<Rightarrow> bool" where
  "Overlaps p q =
     (case (pfx_bits p, pfx_bits q) of
        (Some n, Some m) \<Rightarrow>
          p = q \<or>
          (Is4 (pfx_addr p) = Is4 (pfx_addr q) \<and>
           (let k = min n m in
            k = 0 \<or> mask_addr k (pfx_addr p) = mask_addr k (pfx_addr q)))
      | _ \<Rightarrow> False)"

text \<open>What every \<open>netip\<close> constructor guarantees of a prefix.\<close>

definition pfx_wf :: "pfx \<Rightarrow> bool" where
  "pfx_wf p \<longleftrightarrow>
     \<not> hasZone (pfx_addr p) \<and>
     (case pfx_bits p of None \<Rightarrow> True | Some b \<Rightarrow> IsValid (pfx_addr p) \<and> b \<le> BitLen (pfx_addr p))"

lemma pfx_wf_zero [simp, intro]: "pfx_wf zero_pfx"
  by (simp add: pfx_wf_def zero_pfx_def)

lemma not_hasZone_withoutZone [simp]: "\<not> hasZone (withoutZone a)"
  by (cases a) auto

lemma withoutZone_kinds [simp]:
  "IsValid (withoutZone a) = IsValid a" "BitLen (withoutZone a) = BitLen a"
  "Is4 (withoutZone a) = Is4 a"
  by (cases a; simp)+

lemma mask_addr_kinds [simp]:
  "IsValid (mask_addr b a) = IsValid a" "BitLen (mask_addr b a) = BitLen a"
  "Is4 (mask_addr b a) = Is4 a" "\<not> hasZone (mask_addr b a)"
  by (cases a; simp add: mask_addr_def)+

lemma pfx_wf_PrefixFrom [simp, intro]: "pfx_wf (PrefixFrom a b)"
  by (simp add: pfx_wf_def PrefixFrom_def)

lemma pfx_wf_Masked [simp, intro]: "pfx_wf (Masked p)"
  by (simp add: Masked_def split: option.splits)

lemma xor_zero_iff [simp]: "(a XOR b :: 'a::len word) = 0 \<longleftrightarrow> a = b"
  by (auto simp: bit_eq_iff bit_xor_iff)

lemma drop_bit_more:
  assumes "drop_bit n (v :: 'a::len word) = drop_bit n w" and "n \<le> m"
  shows "drop_bit m v = drop_bit m w"
proof -
  from assms(2) obtain k where "m = k + n" by (metis add.commute le_Suc_ex)
  with assms(1) show ?thesis by (metis drop_bit_drop_bit)
qed

text \<open>Two prefixes that share an address overlap.\<close>

lemma Overlaps_if_common:
  assumes "pfx_wf p" and "pfx_wf q" and "PContains p ip" and "PContains q ip"
  shows "Overlaps p q"
proof -
  obtain a n where p: "p = Pfx a (Some n)"
    using assms(3) by (cases p) (auto simp: PContains_def split: option.splits)
  obtain c m where q: "q = Pfx c (Some m)"
    using assms(4) by (cases q) (auto simp: PContains_def split: option.splits)
  show ?thesis
  proof (cases ip)
    case (Addr4 v)
    with p q assms(3,4) obtain x y where xy: "a = Addr4 x" "c = Addr4 y"
      and d: "drop_bit (32 - n) v = drop_bit (32 - n) x" "drop_bit (32 - m) v = drop_bit (32 - m) y"
      by (auto simp: PContains_def split: addr.splits)
    have "32 - n \<le> 32 - min n m" and "32 - m \<le> 32 - min n m" by auto
    from drop_bit_more [OF d(1) this(1)] drop_bit_more [OF d(2) this(2)]
    show ?thesis by (simp add: Overlaps_def p q xy mask_addr_def Let_def)
  next
    case (Addr6 v z)
    with p q assms(3,4) obtain x zx y zy where xy: "a = Addr6 x zx" "c = Addr6 y zy"
      and d: "drop_bit (128 - n) v = drop_bit (128 - n) x" "drop_bit (128 - m) v = drop_bit (128 - m) y"
      by (auto simp: PContains_def split: addr.splits)
    have "128 - n \<le> 128 - min n m" and "128 - m \<le> 128 - min n m" by auto
    from drop_bit_more [OF d(1) this(1)] drop_bit_more [OF d(2) this(2)]
    show ?thesis by (simp add: Overlaps_def p q xy mask_addr_def Let_def)
  qed (use assms(3) p in \<open>auto simp: PContains_def split: addr.splits\<close>)
qed

lemma PContains_imp_valid: "PContains p ip \<Longrightarrow> pfx_valid p"
  by (auto simp: PContains_def pfx_valid_def split: option.splits)

subsection \<open>Text form of addresses\<close>

text \<open>
  \<open>parseIPv4Fields\<close>: the flags are \<open>i == 0\<close> and \<open>s[i-1] == '.'\<close>; the fields read so
  far are the last argument and their number is the loop's \<open>pos\<close>.
\<close>

fun ipv4_fields :: "string \<Rightarrow> bool \<Rightarrow> bool \<Rightarrow> nat \<Rightarrow> nat \<Rightarrow> nat list \<Rightarrow> nat list option" where
  "ipv4_fields [] first dot val digLen fs =
     (if length fs < 3 then None else Some (fs @ [val]))"
| "ipv4_fields (c # s) first dot val digLen fs =
     (if isDigit c then
        (if digLen = 1 \<and> val = 0 then None
         else let v = val * 10 + (of_char c - 48)
              in if v > 255 then None else ipv4_fields s False False v (Suc digLen) fs)
      else if c = CHR ''.'' then
        (if first \<or> s = [] \<or> dot then None
         else if length fs = 3 then None
         else ipv4_fields s False True 0 0 (fs @ [val]))
      else None)"

definition parseIPv4Fields :: "string \<Rightarrow> nat list option" where
  "parseIPv4Fields s = ipv4_fields s True False 0 0 []"

definition parseIPv4 :: "string \<Rightarrow> addr option" where
  "parseIPv4 s = map_option (\<lambda>fs. AddrFrom4 (map of_nat fs)) (parseIPv4Fields s)"

fun hex_group :: "string \<Rightarrow> nat \<Rightarrow> nat \<Rightarrow> (nat \<times> nat \<times> string) option" where
  "hex_group [] off acc = Some (off, acc, [])"
| "hex_group (c # s) off acc =
     (case digit_val c of
        None \<Rightarrow> Some (off, acc, c # s)
      | Some d \<Rightarrow>
          if \<not> d < 16 then Some (off, acc, c # s)
          else if off > 3 then None
          else let a = acc * 16 + d
               in if a > 65535 then None else hex_group s (Suc off) a)"

text \<open>The group loop of \<open>parseIPv6\<close>: bytes so far, ellipsis position, rest of the text.\<close>

function ipv6_loop ::
  "string \<Rightarrow> nat list \<Rightarrow> nat option \<Rightarrow> (nat list \<times> nat option \<times> string) option" where
  "ipv6_loop s ip e =
     (if \<not> length ip < 16 then Some (ip, e, s)
      else case hex_group s 0 0 of
        None \<Rightarrow> None
      | Some (off, acc, r) \<Rightarrow>
          if off = 0 then None
          else if r \<noteq> [] \<and> hd r = CHR ''.'' then
            (if e = None \<and> length ip \<noteq> 12 then None
             else if length ip + 4 > 16 then None
             else case parseIPv4Fields s of
                    None \<Rightarrow> None
                  | Some fs \<Rightarrow> Some (ip @ fs, e, []))
          else let ip' = ip @ [acc div 256, acc mod 256] in
            if r = [] then Some (ip', e, [])
            else if hd r \<noteq> CHR '':'' then None
            else if tl r = [] then None
            else let s' = tl r in
              if hd s' = CHR '':'' then
                (if e \<noteq> None then None
                 else if tl s' = [] then Some (ip', Some (length ip'), [])
                 else ipv6_loop (tl s') ip' (Some (length ip')))
              else ipv6_loop s' ip' e)"
  by pat_completeness auto
termination
  by (relation "measure (\<lambda>(s, ip, e). 16 - length ip)") auto

declare ipv6_loop.simps [simp del]

definition parseIPv6 :: "string \<Rightarrow> addr option" where
  "parseIPv6 input =
     (let pct = IndexByte input CHR ''%'';
          s = (case pct of None \<Rightarrow> input | Some i \<Rightarrow> take i input);
          zone = (case pct of None \<Rightarrow> [] | Some i \<Rightarrow> drop (Suc i) input)
      in if pct \<noteq> None \<and> zone = [] then None
      else let lead = HasPrefix s ''::'';
               s1 = (if lead then drop 2 s else s);
               e = (if lead then Some 0 else None)
      in if lead \<and> s1 = [] then Some (Addr6 0 zone)
      else case ipv6_loop s1 [] e of
             None \<Rightarrow> None
           | Some (ip, e', rest) \<Rightarrow>
               if rest \<noteq> [] then None
               else if length ip < 16 then
                 (case e' of
                    None \<Rightarrow> None
                  | Some k \<Rightarrow>
                      Some (Addr6 (of_nat (be_nat (map of_nat
                        (take k ip @ replicate (16 - length ip) 0 @ drop k ip)))) zone))
               else if e' \<noteq> None then None
               else Some (Addr6 (of_nat (be_nat (map of_nat ip))) zone))"

definition ParseAddr :: "string \<Rightarrow> addr option" where
  "ParseAddr s =
     (case IndexFunc (\<lambda>c. c \<in> set ''.:%'') s of
        None \<Rightarrow> None
      | Some i \<Rightarrow>
          if s ! i = CHR ''.'' then parseIPv4 s
          else if s ! i = CHR '':'' then parseIPv6 s
          else None)"

definition ParsePrefix :: "string \<Rightarrow> pfx option" where
  "ParsePrefix s =
     (case LastIndexByte s CHR ''/'' of
        None \<Rightarrow> None
      | Some i \<Rightarrow>
          (case ParseAddr (take i s) of
             None \<Rightarrow> None
           | Some ip \<Rightarrow>
               if hasZone ip then None
               else let b = drop (Suc i) s in
                 if length b > 1 \<and> \<not> (isDigit (hd b) \<and> hd b \<noteq> CHR ''0'') then None
                 else case Atoi b of
                        None \<Rightarrow> None
                      | Some n \<Rightarrow>
                          if n < 0 \<or> n > int (BitLen ip) then None
                          else Some (PrefixFrom ip (nat n))))"

lemma pfx_wf_ParsePrefix: "ParsePrefix s = Some p \<Longrightarrow> pfx_wf p"
  by (auto simp: ParsePrefix_def Let_def split: option.splits if_splits)

subsection \<open>Printing\<close>

definition show_ipv4 :: "u32 \<Rightarrow> string" where
  "show_ipv4 w =
     (let n = unat w in
      Itoa (n div 2 ^ 24) @ ''.'' @ Itoa (n div 2 ^ 16 mod 256) @ ''.'' @
      Itoa (n div 2 ^ 8 mod 256) @ ''.'' @ Itoa (n mod 256))"

lemma ParseAddr_valid: "ParseAddr s = Some ip \<Longrightarrow> IsValid ip"
  by (auto simp: ParseAddr_def parseIPv4_def parseIPv6_def AddrFrom4_def Let_def
           split: option.splits if_splits)

end
