(* ===== verification/HostMatch.thy ===== *)
theory HostMatch
  imports GoNetip
begin

text \<open>
  \<open>vpntunnel/hostmatch.go\<close>: the hostname rules that select which connections are
  intercepted, and the iterative wildcard matcher shared with the routing rules. The
  matcher is proved against the language its pattern denotes.
\<close>

subsection \<open>Definitions\<close>

record hostRule =
  exclude :: bool
  pattern :: string
  rport :: int
  isIP :: bool

record hostMatcher =
  hrules :: "hostRule list"
  ports :: "int \<Rightarrow> bool"
  anyPort :: bool

text \<open>\<open>splitRulePort\<close>: host and port, or \<^const>\<open>None\<close> where the third result is false.\<close>

definition splitRulePort :: "string \<Rightarrow> (string \<times> string) option" where
  "splitRulePort s =
     (if HasPrefix s ''['' then
        (case LastIndex s '']:'' of
           Some i \<Rightarrow> if 0 < i then Some (take (i + 1) s, drop (i + 2) s) else None
         | None \<Rightarrow> None)
      else if CountByte s CHR '':'' \<noteq> 1 then None
      else case LastIndexByte s CHR '':'' of
             Some i \<Rightarrow> Some (take i s, drop (i + 1) s)
           | None \<Rightarrow> None)"

text \<open>\<open>net.ParseIP (s) != nil\<close>: an address without a zone.\<close>

definition parsesIP :: "string \<Rightarrow> bool" where
  "parsesIP s \<longleftrightarrow> (case ParseAddr s of Some a \<Rightarrow> \<not> hasZone a | None \<Rightarrow> False)"

text \<open>One iteration of the loop of \<open>compileHostRules\<close>.\<close>

definition compileHostRule :: "hostMatcher \<Rightarrow> string \<Rightarrow> hostMatcher" where
  "compileHostRule m raw =
     (let s = ToLower (TrimSpace raw) in
      if s = [] \<or> HasPrefix s ''#'' then m
      else let ex = HasPrefix s ''-'';
               s1 = TrimSuffix (if ex then TrimSpace (drop 1 s) else s) ''.'';
               (s2, port) =
                 (case splitRulePort s1 of
                    Some (host, portStr) \<Rightarrow>
                      (case Atoi portStr of
                         Some p \<Rightarrow> if 0 \<le> p \<and> p \<le> 65535 then (host, p) else (s1, -1)
                       | None \<Rightarrow> (s1, -1))
                  | None \<Rightarrow> (s1, -1));
               s3 = Trim s2 ''[]''
           in if s3 = [] then m
              else m\<lparr> ports := (if \<not> ex \<and> 0 < port then (ports m)(port := True) else ports m),
                      anyPort := (anyPort m \<or> (\<not> ex \<and> port = 0)),
                      hrules := hrules m @
                        [\<lparr> exclude = ex, pattern = s3, rport = port, isIP = parsesIP s3 \<rparr>] \<rparr>)"

definition compileHostRules :: "string list \<Rightarrow> hostMatcher" where
  "compileHostRules entries =
     foldl compileHostRule \<lparr> hrules = [], ports = (\<lambda>_. False), anyPort = False \<rparr> entries"

definition portMatches :: "hostRule \<Rightarrow> int \<Rightarrow> bool" where
  "portMatches r port =
     (if rport r = -1 then port = 443
      else if rport r = 0 then True
      else port = rport r)"

text \<open>
  \<open>globMatch\<close>: \<open>p\<close> and \<open>i\<close> are the positions in pattern and text, \<open>star\<close> and \<open>mark\<close> the
  backtracking point (\<open>star = -1\<close> is \<^const>\<open>None\<close>). The first component of the measure
  is 0 in every state the loop can reach.
\<close>

function glob_loop :: "string \<Rightarrow> string \<Rightarrow> nat \<Rightarrow> nat \<Rightarrow> nat option \<Rightarrow> nat \<Rightarrow> bool" where
  "glob_loop pat s p i star mark =
     (if i < length s then
        (if p < length pat \<and> (pat ! p = CHR ''?'' \<or> pat ! p = s ! i)
         then glob_loop pat s (p + 1) (i + 1) star mark
         else if p < length pat \<and> pat ! p = CHR ''*''
         then glob_loop pat s (p + 1) i (Some p) i
         else case star of
                Some k \<Rightarrow> glob_loop pat s (k + 1) (mark + 1) star (mark + 1)
              | None \<Rightarrow> False)
      else length (takeWhile (\<lambda>c. c = CHR ''*'') (drop p pat)) + p = length pat)"
  by pat_completeness auto
termination
  by (relation "measures [\<lambda>(pat, s, p, i, star, mark). if mark \<le> i then 0 else 1,
                          \<lambda>(pat, s, p, i, star, mark). length s - mark,
                          \<lambda>(pat, s, p, i, star, mark). length s - i,
                          \<lambda>(pat, s, p, i, star, mark). length pat - p]") auto

declare glob_loop.simps [simp del]

definition globMatch :: "string \<Rightarrow> string \<Rightarrow> bool" where
  "globMatch pat s = glob_loop pat s 0 0 None 0"

fun match_rules :: "hostRule list \<Rightarrow> string \<Rightarrow> int \<Rightarrow> bool" where
  "match_rules [] host port = False"
| "match_rules (r # rs) host port =
     (if \<not> portMatches r port then match_rules rs host port
      else if globMatch (pattern r) host then \<not> exclude r
      else match_rules rs host port)"

text \<open>The receiver may be nil (\<^const>\<open>None\<close>).\<close>

definition hostMatch :: "hostMatcher option \<Rightarrow> string \<Rightarrow> int \<Rightarrow> bool" where
  "hostMatch m host port =
     (case m of
        None \<Rightarrow> False
      | Some m \<Rightarrow>
          if host = [] then False
          else match_rules (hrules m) (TrimSuffix (ToLower host) ''.'') port)"

definition hasExplicitPort :: "hostMatcher option \<Rightarrow> int \<Rightarrow> bool" where
  "hasExplicitPort m port =
     (case m of None \<Rightarrow> False | Some m \<Rightarrow> anyPort m \<or> ports m port)"

subsection \<open>The language of a pattern\<close>

inductive glob :: "string \<Rightarrow> string \<Rightarrow> bool" where
  glob_Nil: "glob [] []"
| glob_any: "glob p s \<Longrightarrow> glob (CHR ''?'' # p) (c # s)"
| glob_lit: "glob p s \<Longrightarrow> c \<noteq> CHR ''*'' \<Longrightarrow> glob (c # p) (c # s)"
| glob_star: "glob p s \<Longrightarrow> glob (CHR ''*'' # p) (u @ s)"

inductive_cases glob_NilE [elim!]: "glob [] s"
inductive_cases glob_starE: "glob (CHR ''*'' # p) s"
inductive_cases glob_ConsE: "glob (c # p) s"

lemma glob_Nil_iff [simp]: "glob [] s \<longleftrightarrow> s = []"
  by (auto intro: glob_Nil)

lemma glob_star_iff: "glob (CHR ''*'' # p) s \<longleftrightarrow> (\<exists>j \<le> length s. glob p (drop j s))"
proof
  assume "glob (CHR ''*'' # p) s"
  then obtain u t where "s = u @ t" "glob p t" by (cases rule: glob_starE) auto
  then have "length u \<le> length s \<and> glob p (drop (length u) s)" by simp
  then show "\<exists>j \<le> length s. glob p (drop j s)" by blast
next
  assume "\<exists>j \<le> length s. glob p (drop j s)"
  then show "glob (CHR ''*'' # p) s" by (metis append_take_drop_id glob_star)
qed

lemma glob_step_iff:
  assumes "c \<noteq> CHR ''*''"
  shows "glob (c # p) s \<longleftrightarrow> s \<noteq> [] \<and> (c = CHR ''?'' \<or> c = hd s) \<and> glob p (tl s)"
proof
  assume "glob (c # p) s"
  then show "s \<noteq> [] \<and> (c = CHR ''?'' \<or> c = hd s) \<and> glob p (tl s)"
    using assms by (cases rule: glob_ConsE) auto
next
  assume "s \<noteq> [] \<and> (c = CHR ''?'' \<or> c = hd s) \<and> glob p (tl s)"
  then show "glob (c # p) s" using assms glob_any glob_lit by (cases s) auto
qed

lemma glob_star_literal: "glob p s \<Longrightarrow> glob (CHR ''*'' # p) (c # s)"
  using glob_star [of p s "[c]"] by simp

lemma glob_empty_text:
  "glob p [] \<longleftrightarrow> length (takeWhile (\<lambda>c. c = CHR ''*'') p) = length p"
proof (induction p)
  case (Cons c p)
  then show ?case by (cases "c = CHR ''*''") (auto simp: glob_star_iff glob_step_iff)
qed simp

text \<open>A literal tail of the pattern is a tail of every text it matches.\<close>

lemma glob_split: "glob (q @ t) s \<Longrightarrow> \<exists>j \<le> length s. glob t (drop j s)"
proof (induction q arbitrary: s)
  case Nil
  then show ?case by (intro exI [of _ 0]) simp
next
  case (Cons c q)
  show ?case
  proof (cases "c = CHR ''*''")
    case True
    with Cons.prems obtain j where j: "j \<le> length s" "glob (q @ t) (drop j s)"
      unfolding append_Cons True glob_star_iff by blast
    from Cons.IH [OF j(2)] obtain i where "i \<le> length s - j" "glob t (drop (i + j) s)" by auto
    with j(1) show ?thesis by (intro exI [of _ "i + j"]) simp
  next
    case False
    with Cons.prems have s: "s \<noteq> []" "glob (q @ t) (tl s)" by (simp_all add: glob_step_iff)
    from Cons.IH [OF s(2)] obtain j where "j \<le> length (tl s)" "glob t (drop j (tl s))" by blast
    with s(1) show ?thesis by (intro exI [of _ "Suc j"]) (cases s; simp)
  qed
qed

lemma glob_literal: "CHR ''*'' \<notin> set t \<Longrightarrow> CHR ''?'' \<notin> set t \<Longrightarrow> glob t s \<longleftrightarrow> s = t"
proof (induction t arbitrary: s)
  case (Cons c t)
  then have c: "c \<noteq> CHR ''*''" "c \<noteq> CHR ''?''" and IH: "\<And>s. glob t s \<longleftrightarrow> s = t" by auto
  show ?case unfolding glob_step_iff [OF c(1)] IH using c(2) by (cases s) auto
qed simp

lemma glob_literal_suffix:
  assumes "glob (q @ t) s" and "CHR ''*'' \<notin> set t" and "CHR ''?'' \<notin> set t"
  shows "HasSuffix s t"
proof -
  obtain j where "drop j s = t" using glob_split [OF assms(1)] glob_literal [OF assms(2,3)] by auto
  then have "s = take j s @ t" by (metis append_take_drop_id)
  then show ?thesis using HasSuffix_iff by blast
qed

subsection \<open>The matcher accepts exactly that language\<close>

text \<open>The rest of the pattern matches the rest of the text.\<close>

definition gat :: "string \<Rightarrow> string \<Rightarrow> nat \<Rightarrow> nat \<Rightarrow> bool" where
  "gat pat s p i \<longleftrightarrow> glob (drop p pat) (drop i s)"

lemma gat_end: "length s \<le> i \<Longrightarrow> p \<le> length pat \<Longrightarrow>
    gat pat s p i \<longleftrightarrow> length (takeWhile (\<lambda>c. c = CHR ''*'') (drop p pat)) + p = length pat"
  by (auto simp: gat_def glob_empty_text)

lemma gat_step:
  assumes "i < length s" and "p < length pat" and "pat ! p \<noteq> CHR ''*''"
  shows "gat pat s p i \<longleftrightarrow> (pat ! p = CHR ''?'' \<or> pat ! p = s ! i) \<and> gat pat s (Suc p) (Suc i)"
  using assms Cons_nth_drop_Suc [of p pat, symmetric] Cons_nth_drop_Suc [of i s, symmetric]
  by (simp add: gat_def glob_step_iff)

lemma gat_short:
  assumes "length s \<le> i" and "p < length pat" and "pat ! p \<noteq> CHR ''*''"
  shows "\<not> gat pat s p i"
  using assms Cons_nth_drop_Suc [of p pat, symmetric] by (simp add: gat_def glob_step_iff)

lemma gat_star:
  assumes "p < length pat" and "pat ! p = CHR ''*''" and "i \<le> length s"
  shows "gat pat s p i \<longleftrightarrow> (\<exists>j. i \<le> j \<and> j \<le> length s \<and> gat pat s (Suc p) j)"
proof -
  have d: "drop p pat = CHR ''*'' # drop (Suc p) pat"
    using Cons_nth_drop_Suc [OF assms(1)] assms(2) by simp
  have "gat pat s p i \<longleftrightarrow> (\<exists>k \<le> length s - i. gat pat s (Suc p) (k + i))"
    unfolding gat_def d glob_star_iff drop_drop length_drop by (rule refl)
  also have "\<dots> \<longleftrightarrow> (\<exists>j. i \<le> j \<and> j \<le> length s \<and> gat pat s (Suc p) j)"
  proof (intro iffI; elim exE conjE)
    fix k assume "k \<le> length s - i" "gat pat s (Suc p) (k + i)"
    with assms(3) show "\<exists>j. i \<le> j \<and> j \<le> length s \<and> gat pat s (Suc p) j"
      by (intro exI [of _ "k + i"]) simp
  next
    fix j assume "i \<le> j" "j \<le> length s" "gat pat s (Suc p) j"
    then show "\<exists>k \<le> length s - i. gat pat s (Suc p) (k + i)"
      by (intro exI [of _ "j - i"]) simp
  qed
  finally show ?thesis .
qed

lemma gat_star_absorbs:
  assumes "p < length pat" and "pat ! p = CHR ''*''" and "i \<le> x" and "x \<le> length s" and "gat pat s p x"
  shows "gat pat s p i"
proof -
  from assms obtain j where "x \<le> j" "j \<le> length s" "gat pat s (Suc p) j" by (auto simp: gat_star)
  with assms(3) have "\<exists>j. i \<le> j \<and> j \<le> length s \<and> gat pat s (Suc p) j" by (intro exI [of _ j]) simp
  then show ?thesis using assms by (simp add: gat_star)
qed

lemma gat_done: "gat pat s (length pat) i \<longleftrightarrow> length s \<le> i"
  by (simp add: gat_def)

text \<open>A star-free stretch of the pattern moves both positions by its length.\<close>

lemma gat_stretch:
  assumes "gat pat s p j" and "p + n \<le> length pat" and "\<forall>x. p \<le> x \<and> x < p + n \<longrightarrow> pat ! x \<noteq> CHR ''*''"
    and "j \<le> length s"
  shows "j + n \<le> length s \<and> gat pat s (p + n) (j + n)"
  using assms
proof (induction n)
  case (Suc n)
  then have IH: "j + n \<le> length s" "gat pat s (p + n) (j + n)" by auto
  have ps: "p + n < length pat" "pat ! (p + n) \<noteq> CHR ''*''" using Suc.prems by auto
  have "j + n < length s" using gat_short [OF _ ps] IH by (meson le_neq_implies_less not_le)
  with gat_step [OF this ps] IH show ?case by simp
qed simp

text \<open>Acceptance is sound for every text.\<close>

lemma glob_loop_sound:
  assumes "glob_loop pat s p i star mark" and "p \<le> length pat" and "i \<le> length s" and "mark \<le> i"
    and "\<And>k. star = Some k \<Longrightarrow> k < length pat \<and> pat ! k = CHR ''*''"
  shows "gat pat s p i \<or> (\<exists>k j. star = Some k \<and> mark \<le> j \<and> j \<le> length s \<and> gat pat s (Suc k) j)"
  using assms
proof (induction pat s p i star mark rule: glob_loop.induct)
  case (1 pat s p i star mark)
  note loop = "1.prems"(1) [unfolded glob_loop.simps [of pat s p i star mark]]
  consider (stop) "\<not> i < length s"
    | (char) "i < length s" "p < length pat \<and> (pat ! p = CHR ''?'' \<or> pat ! p = s ! i)"
    | (star) "i < length s" "\<not> (p < length pat \<and> (pat ! p = CHR ''?'' \<or> pat ! p = s ! i))"
        "p < length pat \<and> pat ! p = CHR ''*''"
    | (retry) "i < length s" "\<not> (p < length pat \<and> (pat ! p = CHR ''?'' \<or> pat ! p = s ! i))"
        "\<not> (p < length pat \<and> pat ! p = CHR ''*'')" by blast
  then show ?case
  proof cases
    case stop
    with "1.prems" loop show ?thesis by (simp add: gat_end)
  next
    case char
    with loop have "glob_loop pat s (p + 1) (i + 1) star mark" by simp
    from "1.IH"(1) [OF char this] "1.prems" char
    have "gat pat s (Suc p) (Suc i) \<or>
        (\<exists>k j. star = Some k \<and> mark \<le> j \<and> j \<le> length s \<and> gat pat s (Suc k) j)" by simp
    moreover have "gat pat s p i" if "gat pat s (Suc p) (Suc i)"
    proof (cases "pat ! p = CHR ''*''")
      case True
      with char that show ?thesis by (subst gat_star) (auto intro!: exI [of _ "Suc i"])
    qed (use char that gat_step in blast)
    ultimately show ?thesis by blast
  next
    case star
    with loop have "glob_loop pat s (p + 1) i (Some p) i" by simp
    from "1.IH"(2) [OF star this] "1.prems" star
    have "\<exists>j. i \<le> j \<and> j \<le> length s \<and> gat pat s (Suc p) j" by auto
    with star show ?thesis by (simp add: gat_star)
  next
    case retry
    with loop obtain k where k: "star = Some k" "glob_loop pat s (k + 1) (mark + 1) star (mark + 1)"
      by (auto split: option.splits)
    from "1.IH"(3) [OF retry k] "1.prems" retry k
    have "\<exists>j. Suc mark \<le> j \<and> j \<le> length s \<and> gat pat s (Suc k) j" by fastforce
    then show ?thesis unfolding k by (auto dest: Suc_leD)
  qed
qed

text \<open>
  Completeness needs a text without an asterisk: the first branch of the loop treats an
  asterisk of the pattern that meets one of the text as a literal.
\<close>

lemma glob_loop_complete:
  assumes "gat pat s p i \<or> (\<exists>k j. star = Some k \<and> mark < j \<and> j \<le> length s \<and> gat pat s (Suc k) j)"
    and "CHR ''*'' \<notin> set s" and "p \<le> length pat" and "i \<le> length s" and "mark \<le> i"
    and "\<And>k. star = Some k \<Longrightarrow> p = Suc k + (i - mark) \<and> pat ! k = CHR ''*'' \<and>
           (\<forall>x. Suc k \<le> x \<and> x < p \<longrightarrow> pat ! x \<noteq> CHR ''*'')"
  shows "glob_loop pat s p i star mark"
  using assms
proof (induction pat s p i star mark rule: glob_loop.induct)
  case (1 pat s p i star mark)
  have shift: "gat pat s p (j + (i - mark)) \<and> j + (i - mark) \<le> length s"
    if "star = Some k" "gat pat s (Suc k) j" "j \<le> length s" for k j
    using gat_stretch [OF that(2), of "i - mark"] "1.prems"(3,6) that by auto
  consider (stop) "\<not> i < length s"
    | (char) "i < length s" "p < length pat \<and> (pat ! p = CHR ''?'' \<or> pat ! p = s ! i)"
    | (star) "i < length s" "\<not> (p < length pat \<and> (pat ! p = CHR ''?'' \<or> pat ! p = s ! i))"
        "p < length pat \<and> pat ! p = CHR ''*''"
    | (retry) "i < length s" "\<not> (p < length pat \<and> (pat ! p = CHR ''?'' \<or> pat ! p = s ! i))"
        "\<not> (p < length pat \<and> pat ! p = CHR ''*'')" by blast
  then show ?case
  proof cases
    case stop
    have "\<not> (\<exists>k j. star = Some k \<and> mark < j \<and> j \<le> length s \<and> gat pat s (Suc k) j)"
      using shift stop "1.prems"(5) by fastforce
    with "1.prems"(1) have "gat pat s p i" by blast
    with stop "1.prems"(3) show ?thesis by (simp add: gat_end glob_loop.simps [of pat s p i])
  next
    case char
    have "s ! i \<noteq> CHR ''*''" using char "1.prems"(2) nth_mem by metis
    then have ns: "pat ! p \<noteq> CHR ''*''" using char by auto
    have "gat pat s p i \<Longrightarrow> gat pat s (p + 1) (i + 1)" using char gat_step [of i s p pat] ns by simp
    with "1.prems"(1) have g: "gat pat s (p + 1) (i + 1) \<or>
        (\<exists>k j. star = Some k \<and> mark < j \<and> j \<le> length s \<and> gat pat s (Suc k) j)" by blast
    have "\<And>k. star = Some k \<Longrightarrow> p + 1 = Suc k + (i + 1 - mark) \<and> pat ! k = CHR ''*'' \<and>
           (\<forall>x. Suc k \<le> x \<and> x < p + 1 \<longrightarrow> pat ! x \<noteq> CHR ''*'')"
      using "1.prems"(5,6) ns by (auto simp: less_Suc_eq)
    from "1.IH"(1) [OF char g "1.prems"(2) _ _ _ this] char "1.prems"(5)
    have "glob_loop pat s (p + 1) (i + 1) star mark" by simp
    with char show ?thesis by (simp add: glob_loop.simps [of pat s p i])
  next
    case star
    have "\<exists>x. i \<le> x \<and> x \<le> length s \<and> gat pat s p x"
      using "1.prems"(1)
    proof (elim disjE exE conjE)
      fix k j assume "star = Some k" "mark < j" "j \<le> length s" "gat pat s (Suc k) j"
      with shift [of k j] show ?thesis by (intro exI [of _ "j + (i - mark)"]) auto
    qed (use "1.prems"(4) in blast)
    then have "gat pat s p i" using star by (auto intro: gat_star_absorbs)
    then have "\<exists>j. i \<le> j \<and> j \<le> length s \<and> gat pat s (p + 1) j" using star by (simp add: gat_star)
    then have "gat pat s (p + 1) i \<or>
        (\<exists>k j. Some p = Some k \<and> i < j \<and> j \<le> length s \<and> gat pat s (Suc k) j)"
      by (metis Suc_eq_plus1 le_neq_implies_less)
    moreover have "\<forall>x. Suc p \<le> x \<and> x < p + 1 \<longrightarrow> pat ! x \<noteq> CHR ''*''" by auto
    ultimately have "glob_loop pat s (p + 1) i (Some p) i"
      using "1.IH"(2) [OF star] "1.prems"(2,4) star by simp
    with star show ?thesis by (simp add: glob_loop.simps [of pat s p i])
  next
    case retry
    have "\<not> gat pat s p i"
      using retry "1.prems"(3) gat_step [of i s p pat] gat_done [of pat s i]
      by (cases "p = length pat") auto
    with "1.prems"(1) obtain k j where k: "star = Some k" and j: "mark < j" "j \<le> length s" "gat pat s (Suc k) j"
      by blast
    then have "gat pat s (k + 1) (mark + 1) \<or>
        (\<exists>k' j. star = Some k' \<and> mark + 1 < j \<and> j \<le> length s \<and> gat pat s (Suc k') j)"
      by (metis Suc_eq_plus1 Suc_lessI)
    moreover have "k + 1 \<le> length pat" and "pat ! k = CHR ''*''"
      using "1.prems"(3) "1.prems"(6) [OF k] by linarith+
    moreover have "mark + 1 \<le> length s" using j by linarith
    ultimately have "glob_loop pat s (k + 1) (mark + 1) star (mark + 1)"
      by (intro "1.IH"(3) [OF retry k]) (auto simp: k "1.prems"(2))
    with k show ?thesis
      by (subst glob_loop.simps) (simp only: retry if_True if_False option.case)
  qed
qed

lemma globMatch_sound: "globMatch pat s \<Longrightarrow> glob pat s"
  using glob_loop_sound [of pat s 0 0 None 0] by (simp add: globMatch_def gat_def)

lemma globMatch_iff: "CHR ''*'' \<notin> set s \<Longrightarrow> globMatch pat s \<longleftrightarrow> glob pat s"
  using glob_loop_complete [of pat s 0 0 None 0] globMatch_sound [of pat s]
  by (auto simp: globMatch_def gat_def)

subsection \<open>Rule lists\<close>

lemma match_rules_find:
  "match_rules rs host port =
     (case find (\<lambda>r. portMatches r port \<and> globMatch (pattern r) host) rs of
        None \<Rightarrow> False | Some r \<Rightarrow> \<not> exclude r)"
  by (induction rs) auto

text \<open>What the port index of a compiled matcher knows of its rules.\<close>

definition matcher_inv :: "hostMatcher \<Rightarrow> bool" where
  "matcher_inv m \<longleftrightarrow>
     (\<forall>r \<in> set (hrules m).
        pattern r \<noteq> [] \<and> -1 \<le> rport r \<and> rport r \<le> 65535 \<and>
        (\<not> exclude r \<longrightarrow> 0 < rport r \<longrightarrow> ports m (rport r)) \<and>
        (\<not> exclude r \<longrightarrow> rport r = 0 \<longrightarrow> anyPort m))"

lemma matcher_inv_compileHostRule [inv_intros]:
  "matcher_inv m \<Longrightarrow> matcher_inv (compileHostRule m raw)"
  by (auto simp: matcher_inv_def compileHostRule_def Let_def split: prod.splits option.splits if_splits)

lemma matcher_inv_compileHostRules: "matcher_inv (compileHostRules es)"
  unfolding compileHostRules_def
  by (rule foldl_preserves, erule matcher_inv_compileHostRule) (simp add: matcher_inv_def)

subsection \<open>Properties\<close>

text \<open>
  C18: the iterative matcher accepts a text only if the pattern denotes it (an asterisk any
  run, a question mark one character), and every denoted text that contains no asterisk.
\<close>

theorem globMatch_exact:
  "(globMatch pat s \<longrightarrow> glob pat s) \<and> (CHR ''*'' \<notin> set s \<longrightarrow> glob pat s \<longrightarrow> globMatch pat s)"
  using globMatch_sound globMatch_iff by blast

theorem globMatch_exact_witness:
  "glob ''*.ex*m?le.com'' ''api.example.com'' \<and> globMatch ''*.com'' ''example.com''"
proof -
  have "globMatch ''*.ex*m?le.com'' ''api.example.com''" by code_simp
  moreover have "glob (CHR ''*'' # ''.com'') (''example'' @ ''.com'')"
    by (intro glob_star) (simp add: glob_literal)
  ultimately show ?thesis
    using globMatch_exact [of "''*.ex*m?le.com''" "''api.example.com''"]
      globMatch_exact [of "''*.com''" "''example.com''"] by simp
qed


text \<open>
  a host is intercepted exactly when, among the compiled rules whose port condition holds
  and whose pattern denotes the normalised host name, the first one is not an exclusion.
\<close>

theorem hostMatch_first_rule:
  assumes "CHR ''*'' \<notin> set host" and "host \<noteq> []"
  shows "hostMatch (Some m) host port \<longleftrightarrow>
           (\<exists>pre r post. hrules m = pre @ r # post \<and> \<not> exclude r \<and> portMatches r port \<and>
              glob (pattern r) (TrimSuffix (ToLower host) ''.'') \<and>
              list_all (\<lambda>q. \<not> (portMatches q port \<and>
                glob (pattern q) (TrimSuffix (ToLower host) ''.''))) pre)"
proof -
  let ?h = "TrimSuffix (ToLower host) ''.''"
  have "CHR ''*'' \<notin> set (ToLower host)" using assms(1) by (simp add: set_ToLower_nonletter)
  then have "CHR ''*'' \<notin> set ?h" by (auto simp: TrimSuffix_def dest: in_set_takeD)
  then have eq: "(\<lambda>r. portMatches r port \<and> globMatch (pattern r) ?h) =
      (\<lambda>r. portMatches r port \<and> glob (pattern r) ?h)" by (simp add: globMatch_iff)
  have "hostMatch (Some m) host port \<longleftrightarrow>
      (\<exists>r. find (\<lambda>r. portMatches r port \<and> glob (pattern r) ?h) (hrules m) = Some r \<and> \<not> exclude r)"
    using assms(2) by (auto simp: hostMatch_def match_rules_find eq split: option.splits)
  then show ?thesis unfolding find_Some_split by auto
qed

theorem hostMatch_first_rule_witness:
  "\<exists>pre r post.
     hrules (compileHostRules [''-*.apple.com'', ''*.com:8443'', ''# note'']) = pre @ r # post \<and>
     \<not> exclude r \<and> portMatches r 8443 \<and> glob (pattern r) ''www.apple.com''"
proof -
  let ?m = "compileHostRules [''-*.apple.com'', ''*.com:8443'', ''# note'']"
  have "hostMatch (Some ?m) ''WWW.Apple.com.'' 8443" by code_simp
  moreover have "TrimSuffix (ToLower ''WWW.Apple.com.'') ''.'' = ''www.apple.com''" by code_simp
  ultimately show ?thesis using hostMatch_first_rule [of "''WWW.Apple.com.''" ?m 8443] by auto
qed

text \<open>
  C26: every port on which a compiled rule set can intercept is 443 or one the port index
  reports, so a flow on any other port need not be peeked at.
\<close>

theorem hostMatch_port_indexed:
  assumes "hostMatch (Some (compileHostRules es)) host port"
  shows "port = 443 \<or> hasExplicitPort (Some (compileHostRules es)) port"
proof -
  from assms obtain r where r: "r \<in> set (hrules (compileHostRules es))" "\<not> exclude r" "portMatches r port"
    by (auto simp: hostMatch_def match_rules_find split: if_splits option.splits dest!: find_Some_first)
  have i: "\<not> exclude r \<longrightarrow> 0 < rport r \<longrightarrow> ports (compileHostRules es) (rport r)"
    "\<not> exclude r \<longrightarrow> rport r = 0 \<longrightarrow> anyPort (compileHostRules es)" "-1 \<le> rport r"
    using matcher_inv_compileHostRules [of es] r(1) unfolding matcher_inv_def by blast+
  consider "rport r = -1" | "rport r = 0" | "0 < rport r" using i(3) by linarith
  then show ?thesis
    by cases (use r(2,3) i in \<open>simp_all add: portMatches_def hasExplicitPort_def\<close>)
qed

theorem hostMatch_port_indexed_witness:
  "hostMatch (Some (compileHostRules [''*.dev:8443''])) ''a.dev'' 8443 \<and>
   hasExplicitPort (Some (compileHostRules [''*.dev:8443''])) 8443"
proof -
  have "hostMatch (Some (compileHostRules [''*.dev:8443''])) ''a.dev'' 8443" by code_simp
  with hostMatch_port_indexed [of "[''*.dev:8443'']" "''a.dev''" 8443] show ?thesis by simp
qed

end
