(* ===== verification/Fifo.thy ===== *)
theory Fifo
  imports Prelude
begin

text \<open>
  The contract of a bounded first-in-first-out memory and the ring buffer that
  implements it. Both users in the sources (\<open>fakeIPPool\<close> and \<open>recentIPs\<close> of
  \<open>vpntunnel/fakeip.go\<close>) keep a ring of slots and a reverse map; the abstract
  value of either is the list of its keys, oldest first.
\<close>

subsection \<open>Abstract operations\<close>

definition fifo_push :: "nat \<Rightarrow> 'k \<Rightarrow> 'k list \<Rightarrow> 'k list" where
  "fifo_push n k q = (if length q < n then q else tl q) @ [k]"

definition fifo_insert :: "nat \<Rightarrow> 'k \<Rightarrow> 'k list \<Rightarrow> 'k list" where
  "fifo_insert n k q = (if k \<in> set q then q else fifo_push n k q)"

lemma distinct_tl_notin: "distinct q \<Longrightarrow> k \<notin> set q \<Longrightarrow> k \<notin> set (tl q)"
  by (cases q) auto

lemma distinct_fifo_insert: "distinct q \<Longrightarrow> distinct (fifo_insert n k q)"
  by (auto simp: fifo_insert_def fifo_push_def distinct_tl_notin distinct_tl)

lemma length_fifo_insert: "0 < n \<Longrightarrow> length q \<le> n \<Longrightarrow> length (fifo_insert n k q) \<le> n"
  by (auto simp: fifo_insert_def fifo_push_def)

lemma fifo_insert_member: "k \<in> set (fifo_insert n k q)"
  by (simp add: fifo_insert_def fifo_push_def)

text \<open>
  A key with at most \<open>m\<close> keys behind it keeps at most \<open>m + 1\<close> keys behind it after
  one insertion, and is still there while that number stays below the capacity.
\<close>

definition behind :: "'k \<Rightarrow> 'k list \<Rightarrow> nat \<Rightarrow> bool" where
  "behind k q m \<longleftrightarrow> (\<exists>u v. q = u @ k # v \<and> length v \<le> m)"

lemma behind_member: "behind k q m \<Longrightarrow> k \<in> set q"
  by (auto simp: behind_def)

lemma behind_mono: "behind k q m \<Longrightarrow> m \<le> m' \<Longrightarrow> behind k q m'"
  unfolding behind_def by (metis order_trans)

lemma fifo_insert_behind:
  assumes b: "behind k q m" and m: "Suc m < n" and q: "length q \<le> n"
  shows "behind k (fifo_insert n k' q) (Suc m)"
proof -
  from b obtain u v where uv: "q = u @ k # v" "length v \<le> m" by (auto simp: behind_def)
  show ?thesis
  proof (cases "k' \<in> set q \<or> length q < n")
    case True
    then consider (old) "k' \<in> set q" | (room) "k' \<notin> set q" "length q < n" by blast
    then show ?thesis
    proof cases
      case old
      with b show ?thesis by (simp add: fifo_insert_def behind_mono)
    next
      case room
      then have "fifo_insert n k' q = u @ k # (v @ [k'])"
        using uv by (simp add: fifo_insert_def fifo_push_def)
      with uv show ?thesis unfolding behind_def by (metis length_append_singleton Suc_le_mono)
    qed
  next
    case False
    with uv m have "u \<noteq> []" by auto
    then obtain x u' where "u = x # u'" by (cases u) auto
    with False uv have "fifo_insert n k' q = u' @ k # (v @ [k'])"
      by (auto simp: fifo_insert_def fifo_push_def)
    with uv show ?thesis unfolding behind_def by (metis length_append_singleton Suc_le_mono)
  qed
qed

lemma fifo_push_behind: "k \<notin> set q \<Longrightarrow> behind k (fifo_insert n k q) 0"
  by (auto simp: fifo_insert_def fifo_push_def behind_def)

subsection \<open>The interface\<close>

locale fifo_memory =
  fixes inv :: "'s \<Rightarrow> bool"
    and contents :: "'s \<Rightarrow> 'k list"
    and insert :: "'s \<Rightarrow> 'k \<Rightarrow> 's"
    and member :: "'s \<Rightarrow> 'k \<Rightarrow> bool"
    and capacity :: "'s \<Rightarrow> nat"
    and valid_key :: "'k \<Rightarrow> bool"
  assumes inv_insert: "inv s \<Longrightarrow> valid_key k \<Longrightarrow> inv (insert s k)"
    and contents_insert:
      "inv s \<Longrightarrow> valid_key k \<Longrightarrow> contents (insert s k) = fifo_insert (capacity s) k (contents s)"
    and capacity_insert: "inv s \<Longrightarrow> valid_key k \<Longrightarrow> capacity (insert s k) = capacity s"
    and member_iff: "inv s \<Longrightarrow> valid_key k \<Longrightarrow> member s k \<longleftrightarrow> k \<in> set (contents s)"
    and contents_bound: "inv s \<Longrightarrow> length (contents s) \<le> capacity s"
begin

lemma inv_inserts: "inv s \<Longrightarrow> list_all valid_key ks \<Longrightarrow> inv (foldl insert s ks)"
  by (induction ks arbitrary: s) (auto intro: inv_insert)

lemma insert_member: "inv s \<Longrightarrow> valid_key k \<Longrightarrow> member (insert s k) k"
  by (simp add: member_iff inv_insert contents_insert fifo_insert_member)

lemma behind_inserts:
  assumes "inv s" and "list_all valid_key ks" and "behind k (contents s) m"
    and "m + length ks < capacity s"
  shows "behind k (contents (foldl insert s ks)) (m + length ks)"
  using assms
proof (induction ks arbitrary: s m)
  case (Cons k' ks)
  have s': "inv (insert s k')" and cap: "capacity (insert s k') = capacity s"
    using Cons.prems by (auto intro: inv_insert simp: capacity_insert)
  have b: "behind k (contents (insert s k')) (Suc m)"
    using Cons.prems contents_bound [of s]
    by (auto simp: contents_insert intro: fifo_insert_behind)
  from Cons.IH [OF s' _ b] Cons.prems cap show ?case by simp
qed simp

text \<open>A fresh key survives any \<open>capacity - 1\<close> later insertions.\<close>

lemma retained:
  assumes "inv s" and "valid_key k" and "\<not> member s k"
    and "list_all valid_key ks" and "length ks < capacity s"
  shows "member (foldl insert (insert s k) ks) k"
proof -
  have i: "inv (insert s k)" using assms(1,2) by (rule inv_insert)
  have "behind k (contents (insert s k)) 0"
    using assms(1-3) by (simp add: contents_insert member_iff fifo_push_behind)
  from behind_inserts [OF i assms(4) this] assms(5)
  have "behind k (contents (foldl insert (insert s k) ks)) (0 + length ks)"
    by (simp add: capacity_insert assms(1,2))
  then show ?thesis
    using inv_inserts [OF i assms(4)] assms(2) by (simp add: member_iff behind_member)
qed

end

subsection \<open>The ring buffer\<close>

text \<open>
  Slots \<open>xs\<close>, next slot \<open>i\<close>, empty marker \<open>e\<close>: the slots fill up in order, and once
  all are used the ring wraps.
\<close>

definition ring_abs :: "'a \<Rightarrow> nat \<Rightarrow> 'a list \<Rightarrow> 'a list" where
  "ring_abs e i xs = filter (\<lambda>x. x \<noteq> e) (drop i xs @ take i xs)"

definition ring_wf :: "'a \<Rightarrow> nat \<Rightarrow> 'a list \<Rightarrow> bool" where
  "ring_wf e i xs \<longleftrightarrow>
     i < length xs \<and>
     ((\<forall>x \<in> set xs. x \<noteq> e) \<or>
      ((\<forall>x \<in> set (take i xs). x \<noteq> e) \<and> (\<forall>x \<in> set (drop i xs). x = e)))"

lemma ring_abs_set: "set (ring_abs e i xs) = set xs - {e}"
proof -
  have "set (drop i xs) \<union> set (take i xs) = set xs"
    by (metis append_take_drop_id set_append sup_commute)
  then show ?thesis by (auto simp: ring_abs_def)
qed

lemma length_ring_abs: "length (ring_abs e i xs) \<le> length xs"
proof -
  have "length (ring_abs e i xs) \<le> length (drop i xs @ take i xs)"
    unfolding ring_abs_def by (rule length_filter_le)
  then show ?thesis by simp
qed

lemma ring_full: "\<forall>x \<in> set xs. x \<noteq> e \<Longrightarrow> length (ring_abs e i xs) = length xs"
proof -
  assume a: "\<forall>x \<in> set xs. x \<noteq> e"
  then have "ring_abs e i xs = drop i xs @ take i xs"
    unfolding ring_abs_def by (intro filter_True) (auto dest: in_set_dropD in_set_takeD)
  then show ?thesis by simp
qed

lemma ring_not_full:
  assumes "ring_wf e i xs" and "xs ! i = e"
  shows "length (ring_abs e i xs) < length xs"
proof -
  from assms have "e \<in> set (drop i xs)"
    by (metis Cons_nth_drop_Suc list.set_intros(1) ring_wf_def)
  then have "length (filter (\<lambda>x. x \<noteq> e) (drop i xs)) < length (drop i xs)"
    by (intro length_filter_less) auto
  moreover have "length (filter (\<lambda>x. x \<noteq> e) (take i xs)) \<le> length (take i xs)"
    by (rule length_filter_le)
  moreover have "length (drop i xs) + length (take i xs) = length xs"
    by (metis add.commute append_take_drop_id length_append)
  ultimately show ?thesis
    unfolding ring_abs_def filter_append length_append by linarith
qed

lemma ring_wf_slot_empty:
  assumes "ring_wf e i xs" and "length (ring_abs e i xs) < length xs"
  shows "xs ! i = e"
proof -
  have "\<not> (\<forall>x \<in> set xs. x \<noteq> e)" using ring_full [of xs e i] assms(2) by auto
  with assms(1) have "\<forall>x \<in> set (drop i xs). x = e" and "i < length xs"
    by (auto simp: ring_wf_def)
  then show ?thesis by (metis Cons_nth_drop_Suc list.set_intros(1))
qed

lemma ring_put_abs:
  assumes w: "ring_wf e i xs" and k: "k \<noteq> e"
  shows "ring_abs e (Suc i mod length xs) (xs[i := k]) = fifo_push (length xs) k (ring_abs e i xs)"
proof -
  from w have i: "i < length xs" by (simp add: ring_wf_def)
  have d: "drop i xs = xs ! i # drop (Suc i) xs" using i by (rule Cons_nth_drop_Suc [symmetric])
  have lhs: "ring_abs e (Suc i mod length xs) (xs[i := k]) =
      filter (\<lambda>x. x \<noteq> e) (drop (Suc i) xs) @ filter (\<lambda>x. x \<noteq> e) (take i xs) @ [k]"
  proof (cases "Suc i = length xs")
    case True
    then have "xs[i := k] = take i xs @ [k]"
      using i by (simp add: upd_conv_take_nth_drop)
    with True k show ?thesis by (simp add: ring_abs_def)
  next
    case False
    with i have s: "Suc i < length xs" by simp
    then have "take (Suc i) (xs[i := k]) = take i xs @ [k]"
      using i by (simp add: take_Suc_conv_app_nth)
    with s k show ?thesis by (simp add: ring_abs_def)
  qed
  have rhs: "ring_abs e i xs =
      (if xs ! i = e then [] else [xs ! i]) @
        filter (\<lambda>x. x \<noteq> e) (drop (Suc i) xs) @ filter (\<lambda>x. x \<noteq> e) (take i xs)"
    by (simp add: ring_abs_def d)
  show ?thesis
  proof (cases "xs ! i = e")
    case True
    with ring_not_full [OF w] rhs lhs show ?thesis by (simp add: fifo_push_def)
  next
    case False
    with ring_wf_slot_empty [OF w] have "\<not> length (ring_abs e i xs) < length xs" by blast
    with False rhs lhs show ?thesis by (simp add: fifo_push_def)
  qed
qed

lemma ring_put_wf:
  assumes w: "ring_wf e i xs" and k: "k \<noteq> e"
  shows "ring_wf e (Suc i mod length xs) (xs[i := k])"
proof -
  from w have i: "i < length xs" by (simp add: ring_wf_def)
  then have lt: "Suc i mod length xs < length xs" by (intro mod_less_divisor) linarith
  show ?thesis
  proof (cases "\<forall>x \<in> set xs. x \<noteq> e")
    case True
    then have "\<forall>x \<in> set (xs[i := k]). x \<noteq> e"
      using k set_update_subset_insert [of xs i k] by auto
    with lt show ?thesis by (simp add: ring_wf_def)
  next
    case False
    with w have t: "\<forall>x \<in> set (take i xs). x \<noteq> e" and d: "\<forall>x \<in> set (drop i xs). x = e"
      by (auto simp: ring_wf_def)
    have tk: "take (Suc i) (xs[i := k]) = take i xs @ [k]"
      using i by (simp add: take_Suc_conv_app_nth)
    show ?thesis
    proof (cases "Suc i = length xs")
      case True
      then have "take (Suc i) (xs[i := k]) = xs[i := k]" by simp
      with tk t k have "\<forall>x \<in> set (xs[i := k]). x \<noteq> e"
        by (metis UnE empty_iff insert_iff list.set(1) list.set(2) set_append)
      with lt show ?thesis by (simp add: ring_wf_def)
    next
      case False
      with i have m: "Suc i mod length xs = Suc i" by simp
      have "\<forall>x \<in> set (drop (Suc i) xs). x = e"
        using d i by (metis Cons_nth_drop_Suc list.set_intros(2))
      with m lt tk t k show ?thesis by (simp add: ring_wf_def)
    qed
  qed
qed

lemma ring_wf_empty: "0 < n \<Longrightarrow> ring_wf e 0 (replicate n e)"
  by (simp add: ring_wf_def)

lemma ring_abs_empty [simp]: "ring_abs e 0 (replicate n e) = []"
  by (simp add: ring_abs_def)

end
