(* ===== verification/FakeIP.thy ===== *)
theory FakeIP
  imports GoNetip Fifo
begin

text \<open>
  \<open>vpntunnel/fakeip.go\<close>: the pool that hands out addresses of 198.18.0.0/15 for
  names that resolve on the SSH host, and the memory of recent DNS answers. A slice
  index outside its slice panics in Go; here it is the result \<^const>\<open>None\<close>.
  Both are shown to refine the bounded first-in-first-out memory of \<open>Fifo\<close>.
\<close>

subsection \<open>Definitions\<close>

definition fakeIPPrefix :: pfx where
  "fakeIPPrefix = Pfx (Addr4 0xC6120000) (Some 15)"

definition fakeIPCapacity :: nat where
  "fakeIPCapacity = 8192"

record fakeIPPool =
  base :: u32
  pool_next :: u32
  byHost :: "string \<Rightarrow> u32 option"
  byIdx :: "string list"

definition newFakeIPPool :: fakeIPPool where
  "newFakeIPPool =
     \<lparr> base = (case As4 (pfx_addr fakeIPPrefix) of
                 Some b \<Rightarrow> of_nat (be_nat b) + 2
               | None \<Rightarrow> 2),
       pool_next = 0,
       byHost = (\<lambda>_. None),
       byIdx = replicate fakeIPCapacity [] \<rparr>"

definition pool_addr :: "fakeIPPool \<Rightarrow> u32 \<Rightarrow> addr" where
  "pool_addr p idx = AddrFrom4 (be_bytes 4 (unat (base p + idx)))"

definition pool_assign :: "fakeIPPool \<Rightarrow> string \<Rightarrow> (addr \<times> fakeIPPool) option" where
  "pool_assign p host =
     (case byHost p host of
        Some idx \<Rightarrow> Some (pool_addr p idx, p)
      | None \<Rightarrow>
          let idx = pool_next p;
              p1 = p\<lparr>pool_next := (pool_next p + 1) mod of_nat fakeIPCapacity\<rparr>
          in if \<not> unat idx < length (byIdx p1) then None
             else let old = byIdx p1 ! unat idx;
                      m = (if old \<noteq> [] then (byHost p1)(old := None) else byHost p1);
                      p2 = p1\<lparr>byIdx := (byIdx p1)[unat idx := host], byHost := m(host \<mapsto> idx)\<rparr>
                  in Some (pool_addr p2 idx, p2))"

text \<open>The second result of \<open>host\<close> (found or not) is the option.\<close>

definition pool_host :: "fakeIPPool \<Rightarrow> addr \<Rightarrow> string option" where
  "pool_host p ip =
     (if \<not> Is4 ip then None
      else case As4 ip of
        None \<Rightarrow> None
      | Some b \<Rightarrow>
          let v = (of_nat (be_nat b) :: u32) in
          if v < base p \<or> of_nat fakeIPCapacity \<le> v - base p then None
          else if \<not> unat (v - base p) < length (byIdx p) then None
          else let h = byIdx p ! unat (v - base p) in if h \<noteq> [] then Some h else None)"

record recentIPs =
  rcap :: nat
  rorder :: "addr list"
  rset :: "addr \<Rightarrow> nat option"
  rnext :: nat

definition newRecentIPs :: "nat \<Rightarrow> recentIPs" where
  "newRecentIPs capacity =
     \<lparr> rcap = capacity, rorder = replicate capacity AddrNone, rset = (\<lambda>_. None), rnext = 0 \<rparr>"

definition recent_add :: "recentIPs \<Rightarrow> addr \<Rightarrow> recentIPs option" where
  "recent_add l ip0 =
     (let ip = Unmap ip0 in
      if rset l ip \<noteq> None then Some l
      else if \<not> rnext l < length (rorder l) then None
      else let old = rorder l ! rnext l;
               m = (if IsValid old then (rset l)(old := None) else rset l)
           in Some (l\<lparr> rorder := (rorder l)[rnext l := ip],
                      rset := m(ip \<mapsto> rnext l),
                      rnext := (rnext l + 1) mod rcap l \<rparr>))"

definition recent_contains :: "recentIPs \<Rightarrow> addr \<Rightarrow> bool" where
  "recent_contains l ip \<longleftrightarrow> rset l (Unmap ip) \<noteq> None"

subsection \<open>Invariants\<close>

text \<open>The map is the inverse of the ring's occupied slots.\<close>

definition ring_index :: "'k \<Rightarrow> ('k \<Rightarrow> nat option) \<Rightarrow> 'k list \<Rightarrow> bool" where
  "ring_index e m xs \<longleftrightarrow>
     (\<forall>k i. m k = Some i \<longleftrightarrow> i < length xs \<and> xs ! i = k \<and> k \<noteq> e)"

definition pool_index :: "fakeIPPool \<Rightarrow> string \<Rightarrow> nat option" where
  "pool_index p h = map_option unat (byHost p h)"

definition pool_inv :: "fakeIPPool \<Rightarrow> bool" where
  "pool_inv p \<longleftrightarrow>
     base p = 0xC6120002 \<and> length (byIdx p) = fakeIPCapacity \<and>
     ring_wf [] (unat (pool_next p)) (byIdx p) \<and> ring_index [] (pool_index p) (byIdx p)"

definition recent_inv :: "recentIPs \<Rightarrow> bool" where
  "recent_inv l \<longleftrightarrow>
     length (rorder l) = rcap l \<and>
     ring_wf AddrNone (rnext l) (rorder l) \<and> ring_index AddrNone (rset l) (rorder l) \<and>
     (\<forall>ip \<in> set (rorder l). Unmap ip = ip)"

definition pool_names :: "fakeIPPool \<Rightarrow> string list" where
  "pool_names p = ring_abs [] (unat (pool_next p)) (byIdx p)"

definition recent_ips :: "recentIPs \<Rightarrow> addr list" where
  "recent_ips l = ring_abs AddrNone (rnext l) (rorder l)"

definition pool_insert :: "fakeIPPool \<Rightarrow> string \<Rightarrow> fakeIPPool" where
  "pool_insert p h = (case pool_assign p h of Some (_, p') \<Rightarrow> p' | None \<Rightarrow> p)"

text \<open>A sequence of calls; \<^const>\<open>None\<close> if one of them panics.\<close>

fun pool_run :: "fakeIPPool \<Rightarrow> string list \<Rightarrow> fakeIPPool option" where
  "pool_run p [] = Some p"
| "pool_run p (h # hs) =
     (case pool_assign p h of None \<Rightarrow> None | Some (_, p') \<Rightarrow> pool_run p' hs)"

fun recent_run :: "recentIPs \<Rightarrow> addr list \<Rightarrow> recentIPs option" where
  "recent_run l [] = Some l"
| "recent_run l (ip # ips) =
     (case recent_add l ip of None \<Rightarrow> None | Some l' \<Rightarrow> recent_run l' ips)"

definition recent_insert :: "recentIPs \<Rightarrow> addr \<Rightarrow> recentIPs" where
  "recent_insert l ip = (case recent_add l ip of Some l' \<Rightarrow> l' | None \<Rightarrow> l)"

subsection \<open>The index of a ring\<close>

lemma ring_index_mem: "ring_index e m xs \<Longrightarrow> k \<noteq> e \<Longrightarrow> m k \<noteq> None \<longleftrightarrow> k \<in> set xs"
  unfolding ring_index_def in_set_conv_nth by blast

lemma ring_index_put:
  assumes r: "ring_index e m xs" and i: "i < length xs" and k: "m k = None" "k \<noteq> e"
  shows "ring_index e ((if xs ! i \<noteq> e then m(xs ! i := None) else m)(k \<mapsto> i)) (xs[i := k])"
proof -
  let ?m = "if xs ! i \<noteq> e then m(xs ! i := None) else m"
  have own: "m (xs ! i) = Some i" if "xs ! i \<noteq> e"
    using r i that unfolding ring_index_def by blast
  have none: "m e = None" using r unfolding ring_index_def by (metis not_None_eq)
  have m': "?m k' = Some j \<longleftrightarrow> j \<noteq> i \<and> m k' = Some j" for k' j
  proof (cases "k' = xs ! i")
    case True
    with own none show ?thesis by auto
  next
    case False
    with r show ?thesis unfolding ring_index_def by auto
  qed
  have nk: "j < length xs \<Longrightarrow> xs ! j \<noteq> k" for j
    using r k unfolding ring_index_def by (metis option.distinct(1))
  have "(?m(k \<mapsto> i)) k' = Some j \<longleftrightarrow> j < length (xs[i := k]) \<and> xs[i := k] ! j = k' \<and> k' \<noteq> e" for k' j
  proof (cases "k' = k")
    case True
    with i k nk show ?thesis by (auto simp: nth_list_update)
  next
    case False
    then have "(?m(k \<mapsto> i)) k' = Some j \<longleftrightarrow> j \<noteq> i \<and> m k' = Some j" using m' by simp
    with False r i show ?thesis unfolding ring_index_def by (auto simp: nth_list_update)
  qed
  then show ?thesis by (simp add: ring_index_def)
qed

subsection \<open>The address pool\<close>

lemma fakeIPPrefix_parse: "ParsePrefix ''198.18.0.0/15'' = Some fakeIPPrefix"
  by code_simp

lemma As4_Addr4: "As4 (Addr4 w) = Some (be_bytes 4 (unat w))"
  by (simp add: As4_def)

lemma be_nat_word32: "of_nat (be_nat (be_bytes 4 (unat (w :: u32)))) = w"
  using AddrFrom4_As4 [of w] by (simp add: AddrFrom4_def del: be_bytes.simps)

lemma newFakeIPPool_base: "base newFakeIPPool = 0xC6120002"
  by (simp add: newFakeIPPool_def fakeIPPrefix_def As4_Addr4 be_nat_be_bytes del: be_bytes.simps)

lemma fakeIPCapacity_pos [simp]: "0 < fakeIPCapacity"
  by (simp add: fakeIPCapacity_def)

lemma pool_inv_new [inv_intros]: "pool_inv newFakeIPPool"
  unfolding pool_inv_def newFakeIPPool_base
  by (simp add: newFakeIPPool_def ring_wf_empty ring_index_def pool_index_def)

lemma pool_next_less: "pool_inv p \<Longrightarrow> unat (pool_next p) < length (byIdx p)"
  by (simp add: pool_inv_def ring_wf_def)

lemma unat_pool_next_step:
  "unat w < fakeIPCapacity \<Longrightarrow>
     unat ((w + 1) mod of_nat fakeIPCapacity :: u32) = Suc (unat w) mod fakeIPCapacity"
proof -
  assume a: "unat w < fakeIPCapacity"
  then have "unat (w + 1) = Suc (unat w)"
    by (subst unat_add_small) (simp_all add: fakeIPCapacity_def)
  then show ?thesis by (simp add: unat_mod_distrib fakeIPCapacity_def)
qed

text \<open>What an allocation leaves behind.\<close>

definition pool_alloc :: "fakeIPPool \<Rightarrow> string \<Rightarrow> fakeIPPool" where
  "pool_alloc p h =
     p\<lparr>pool_next := (pool_next p + 1) mod of_nat fakeIPCapacity,
       byIdx := (byIdx p)[unat (pool_next p) := h],
       byHost := (if byIdx p ! unat (pool_next p) \<noteq> []
                  then (byHost p)(byIdx p ! unat (pool_next p) := None) else byHost p)
                 (h \<mapsto> pool_next p)\<rparr>"

lemma pool_assign_cases:
  assumes "pool_inv p"
  shows "pool_assign p h =
    (case byHost p h of
       Some idx \<Rightarrow> Some (pool_addr p idx, p)
     | None \<Rightarrow> Some (pool_addr p (pool_next p), pool_alloc p h))"
  using pool_next_less [OF assms]
  by (auto simp: pool_assign_def pool_alloc_def pool_addr_def Let_def split: option.splits)

lemma pool_index_alloc:
  assumes "byHost p h = None"
  shows "pool_index (pool_alloc p h) =
     (if byIdx p ! unat (pool_next p) \<noteq> []
      then (pool_index p)(byIdx p ! unat (pool_next p) := None)
      else pool_index p)(h \<mapsto> unat (pool_next p))"
  by (rule ext) (auto simp: pool_index_def pool_alloc_def)

lemma pool_inv_alloc:
  assumes i: "pool_inv p" and h: "h \<noteq> []" "byHost p h = None"
  shows "pool_inv (pool_alloc p h)"
proof -
  have n: "unat (pool_next p) < fakeIPCapacity"
    using pool_next_less [OF i] i by (simp add: pool_inv_def)
  have "pool_index p h = None" using h by (simp add: pool_index_def)
  with i h n have "ring_index [] (pool_index (pool_alloc p h)) (byIdx (pool_alloc p h))"
    unfolding pool_index_alloc [OF h(2)]
    by (auto simp: pool_inv_def pool_alloc_def dest: ring_index_put split: if_splits)
  moreover have "ring_wf [] (unat (pool_next (pool_alloc p h))) (byIdx (pool_alloc p h))"
    using i h ring_put_wf [of "[]" "unat (pool_next p)" "byIdx p" h] n
    by (simp add: pool_inv_def pool_alloc_def unat_pool_next_step)
  ultimately show ?thesis using i by (simp add: pool_inv_def pool_alloc_def)
qed

lemma pool_inv_assign [inv_intros]:
  assumes "pool_inv p" and "h \<noteq> []" and "pool_assign p h = Some (a, p')"
  shows "pool_inv p'"
  using assms pool_inv_alloc [of p h] by (auto simp: pool_assign_cases split: option.splits)

lemma pool_names_alloc:
  assumes i: "pool_inv p" and h: "h \<noteq> []"
  shows "pool_names (pool_alloc p h) = fifo_push fakeIPCapacity h (pool_names p)"
proof -
  have n: "unat (pool_next p) < fakeIPCapacity"
    using pool_next_less [OF i] i by (simp add: pool_inv_def)
  with i h ring_put_abs [of "[]" "unat (pool_next p)" "byIdx p" h] show ?thesis
    by (simp add: pool_inv_def pool_names_def pool_alloc_def unat_pool_next_step)
qed

lemma pool_names_iff:
  assumes "pool_inv p" and "h \<noteq> []"
  shows "byHost p h \<noteq> None \<longleftrightarrow> h \<in> set (pool_names p)"
  using assms ring_index_mem [of "[]" "pool_index p" "byIdx p" h]
  by (simp add: pool_inv_def pool_names_def ring_abs_set pool_index_def)

interpretation fake: fifo_memory pool_inv pool_names pool_insert "\<lambda>p h. byHost p h \<noteq> None"
  "\<lambda>_. fakeIPCapacity" "\<lambda>h. h \<noteq> []"
proof (standard, goal_cases)
  case (1 s k)
  then show ?case
    using pool_inv_alloc [of s k] by (auto simp: pool_insert_def pool_assign_cases split: option.splits)
next
  case (2 s k)
  then show ?case
    using pool_names_iff [of s k]
    by (auto simp: pool_insert_def pool_assign_cases fifo_insert_def pool_names_alloc split: option.splits)
next
  case (4 s k)
  then show ?case by (rule pool_names_iff)
next
  case (5 s)
  then show ?case using length_ring_abs by (metis pool_inv_def pool_names_def)
qed simp

subsection \<open>Addresses and names\<close>

lemma pool_addr_conv: "pool_addr p i = Addr4 (base p + i)"
  by (simp add: pool_addr_def AddrFrom4_As4 del: be_bytes.simps)

lemma pool_index_bound:
  assumes "pool_inv p" and "byHost p h = Some i"
  shows "unat i < fakeIPCapacity \<and> byIdx p ! unat i = h \<and> h \<noteq> []"
proof -
  have "pool_index p h = Some (unat i)" using assms(2) by (simp add: pool_index_def)
  with assms(1) show ?thesis by (simp add: pool_inv_def ring_index_def)
qed

lemma fake_base_offset:
  assumes "unat i < fakeIPCapacity"
  shows "unat (0xC6120002 + i :: u32) = 0xC6120002 + unat i"
  using assms by (subst unat_add_small) (simp_all add: fakeIPCapacity_def)

lemma pool_host_addr:
  assumes p: "pool_inv p" and i: "unat i < fakeIPCapacity"
  shows "pool_host p (pool_addr p i) =
           (if byIdx p ! unat i = [] then None else Some (byIdx p ! unat i))"
proof -
  have b: "base p = 0xC6120002" and l: "length (byIdx p) = fakeIPCapacity"
    using p by (simp_all add: pool_inv_def)
  have "\<not> base p + i < base p"
    using fake_base_offset [OF i] by (simp add: b word_less_nat_alt)
  moreover have "\<not> of_nat fakeIPCapacity \<le> base p + i - base p"
    using i by (simp add: word_le_nat_alt fakeIPCapacity_def)
  ultimately show ?thesis
    using i l by (simp add: pool_host_def pool_addr_conv As4_Addr4 be_nat_word32 Let_def
                       del: be_bytes.simps)
qed

lemma pool_host_Some:
  assumes p: "pool_inv p" and h: "pool_host p a = Some h"
  shows "\<exists>i. byHost p h = Some i \<and> a = pool_addr p i"
proof -
  from h obtain w where w: "a = Addr4 w" by (auto simp: pool_host_def Is4_conv split: if_splits)
  let ?i = "w - base p"
  from h w have b: "unat ?i < length (byIdx p)" and x: "byIdx p ! unat ?i = h" and n: "h \<noteq> []"
    by (auto simp: pool_host_def As4_Addr4 be_nat_word32 Let_def simp del: be_bytes.simps
             split: if_splits)
  from p b x n have "pool_index p h = Some (unat ?i)"
    by (auto simp: pool_inv_def ring_index_def)
  then have "byHost p h = Some ?i" by (auto simp: pool_index_def word_unat_eq_iff)
  moreover have "a = pool_addr p ?i" by (simp add: w pool_addr_conv)
  ultimately show ?thesis by blast
qed

lemma pool_host_iff:
  assumes "pool_inv p"
  shows "pool_host p a = Some h \<longleftrightarrow> (\<exists>i. byHost p h = Some i \<and> a = pool_addr p i)"
proof
  assume "\<exists>i. byHost p h = Some i \<and> a = pool_addr p i"
  then obtain i where i: "byHost p h = Some i" "a = pool_addr p i" by blast
  with pool_index_bound [OF assms i(1)] show "pool_host p a = Some h"
    by (simp add: pool_host_addr [OF assms])
qed (rule pool_host_Some [OF assms])

lemma fake_prefix_top: "drop_bit 17 (0xC6120000 :: u32) = 0x6309"
  by (simp add: drop_bit_eq_div)

lemma pool_addr_in_prefix:
  assumes "pool_inv p" and "unat i < fakeIPCapacity"
  shows "PContains fakeIPPrefix (pool_addr p i)"
proof -
  have b: "base p = 0xC6120002" using assms(1) by (simp add: pool_inv_def)
  have "unat (drop_bit 17 (0xC6120002 + i)) = (0xC6120002 + unat i) div 2 ^ 17"
    unfolding unat_drop_bit_eq fake_base_offset [OF assms(2)] by (rule drop_bit_eq_div)
  also have "\<dots> = 0x6309" using assms(2) by (simp add: fakeIPCapacity_def)
  finally have "drop_bit 17 (0xC6120002 + i) = (0x6309 :: u32)"
    by (simp add: word_unat_eq_iff)
  then show ?thesis
    by (simp add: PContains_def fakeIPPrefix_def pool_addr_conv b fake_prefix_top)
qed

lemma byHost_assign:
  assumes "pool_inv p" and "pool_assign p h = Some (a, p')"
  shows "\<exists>i. byHost p' h = Some i \<and> a = pool_addr p' i"
  using assms by (auto simp: pool_assign_cases pool_alloc_def pool_addr_def split: option.splits)

lemma pool_assign_ok:
  assumes "pool_inv p" and "h \<noteq> []"
  obtains a p' where "pool_assign p h = Some (a, p')" "pool_inv p'" "pool_host p' a = Some h"
    "PContains fakeIPPrefix a"
proof -
  obtain a p' where ap: "pool_assign p h = Some (a, p')"
    using assms(1) by (cases "byHost p h") (auto simp: pool_assign_cases)
  have i': "pool_inv p'" using assms ap by (rule pool_inv_assign)
  obtain i where i: "byHost p' h = Some i" "a = pool_addr p' i"
    using byHost_assign [OF assms(1) ap] by blast
  from i i' have "pool_host p' a = Some h" by (auto simp: pool_host_iff)
  moreover have "PContains fakeIPPrefix a"
    using pool_addr_in_prefix [OF i'] pool_index_bound [OF i' i(1)] i(2) by blast
  ultimately show thesis using ap i' that by blast
qed

subsection \<open>Recent answers\<close>

lemma recent_inv_new [inv_intros]: "0 < n \<Longrightarrow> recent_inv (newRecentIPs n)"
  by (auto simp: recent_inv_def newRecentIPs_def ring_wf_empty ring_index_def)

lemma recent_ips_new [simp]: "recent_ips (newRecentIPs n) = []"
  by (simp add: recent_ips_def newRecentIPs_def)

definition recent_put :: "recentIPs \<Rightarrow> addr \<Rightarrow> recentIPs" where
  "recent_put l ip =
     l\<lparr> rorder := (rorder l)[rnext l := ip],
        rset := (if rorder l ! rnext l \<noteq> AddrNone
                 then (rset l)(rorder l ! rnext l := None) else rset l)(ip \<mapsto> rnext l),
        rnext := Suc (rnext l) mod rcap l \<rparr>"

lemma recent_add_cases:
  assumes "recent_inv l"
  shows "recent_add l ip =
    Some (if rset l (Unmap ip) \<noteq> None then l else recent_put l (Unmap ip))"
  using assms by (auto simp: recent_add_def recent_put_def recent_inv_def ring_wf_def IsValid_def Let_def)

lemma recent_inv_put:
  assumes l: "recent_inv l" and ip: "IsValid ip" "Unmap ip = ip" "rset l ip = None"
  shows "recent_inv (recent_put l ip)"
proof -
  have n: "rnext l < length (rorder l)" using l by (simp add: recent_inv_def ring_wf_def)
  have "ring_index AddrNone (rset (recent_put l ip)) (rorder (recent_put l ip))"
    using ring_index_put [of AddrNone "rset l" "rorder l" "rnext l" ip] n l ip
    by (simp add: recent_put_def recent_inv_def IsValid_def)
  moreover have "ring_wf AddrNone (rnext (recent_put l ip)) (rorder (recent_put l ip))"
    using ring_put_wf [of AddrNone "rnext l" "rorder l" ip] l ip
    by (simp add: recent_put_def recent_inv_def IsValid_def)
  moreover have "\<forall>x \<in> set (rorder (recent_put l ip)). Unmap x = x"
    using l ip set_update_subset_insert [of "rorder l" "rnext l" ip]
    by (auto simp: recent_put_def recent_inv_def)
  ultimately show ?thesis using l by (simp add: recent_inv_def recent_put_def)
qed

lemma recent_ips_iff:
  assumes "recent_inv l" and "IsValid ip"
  shows "recent_contains l ip \<longleftrightarrow> Unmap ip \<in> set (recent_ips l)"
proof -
  have "Unmap ip \<noteq> AddrNone" using assms(2) IsValid_Unmap [of ip] by (simp add: IsValid_def)
  with assms(1) ring_index_mem [of AddrNone "rset l" "rorder l" "Unmap ip"] show ?thesis
    by (simp add: recent_inv_def recent_ips_def ring_abs_set recent_contains_def)
qed

lemma recent_inv_add [inv_intros]:
  assumes "recent_inv l" and "IsValid ip" and "recent_add l ip = Some l'"
  shows "recent_inv l'"
  using assms recent_inv_put [of l "Unmap ip"]
  by (auto simp: recent_add_cases split: if_splits)

interpretation recent: fifo_memory recent_inv recent_ips recent_insert recent_contains
  rcap "\<lambda>ip. IsValid ip \<and> Unmap ip = ip"
proof (standard, goal_cases)
  case (1 s k)
  then show ?case
    using recent_inv_put [of s k] by (auto simp: recent_insert_def recent_add_cases)
next
  case (2 s k)
  have "recent_ips (recent_put s k) = fifo_push (rcap s) k (recent_ips s)"
    using ring_put_abs [of AddrNone "rnext s" "rorder s" k] 2
    by (simp add: recent_ips_def recent_put_def recent_inv_def IsValid_def)
  with 2 recent_ips_iff [of s k] show ?case
    by (auto simp: recent_insert_def recent_add_cases fifo_insert_def recent_contains_def)
next
  case (3 s k)
  then show ?case by (simp add: recent_insert_def recent_add_cases recent_put_def)
next
  case (4 s k)
  then show ?case using recent_ips_iff [of s k] by simp
next
  case (5 s)
  then show ?case using length_ring_abs by (metis recent_inv_def recent_ips_def)
qed

lemma recent_insert_Unmap: "recent_insert l ip = recent_insert l (Unmap ip)"
  by (simp add: recent_insert_def recent_add_def)

lemma recent_inserts_Unmap: "foldl recent_insert l ips = foldl recent_insert l (map Unmap ips)"
  by (induction ips arbitrary: l) (auto simp: recent_insert_Unmap [symmetric])

lemma recent_add_insert: "recent_inv l \<Longrightarrow> recent_add l ip = Some (recent_insert l ip)"
  by (simp add: recent_insert_def recent_add_cases)

lemma pool_assign_insert:
  "pool_inv p \<Longrightarrow> \<exists>a. pool_assign p h = Some (a, pool_insert p h)"
  by (auto simp: pool_insert_def pool_assign_cases split: option.splits)

lemma pool_run_insert:
  "pool_inv p \<Longrightarrow> list_all (\<lambda>h. h \<noteq> []) hs \<Longrightarrow> pool_run p hs = Some (foldl pool_insert p hs)"
proof (induction hs arbitrary: p)
  case (Cons h hs)
  obtain a where "pool_assign p h = Some (a, pool_insert p h)"
    using pool_assign_insert [OF Cons.prems(1)] by blast
  with Cons fake.inv_insert [of p h] show ?case by simp
qed simp

lemma recent_run_insert:
  "recent_inv l \<Longrightarrow> list_all IsValid ips \<Longrightarrow> recent_run l ips = Some (foldl recent_insert l ips)"
proof (induction ips arbitrary: l)
  case (Cons ip ips)
  with recent_inv_add [OF Cons.prems(1) _ recent_add_insert] show ?case
    by (simp add: recent_add_insert)
qed simp

lemma byHost_stays:
  assumes p: "pool_inv p" and h: "byHost p h = Some i" and s: "byHost (pool_insert p k) h \<noteq> None"
  shows "byHost (pool_insert p k) h = Some i"
proof (cases "byHost p k")
  case None
  then have "k \<noteq> h" using h by auto
  with None p h s show ?thesis
    by (auto simp: pool_insert_def pool_assign_cases pool_alloc_def split: if_splits)
qed (use p h in \<open>simp add: pool_insert_def pool_assign_cases\<close>)

lemma fresh_address_stays:
  assumes p: "pool_inv p" and h: "h \<noteq> []" "byHost p h = None"
    and ks: "list_all (\<lambda>h. h \<noteq> []) ks" and n: "length ks < fakeIPCapacity"
    and i: "byHost (pool_insert p h) h = Some i"
  shows "byHost (foldl pool_insert (pool_insert p h) ks) h = Some i"
  using ks n
proof (induction ks rule: rev_induct)
  case (snoc k ks)
  let ?q = "foldl pool_insert (pool_insert p h) ks"
  from snoc have IH: "byHost ?q h = Some i" by simp
  have "pool_inv ?q" using snoc.prems p h by (intro fake.inv_inserts fake.inv_insert) auto
  moreover have "byHost (pool_insert ?q k) h \<noteq> None"
    using fake.retained [OF p h(1) _ snoc.prems(1)] h snoc.prems(2) by simp
  ultimately show ?case using byHost_stays IH by simp
qed (use i in simp)

lemma pool_names_inserts:
  assumes "pool_inv p" and "list_all (\<lambda>h. h \<noteq> []) hs"
  shows "pool_names (foldl pool_insert p hs) =
           foldl (\<lambda>q h. fifo_insert fakeIPCapacity h q) (pool_names p) hs"
  using assms
proof (induction hs arbitrary: p)
  case (Cons h hs)
  then show ?case by (simp add: fake.inv_insert fake.contents_insert)
qed simp

lemma recent_ips_inserts:
  assumes "recent_inv l" and "list_all IsValid ips"
  shows "recent_ips (foldl recent_insert l ips) =
           foldl (\<lambda>q ip. fifo_insert (rcap l) ip q) (recent_ips l) (map Unmap ips)"
  using assms
proof (induction ips arbitrary: l)
  case (Cons ip ips)
  have v: "IsValid (Unmap ip) \<and> Unmap (Unmap ip) = Unmap ip" using Cons.prems by simp
  have "recent_inv (recent_insert l ip)"
    using recent.inv_insert [OF Cons.prems(1) v] recent_insert_Unmap [of l ip] by simp
  with Cons v show ?case
    using recent_insert_Unmap [of l ip] by (simp add: recent.contents_insert recent.capacity_insert)
qed simp

lemma pool_retained:
  assumes p: "pool_inv p" and h: "h \<noteq> []" and new: "\<forall>a. pool_host p a \<noteq> Some h"
    and a: "pool_assign p h = Some (a, p1)" and ks: "list_all (\<lambda>h. h \<noteq> []) ks" "length ks < fakeIPCapacity"
  shows "\<exists>p2. pool_run p1 ks = Some p2 \<and> pool_inv p2 \<and> pool_host p2 a = Some h"
proof -
  have new: "byHost p h = None" using new pool_host_iff [OF p] by (metis not_None_eq)
  have p1: "p1 = pool_insert p h" using a by (simp add: pool_insert_def)
  have inv1: "pool_inv p1" unfolding p1 using p h by (rule fake.inv_insert)
  obtain i where i: "byHost p1 h = Some i" "a = pool_addr p1 i" using byHost_assign [OF p a] by blast
  let ?p2 = "foldl pool_insert p1 ks"
  have inv2: "pool_inv ?p2" using fake.inv_inserts [OF inv1 ks(1)] .
  have "byHost ?p2 h = Some i"
    using fresh_address_stays [OF p h new ks] i(1) p1 by simp
  moreover have "a = pool_addr ?p2 i" using i(2) inv1 inv2 by (simp add: pool_addr_def pool_inv_def)
  ultimately show ?thesis using pool_run_insert [OF inv1 ks(1)] inv2 by (auto simp: pool_host_iff)
qed

subsection \<open>Properties\<close>

text \<open>
  C22: whatever names were assigned before, \<open>assign\<close> does not panic on a non-empty name; the
  address it returns lies in \<open>fakeIPPrefix\<close>, \<open>host\<close> maps it back to the name, no other
  address maps to that name, and asking again returns the same address and changes nothing.
\<close>

theorem pool_assign_lookup:
  assumes "list_all (\<lambda>h. h \<noteq> []) hs" and "h \<noteq> []"
  shows "\<exists>p a p'. pool_run newFakeIPPool hs = Some p \<and> pool_assign p h = Some (a, p') \<and>
           PContains fakeIPPrefix a \<and> pool_host p' a = Some h \<and>
           (\<forall>b. pool_host p' b = Some h \<longrightarrow> b = a) \<and> pool_assign p' h = Some (a, p')"
proof -
  let ?p = "foldl pool_insert newFakeIPPool hs"
  have p: "pool_inv ?p" using fake.inv_inserts [OF pool_inv_new assms(1)] .
  obtain a p' where a: "pool_assign ?p h = Some (a, p')" "pool_inv p'" "pool_host p' a = Some h"
    "PContains fakeIPPrefix a" using pool_assign_ok [OF p assms(2)] .
  obtain i where "byHost p' h = Some i" "a = pool_addr p' i" using byHost_assign [OF p a(1)] by blast
  with a have "pool_assign p' h = Some (a, p')" "\<forall>b. pool_host p' b = Some h \<longrightarrow> b = a"
    by (auto simp: pool_assign_cases pool_host_iff)
  with a show ?thesis using pool_run_insert [OF pool_inv_new assms(1)] by blast
qed

theorem pool_assign_lookup_witness:
  "\<exists>p a p'. pool_run newFakeIPPool [''db.internal'', ''web.internal''] = Some p \<and>
     pool_assign p ''db.internal'' = Some (a, p') \<and> pool_host p' a = Some ''db.internal''"
  using pool_assign_lookup [of "[''db.internal'', ''web.internal'']" "''db.internal''"] by auto

text \<open>
  an address given to a new name keeps denoting that name through the next 8191 calls of
  \<open>assign\<close>, whatever names they are for: only the wrap-around of the ring takes it away.
\<close>

theorem pool_address_retained:
  assumes "list_all (\<lambda>h. h \<noteq> []) (h # hs @ ks)"
    and "pool_run newFakeIPPool hs = Some p" and "\<forall>a. pool_host p a \<noteq> Some h"
    and "pool_assign p h = Some (a, p1)" and "length ks < fakeIPCapacity"
  shows "\<exists>p2. pool_run p1 ks = Some p2 \<and> pool_host p2 a = Some h"
proof -
  have ne: "h \<noteq> []" "list_all (\<lambda>h. h \<noteq> []) hs" "list_all (\<lambda>h. h \<noteq> []) ks" using assms(1) by auto
  have p: "pool_inv p"
    using assms(2) pool_run_insert [OF pool_inv_new ne(2)] fake.inv_inserts [OF pool_inv_new ne(2)]
    by simp
  from pool_retained [OF p ne(1) assms(3,4) ne(3) assms(5)] show ?thesis by blast
qed

lemma pool_host_new: "pool_host newFakeIPPool a = None"
proof (rule ccontr)
  assume "pool_host newFakeIPPool a \<noteq> None"
  then obtain h where "pool_host newFakeIPPool a = Some h" by blast
  then show False using pool_host_iff [OF pool_inv_new] by (auto simp: newFakeIPPool_def)
qed

theorem pool_address_retained_witness:
  "\<exists>a p1 p2. pool_assign newFakeIPPool ''db'' = Some (a, p1) \<and>
     pool_run p1 (replicate 8191 ''web'') = Some p2 \<and> pool_host p2 a = Some ''db''"
proof -
  obtain a p1 where a: "pool_assign newFakeIPPool ''db'' = Some (a, p1)"
    using pool_assign_insert [OF pool_inv_new] by blast
  have "list_all (\<lambda>h. h \<noteq> []) (''db'' # [] @ replicate n ''web'')" for n by (simp add: list_all_iff)
  from pool_address_retained [OF this _ _ a, of 8191] show ?thesis
    using a by (auto simp: pool_host_new fakeIPCapacity_def)
qed

text \<open>
  C27: the recent-answer memory of capacity \<open>n\<close> holds exactly what a first-in-first-out
  queue of the last \<open>n\<close> distinct (unmapped) addresses holds, and adding never panics.
\<close>

theorem recentIPs_refines_fifo:
  assumes "0 < n" and "list_all IsValid ips" and "IsValid ip"
  shows "\<exists>l. recent_run (newRecentIPs n) ips = Some l \<and>
           (recent_contains l ip \<longleftrightarrow>
              Unmap ip \<in> set (foldl (\<lambda>q a. fifo_insert n a q) [] (map Unmap ips)))"
proof -
  have new: "recent_inv (newRecentIPs n)" using assms(1) by (rule recent_inv_new)
  let ?l = "foldl recent_insert (newRecentIPs n) ips"
  have "recent_inv (foldl recent_insert (newRecentIPs n) (map Unmap ips))"
    using assms(2) by (intro recent.inv_inserts new) (auto simp: list_all_iff)
  then have "recent_inv ?l" using recent_inserts_Unmap by metis
  then show ?thesis
    using recent_run_insert [OF new assms(2)] recent_ips_inserts [OF new assms(2)] assms(3)
    by (simp add: recent_ips_iff) (simp add: newRecentIPs_def)
qed

theorem recentIPs_refines_fifo_witness:
  "\<exists>l. recent_run (newRecentIPs 2) [Addr4 1, Addr4 2, Addr4 1, Addr4 3] = Some l \<and>
       \<not> recent_contains l (Addr4 1)"
  using recentIPs_refines_fifo [of 2 "[Addr4 1, Addr4 2, Addr4 1, Addr4 3]" "Addr4 1"]
  by (auto simp: fifo_insert_def fifo_push_def)

end
