(* ===== verification/Routing.thy ===== *)
theory Routing
  imports HostMatch FakeIP
begin

text \<open>
  \<open>vpntunnel/routing.go\<close>: the compiled routing rules of the tunnel, the verdict for a
  name or an address, and the prefixes and DNS domains derived from them for the
  operating system. A nil table is \<^const>\<open>None\<close>.
\<close>

subsection \<open>Definitions\<close>

datatype routeAction = routeNone | routeSSH | routeDirect

record routingRuleJSON =
  rPattern :: string
  rAction :: string

record routingConfigJSON =
  SendAllViaSSH :: bool
  Rules :: "routingRuleJSON list"

record routingRule =
  action :: routeAction
  prefix :: pfx
  domain :: string
  rglob :: string

record routeTable =
  trules :: "routingRule list"
  sendAllViaSSH :: bool
  sshEnabled :: bool

text \<open>One iteration of the loop of \<open>compileRouteTable\<close>; \<^const>\<open>None\<close> is \<open>continue\<close>.\<close>

definition compileRule :: "routingRuleJSON \<Rightarrow> routingRule option" where
  "compileRule raw =
     (let act = ToLower (TrimSpace (rAction raw)) in
      case (if act = ''ssh'' then Some routeSSH
            else if act = ''direct'' then Some routeDirect else None) of
        None \<Rightarrow> None
      | Some a \<Rightarrow>
          let s = TrimSuffix (ToLower (TrimSpace (rPattern raw))) ''.'';
              r = \<lparr> action = a, prefix = zero_pfx, domain = [], rglob = [] \<rparr>
          in if s = [] \<or> HasPrefix s ''#'' then None
             else Some
               (case ParsePrefix s of
                  Some p \<Rightarrow> r\<lparr>prefix := Masked p\<rparr>
                | None \<Rightarrow>
                    (case ParseAddr (Trim s ''[]'') of
                       Some ip \<Rightarrow> r\<lparr>prefix := PrefixFrom ip (BitLen ip)\<rparr>
                     | None \<Rightarrow>
                         if ContainsAny s ''*?'' then r\<lparr>rglob := s\<rparr> else r\<lparr>domain := s\<rparr>)))"

definition compileRouteTable :: "routingConfigJSON \<Rightarrow> bool \<Rightarrow> routeTable" where
  "compileRouteTable cfg ssh =
     \<lparr> trules = List.map_filter compileRule (Rules cfg),
       sendAllViaSSH = (SendAllViaSSH cfg \<and> ssh),
       sshEnabled = ssh \<rparr>"

definition isHostRule :: "routingRule \<Rightarrow> bool" where
  "isHostRule r \<longleftrightarrow> domain r \<noteq> [] \<or> rglob r \<noteq> []"

definition rule_matchHost :: "routingRule \<Rightarrow> string \<Rightarrow> bool" where
  "rule_matchHost r host =
     (if domain r \<noteq> [] then host = domain r \<or> HasSuffix host (''.'' @ domain r)
      else rglob r \<noteq> [] \<and> globMatch (rglob r) host)"

definition effective :: "routeTable \<Rightarrow> routeAction \<Rightarrow> routeAction" where
  "effective t a = (if a = routeSSH \<and> \<not> sshEnabled t then routeNone else a)"

definition matchHost :: "routeTable option \<Rightarrow> string \<Rightarrow> routeAction" where
  "matchHost t0 host0 =
     (case t0 of
        None \<Rightarrow> routeNone
      | Some t \<Rightarrow>
          if host0 = [] then routeNone
          else let host = TrimSuffix (ToLower host0) ''.'' in
            case find (\<lambda>r. isHostRule r \<and> rule_matchHost r host) (trules t) of
              Some r \<Rightarrow> effective t (action r)
            | None \<Rightarrow> routeNone)"

definition matchIP :: "routeTable option \<Rightarrow> addr \<Rightarrow> routeAction" where
  "matchIP t0 ip0 =
     (case t0 of
        None \<Rightarrow> routeNone
      | Some t \<Rightarrow>
          if \<not> IsValid ip0 then routeNone
          else let ip = Unmap ip0 in
            case find (\<lambda>r. pfx_valid (prefix r) \<and> PContains (prefix r) ip) (trules t) of
              Some r \<Rightarrow> effective t (action r)
            | None \<Rightarrow> routeNone)"

definition prefixes :: "routeTable option \<Rightarrow> routeAction \<Rightarrow> pfx list" where
  "prefixes t0 a =
     (case t0 of
        None \<Rightarrow> []
      | Some t \<Rightarrow>
          map prefix (filter (\<lambda>r. pfx_valid (prefix r) \<and> effective t (action r) = a) (trules t)))"

text \<open>The loop of \<open>directExclusions\<close>: the SSH prefixes seen so far and the output.\<close>

fun exclusion_loop :: "routeTable \<Rightarrow> routingRule list \<Rightarrow> pfx list \<Rightarrow> pfx list \<Rightarrow> pfx list" where
  "exclusion_loop t [] ssh out = out"
| "exclusion_loop t (r # rs) ssh out =
     (if \<not> pfx_valid (prefix r) then exclusion_loop t rs ssh out
      else case effective t (action r) of
        routeSSH \<Rightarrow> exclusion_loop t rs (ssh @ [prefix r]) out
      | routeDirect \<Rightarrow>
          if \<not> Overlaps (prefix r) fakeIPPrefix \<and> \<not> list_ex (Overlaps (prefix r)) ssh
          then exclusion_loop t rs ssh (out @ [prefix r])
          else exclusion_loop t rs ssh out
      | routeNone \<Rightarrow> exclusion_loop t rs ssh out)"

definition directExclusions :: "routeTable option \<Rightarrow> pfx list" where
  "directExclusions t0 =
     (case t0 of None \<Rightarrow> [] | Some t \<Rightarrow> exclusion_loop t (trules t) [] [])"

text \<open>
  \<open>strings.LastIndexAny\<close> returns -1 when nothing is found, and then the tail is the whole
  pattern.
\<close>

definition globSuffix :: "string \<Rightarrow> string" where
  "globSuffix g =
     (let tail = (case LastIndexAny g ''*?'' of Some i \<Rightarrow> drop (i + 1) g | None \<Rightarrow> g)
      in case IndexByte tail CHR ''.'' of
           Some j \<Rightarrow> Trim (drop j tail) ''.''
         | None \<Rightarrow> [])"

fun domains_loop :: "routeTable \<Rightarrow> routeAction \<Rightarrow> routingRule list \<Rightarrow> string list \<Rightarrow> string list" where
  "domains_loop t a [] out = out"
| "domains_loop t a (r # rs) out =
     (if \<not> isHostRule r \<or> effective t (action r) \<noteq> a then domains_loop t a rs out
      else let d = (if domain r \<noteq> [] then domain r else globSuffix (rglob r))
           in domains_loop t a rs (if d \<in> set out then out else out @ [d]))"

definition dnsDomains :: "routeTable option \<Rightarrow> routeAction \<Rightarrow> string list" where
  "dnsDomains t0 a = (case t0 of None \<Rightarrow> [] | Some t \<Rightarrow> domains_loop t a (trules t) [])"

subsection \<open>Compiled rules\<close>

text \<open>A compiled rule is of exactly one kind, its prefix is canonical and its name lower case.\<close>

definition rule_wf :: "routingRule \<Rightarrow> bool" where
  "rule_wf r \<longleftrightarrow>
     pfx_wf (prefix r) \<and> action r \<noteq> routeNone \<and>
     (pfx_valid (prefix r) \<longleftrightarrow> \<not> isHostRule r) \<and> (domain r = [] \<or> rglob r = [])"

definition table_wf :: "routeTable \<Rightarrow> bool" where
  "table_wf t \<longleftrightarrow> list_all rule_wf (trules t) \<and> (sendAllViaSSH t \<longrightarrow> sshEnabled t)"

lemma PrefixFrom_full: "IsValid ip \<Longrightarrow> pfx_valid (PrefixFrom ip (BitLen ip))"
  by (simp add: PrefixFrom_def pfx_valid_def)

lemma Masked_valid: "ParsePrefix s = Some p \<Longrightarrow> pfx_valid (Masked p)"
  by (auto simp: ParsePrefix_def Masked_def PrefixFrom_def pfx_valid_def Let_def
           split: option.splits if_splits dest: ParseAddr_valid)

lemma rule_wf_compileRule: "compileRule raw = Some r \<Longrightarrow> rule_wf r"
proof -
  have z: "\<not> pfx_valid zero_pfx" by (simp add: pfx_valid_def zero_pfx_def)
  assume "compileRule raw = Some r"
  then show ?thesis
    by (auto simp: compileRule_def Let_def rule_wf_def isHostRule_def z Masked_valid PrefixFrom_full
             split: option.splits if_splits dest: ParseAddr_valid)
qed

lemma table_wf_compile: "table_wf (compileRouteTable cfg ssh)"
  by (auto simp: table_wf_def compileRouteTable_def list_all_iff List.map_filter_def
           intro: rule_wf_compileRule)

subsection \<open>Verdicts\<close>

lemma effective_cases:
  "effective t a = routeSSH \<longleftrightarrow> a = routeSSH \<and> sshEnabled t"
  "effective t a = routeDirect \<longleftrightarrow> a = routeDirect"
  "effective t a = routeNone \<longleftrightarrow> a = routeNone \<or> a = routeSSH \<and> \<not> sshEnabled t"
  by (auto simp: effective_def)

lemma matchIP_cases:
  assumes "matchIP (Some t) ip = a" and "a \<noteq> routeNone"
  obtains r where "r \<in> set (trules t)" "pfx_valid (prefix r)" "PContains (prefix r) (Unmap ip)"
    "effective t (action r) = a"
  using assms
  by (auto simp: matchIP_def Let_def split: if_splits option.splits dest!: find_Some_first)

lemma matchHost_cases:
  assumes "matchHost (Some t) host = a" and "a \<noteq> routeNone"
  obtains r where "r \<in> set (trules t)" "isHostRule r"
    "rule_matchHost r (TrimSuffix (ToLower host) ''.'')" "effective t (action r) = a"
  using assms
  by (auto simp: matchHost_def Let_def split: if_splits option.splits dest!: find_Some_first)

text \<open>
  An address of an excluded prefix is outside the fake range and outside every SSH prefix
  seen before, and the first rule that contains it does not send it over SSH.
\<close>

definition not_ssh_first :: "routeTable \<Rightarrow> routingRule list \<Rightarrow> addr \<Rightarrow> bool" where
  "not_ssh_first t rs ip =
     (case find (\<lambda>r. pfx_valid (prefix r) \<and> PContains (prefix r) ip) rs of
        None \<Rightarrow> False
      | Some r \<Rightarrow> effective t (action r) \<noteq> routeSSH)"

lemma not_ssh_first_Cons:
  "not_ssh_first t (r # rs) ip =
     (if pfx_valid (prefix r) \<and> PContains (prefix r) ip then effective t (action r) \<noteq> routeSSH
      else not_ssh_first t rs ip)"
  by (simp add: not_ssh_first_def)

lemma exclusion_loop_sound:
  assumes "p \<in> set (exclusion_loop t rs ssh out)" and "p \<notin> set out" and "PContains p ip"
    and "list_all rule_wf rs" and "list_all pfx_wf ssh"
  shows "\<not> PContains fakeIPPrefix ip \<and> list_all (\<lambda>q. \<not> PContains q ip) ssh \<and> not_ssh_first t rs ip"
  using assms
proof (induction t rs ssh out rule: exclusion_loop.induct)
  case (2 t r rs ssh out)
  have wf: "pfx_wf (prefix r)" using "2.prems"(4) by (simp add: rule_wf_def)
  have fake: "pfx_wf fakeIPPrefix" by (simp add: pfx_wf_def fakeIPPrefix_def)
  consider (bad) "\<not> pfx_valid (prefix r)" | (non) "pfx_valid (prefix r)" "effective t (action r) = routeNone"
    | (ssh) "pfx_valid (prefix r)" "effective t (action r) = routeSSH"
    | (direct) "pfx_valid (prefix r)" "effective t (action r) = routeDirect"
    by (cases "effective t (action r)") auto
  then show ?case
  proof cases
    case bad
    with 2 show ?thesis by (simp add: not_ssh_first_Cons)
  next
    case non
    with 2 show ?thesis by (simp add: not_ssh_first_Cons)
  next
    case ssh
    with 2 wf show ?thesis by (simp add: not_ssh_first_Cons)
  next
    case direct
    let ?ok = "\<not> Overlaps (prefix r) fakeIPPrefix \<and> \<not> list_ex (Overlaps (prefix r)) ssh"
    show ?thesis
    proof (cases "?ok \<and> p = prefix r")
      case True
      have "\<not> PContains q ip" if "pfx_wf q" "\<not> Overlaps (prefix r) q" for q
        using Overlaps_if_common [OF wf that(1)] that(2) "2.prems"(3) True by blast
      with True fake "2.prems"(3,5) direct show ?thesis
        by (auto simp: not_ssh_first_Cons list_ex_iff list_all_iff)
    next
      case False
      then have "\<not> PContains fakeIPPrefix ip \<and> list_all (\<lambda>q. \<not> PContains q ip) ssh \<and> not_ssh_first t rs ip"
        using 2 direct by (cases ?ok) auto
      with direct show ?thesis by (simp add: not_ssh_first_Cons)
    qed
  qed
qed simp

lemma exclusion_verdict:
  assumes "table_wf t" and "p \<in> set (directExclusions (Some t))" and "PContains p (Unmap ip)"
  shows "\<not> PContains fakeIPPrefix (Unmap ip) \<and> matchIP (Some t) ip \<noteq> routeSSH \<and>
         (sshEnabled t \<longrightarrow> matchIP (Some t) ip = routeDirect)"
proof -
  have wf: "list_all rule_wf (trules t)" using assms(1) by (simp add: table_wf_def)
  have s: "\<not> PContains fakeIPPrefix (Unmap ip) \<and> not_ssh_first t (trules t) (Unmap ip)"
    using exclusion_loop_sound [of p t "trules t" "[]" "[]" "Unmap ip"] assms(2,3) wf
    by (simp add: directExclusions_def)
  then obtain r where r: "find (\<lambda>r. pfx_valid (prefix r) \<and> PContains (prefix r) (Unmap ip)) (trules t) = Some r"
    "effective t (action r) \<noteq> routeSSH"
    by (auto simp: not_ssh_first_def split: option.splits)
  have "IsValid (Unmap ip)"
    using assms(3) by (cases "Unmap ip") (auto simp: PContains_def split: option.splits addr.splits)
  then have m: "matchIP (Some t) ip = effective t (action r)" using r by (simp add: matchIP_def)
  have "rule_wf r" using find_Some_first [OF r(1)] wf by (simp add: list_all_iff)
  then have "action r \<noteq> routeNone" by (simp add: rule_wf_def)
  then have "sshEnabled t \<longrightarrow> effective t (action r) = routeDirect"
    using r(2) by (cases "action r") (auto simp: effective_def)
  with s m r(2) show ?thesis by metis
qed

lemma exclusion_loop_prefixes:
  "set (exclusion_loop t rs ssh out) \<subseteq> set out \<union> prefix ` set rs"
  by (induction t rs ssh out rule: exclusion_loop.induct) (auto split: routeAction.splits if_splits)

lemma exclusion_wf: "table_wf t \<Longrightarrow> p \<in> set (directExclusions (Some t)) \<Longrightarrow> pfx_wf p"
  using exclusion_loop_prefixes [of t "trules t" "[]" "[]"]
  by (auto simp: directExclusions_def table_wf_def list_all_iff rule_wf_def)

lemma Trim_dot_suffix:
  assumes "w \<noteq> []" and "hd w = CHR ''.''" and "last w \<noteq> CHR ''.''"
  shows "HasSuffix w (''.'' @ Trim w ''.'')"
  using assms
proof (induction w)
  case (Cons c w)
  then have c: "c = CHR ''.''" and w: "w \<noteq> []" "last w \<noteq> CHR ''.''"
    by (auto split: if_splits)
  have t: "Trim (c # w) ''.'' = Trim w ''.''" using c by (simp add: Trim_def TrimFunc_cons)
  show ?case
  proof (cases "hd w = CHR ''.''")
    case True
    with Cons.IH w have "HasSuffix w (''.'' @ Trim w ''.'')" by simp
    then obtain u where "w = u @ ''.'' @ Trim w ''.''" unfolding HasSuffix_iff by blast
    then have "c # w = (c # u) @ ''.'' @ Trim w ''.''" by simp
    then show ?thesis unfolding t HasSuffix_iff by blast
  next
    case False
    then have "Trim w ''.'' = w" unfolding Trim_def using w by (intro TrimFunc_id) simp
    then show ?thesis unfolding t using c by (simp add: HasSuffix_def)
  qed
qed simp

lemma last_HasSuffix: "HasSuffix h w \<Longrightarrow> w \<noteq> [] \<Longrightarrow> last w = last h"
  by (auto simp: HasSuffix_iff)

lemma HasSuffix_single: "h \<noteq> [] \<Longrightarrow> last h = c \<Longrightarrow> HasSuffix h [c]"
  unfolding HasSuffix_iff by (intro exI [of _ "butlast h"]) auto

lemma LastIndexFunc_tail:
  fixes g :: string and f :: "char \<Rightarrow> bool"
  defines "t \<equiv> case LastIndexFunc f g of Some i \<Rightarrow> drop (i + 1) g | None \<Rightarrow> g"
  shows "\<forall>c \<in> set t. \<not> f c" and "g = take (length g - length t) g @ t"
proof (atomize (full), cases "LastIndexFunc f g")
  case None
  then show "(\<forall>c \<in> set t. \<not> f c) \<and> g = take (length g - length t) g @ t"
    using LastIndexFunc_None [of f g] by (simp add: t_def)
next
  case (Some i)
  from LastIndexFunc_Some [OF this] Some
  show "(\<forall>c \<in> set t. \<not> f c) \<and> g = take (length g - length t) g @ t" by (simp add: t_def)
qed

lemma globSuffix_covers:
  assumes "glob g h" and "\<not> HasSuffix h ''.''"
  shows "globSuffix g = [] \<or> HasSuffix h (''.'' @ globSuffix g)"
proof -
  let ?f = "\<lambda>x. x \<in> set ''*?''"
  define tail where "tail = (case LastIndexFunc ?f g of Some i \<Rightarrow> drop (i + 1) g | None \<Rightarrow> g)"
  have sfx: "globSuffix g = (case IndexByte tail CHR ''.'' of Some j \<Rightarrow> Trim (drop j tail) ''.'' | None \<Rightarrow> [])"
    unfolding globSuffix_def tail_def LastIndexAny_def Let_def by (rule refl)
  have lit: "\<forall>c \<in> set tail. \<not> ?f c" and "g = take (length g - length tail) g @ tail"
    unfolding tail_def by (rule LastIndexFunc_tail)+
  then have suf: "HasSuffix h tail"
    using glob_literal_suffix [of "take (length g - length tail) g" tail h] assms(1) lit by auto
  show ?thesis
  proof (cases "IndexByte tail CHR ''.''")
    case None
    then show ?thesis by (simp add: sfx)
  next
    case (Some j)
    let ?w = "drop j tail"
    have "j < length tail" "tail ! j = CHR ''.''"
      using Some IndexFunc_Some [of "\<lambda>x. x = CHR ''.''" tail j] by (simp_all add: IndexByte_def)
    then have w: "?w \<noteq> []" "hd ?w = CHR ''.''" by (simp_all add: hd_drop_conv_nth)
    have "HasSuffix tail ?w" unfolding HasSuffix_iff by (intro exI [of _ "take j tail"]) simp
    with suf have hw: "HasSuffix h ?w" by (rule HasSuffix_trans)
    then have "h \<noteq> []" using w(1) by (auto simp: HasSuffix_iff)
    then have "last ?w \<noteq> CHR ''.''"
      using assms(2) last_HasSuffix [OF hw w(1)] HasSuffix_single by metis
    from HasSuffix_trans [OF hw Trim_dot_suffix [OF w this]] Some show ?thesis by (simp add: sfx)
  qed
qed

lemma domains_loop_member:
  "set (domains_loop t a rs out) =
     set out \<union> (\<lambda>r. if domain r \<noteq> [] then domain r else globSuffix (rglob r)) `
       {r \<in> set rs. isHostRule r \<and> effective t (action r) = a}"
  by (induction t a rs out rule: domains_loop.induct) (auto simp: Let_def)

lemma dnsDomains_covers:
  fixes host :: string
  defines "h \<equiv> TrimSuffix (ToLower host) ''.''"
  assumes "matchHost (Some t) host = a" and "a \<noteq> routeNone" and "\<not> HasSuffix h ''.''"
  shows "\<exists>d \<in> set (dnsDomains (Some t) a). d = [] \<or> h = d \<or> HasSuffix h (''.'' @ d)"
proof -
  obtain r where r: "r \<in> set (trules t)" "isHostRule r" "rule_matchHost r h" "effective t (action r) = a"
    using matchHost_cases [OF assms(2,3)] unfolding h_def by blast
  let ?d = "if domain r \<noteq> [] then domain r else globSuffix (rglob r)"
  have "?d \<in> set (dnsDomains (Some t) a)" using r by (auto simp: dnsDomains_def domains_loop_member)
  moreover have "?d = [] \<or> h = ?d \<or> HasSuffix h (''.'' @ ?d)"
    using r(3) globSuffix_covers [of "rglob r" h] assms(4) globMatch_sound [of "rglob r" h]
    by (auto simp: rule_matchHost_def split: if_splits)
  ultimately show ?thesis by blast
qed

subsection \<open>Properties\<close>

text \<open>
  C21: an address inside a prefix that \<open>directExclusions\<close> takes out of the tunnel is never
  a fake address and never one the rules send over SSH; when an SSH host is configured, the
  first-match verdict for it is \<open>direct\<close>.
\<close>

theorem directExclusions_sound:
  assumes "p \<in> set (directExclusions (Some (compileRouteTable cfg ssh)))"
    and "PContains p (Unmap ip)"
  shows "\<not> PContains fakeIPPrefix (Unmap ip) \<and>
         matchIP (Some (compileRouteTable cfg ssh)) ip \<noteq> routeSSH \<and>
         (ssh \<longrightarrow> matchIP (Some (compileRouteTable cfg ssh)) ip = routeDirect)"
proof -
  have "sshEnabled (compileRouteTable cfg ssh) = ssh" by (simp add: compileRouteTable_def)
  with exclusion_verdict [OF table_wf_compile assms] show ?thesis by simp
qed

theorem directExclusions_sound_witness:
  "matchIP (Some (compileRouteTable \<lparr>SendAllViaSSH = True,
     Rules = [\<lparr>rPattern = ''10.1.0.0/16'', rAction = ''ssh''\<rparr>,
              \<lparr>rPattern = ''10.0.0.0/8'', rAction = ''direct''\<rparr>,
              \<lparr>rPattern = ''192.168.0.0/16'', rAction = ''direct''\<rparr>]\<rparr> True))
     (Addr4 0xC0A80105) = routeDirect"
  (is "matchIP (Some (compileRouteTable ?c True)) ?ip = _")
proof -
  have "Pfx (Addr4 0xC0A80000) (Some 16) \<in> set (directExclusions (Some (compileRouteTable ?c True)))"
    by code_simp
  moreover have "PContains (Pfx (Addr4 0xC0A80000) (Some 16)) (Unmap ?ip)" by code_simp
  ultimately show ?thesis using directExclusions_sound by blast
qed

text \<open>
  if the rules send an address over SSH (or direct), one of the prefixes handed to the
  operating system for that verdict contains it, so no packet misses its rule.
\<close>

theorem prefixes_cover:
  assumes "matchIP (Some t) ip = a" and "a \<noteq> routeNone"
  shows "\<exists>p \<in> set (prefixes (Some t) a). PContains p (Unmap ip)"
  using matchIP_cases [OF assms] by (force simp: prefixes_def)

theorem prefixes_cover_witness:
  "\<exists>p \<in> set (prefixes (Some (compileRouteTable \<lparr>SendAllViaSSH = False,
       Rules = [\<lparr>rPattern = '' 10.1.0.0/16'', rAction = ''SSH''\<rparr>]\<rparr> True)) routeSSH).
     PContains p (Addr4 0x0A010203)"
  (is "\<exists>p \<in> set (prefixes (Some ?t) _). _")
proof -
  have "matchIP (Some ?t) (Addr4 0x0A010203) = routeSSH" by code_simp
  from prefixes_cover [OF this] show ?thesis by simp
qed

text \<open>
  if the rules give a verdict for a host name, the DNS domains announced for that verdict
  cover the name: they contain the name itself, a parent domain of it, or the empty suffix
  that means every query. Names have no empty last label.
\<close>

theorem dnsDomains_cover:
  fixes host :: string
  defines "h \<equiv> TrimSuffix (ToLower host) ''.''"
  assumes "matchHost (Some t) host = a" and "a \<noteq> routeNone" and "\<not> HasSuffix h ''.''"
  shows "\<exists>d \<in> set (dnsDomains (Some t) a). d = [] \<or> h = d \<or> HasSuffix h (''.'' @ d)"
  using dnsDomains_covers [OF assms(2,3)] assms(4) by (simp add: h_def)

theorem dnsDomains_cover_witness:
  "\<exists>d \<in> set (dnsDomains (Some (compileRouteTable \<lparr>SendAllViaSSH = False,
       Rules = [\<lparr>rPattern = ''api-?.corp.example'', rAction = ''ssh''\<rparr>]\<rparr> True)) routeSSH).
     d = [] \<or> ''api-1.corp.example'' = d \<or> HasSuffix ''api-1.corp.example'' (''.'' @ d)"
  (is "\<exists>d \<in> set (dnsDomains (Some ?t) _). _")
proof -
  have "matchHost (Some ?t) ''API-1.corp.example.'' = routeSSH" by code_simp
  moreover have h: "TrimSuffix (ToLower ''API-1.corp.example.'') ''.'' = ''api-1.corp.example''" by code_simp
  moreover have "\<not> HasSuffix ''api-1.corp.example'' ''.''" by code_simp
  ultimately show ?thesis using dnsDomains_cover [of ?t "''API-1.corp.example.''" routeSSH] by simp
qed

text \<open>
  without an SSH host every SSH rule is inert: no name and no address gets the SSH
  verdict, nothing is announced for it, and the send-everything switch is off.
\<close>

theorem no_ssh_without_host:
  "matchHost (Some (compileRouteTable cfg False)) host \<noteq> routeSSH \<and>
   matchIP (Some (compileRouteTable cfg False)) ip \<noteq> routeSSH \<and>
   prefixes (Some (compileRouteTable cfg False)) routeSSH = [] \<and>
   dnsDomains (Some (compileRouteTable cfg False)) routeSSH = [] \<and>
   \<not> sendAllViaSSH (compileRouteTable cfg False)"
proof -
  let ?t = "compileRouteTable cfg False"
  have e: "effective ?t a \<noteq> routeSSH" for a by (simp add: effective_cases compileRouteTable_def)
  have "set (dnsDomains (Some ?t) routeSSH) = {}" using e by (auto simp: dnsDomains_def domains_loop_member)
  then show ?thesis
    using e by (auto simp: matchHost_def matchIP_def prefixes_def Let_def compileRouteTable_def
                     split: option.splits)
qed

end
