(* ===== verification/DNSPacket.thy ===== *)
theory DNSPacket
  imports GoNetip
begin

text \<open>
  \<open>vpntunnel/dnspacket.go\<close>: the IP and UDP headers the tunnel reads and writes, the
  Internet checksum, and the DNS query and answer helpers. The DNS wire format itself
  (package \<open>dnsmessage\<close>) is a parameter: a record of the parser and builder methods
  the code calls.
\<close>

unbundle bit_operations_syntax

subsection \<open>Definitions: IP and UDP\<close>

definition slice :: "nat \<Rightarrow> nat \<Rightarrow> 'a list \<Rightarrow> 'a list" where
  "slice i j xs = take (j - i) (drop i xs)"

definition ipProtoTCP :: u8 where
  "ipProtoTCP = 6"

definition ipProtoUDP :: u8 where
  "ipProtoUDP = 17"

record ipPacketInfo =
  i_src :: addr
  i_dst :: addr
  proto :: u8
  l4 :: bytes
  srcPort :: u16
  dstPort :: u16
  hasL4Ports :: bool

definition be16 :: "bytes \<Rightarrow> u16" where
  "be16 b = of_nat (be_nat b)"

definition zeroInfo :: ipPacketInfo where
  "zeroInfo = \<lparr> i_src = AddrNone, i_dst = AddrNone, proto = 0, l4 = [],
                srcPort = 0, dstPort = 0, hasL4Ports = False \<rparr>"

text \<open>The ports, the last step of \<open>parseIPPacket\<close>.\<close>

definition readPorts :: "ipPacketInfo \<Rightarrow> ipPacketInfo" where
  "readPorts info =
     (if (proto info = ipProtoTCP \<or> proto info = ipProtoUDP) \<and> 8 \<le> length (l4 info)
      then info\<lparr> srcPort := be16 (slice 0 2 (l4 info)),
                 dstPort := be16 (slice 2 4 (l4 info)), hasL4Ports := True \<rparr>
      else info)"

definition parseIPPacket :: "bytes \<Rightarrow> ipPacketInfo option" where
  "parseIPPacket pkt =
     (if length pkt < 1 then None
      else if drop_bit 4 (pkt ! 0) = 4 then
        (if length pkt < 20 then None
         else let ihl = unat (pkt ! 0 AND 0x0f) * 4;
                  total = be_nat (slice 2 4 pkt)
              in if ihl < 20 \<or> total < ihl \<or> total > length pkt then None
                 else let info = zeroInfo\<lparr> i_src := AddrFrom4 (slice 12 16 pkt),
                                           i_dst := AddrFrom4 (slice 16 20 pkt),
                                           proto := pkt ! 9 \<rparr>
                      in Some (readPorts
                           (if be16 (slice 6 8 pkt) AND 0x1fff = 0
                            then info\<lparr>l4 := slice ihl total pkt\<rparr> else info)))
      else if drop_bit 4 (pkt ! 0) = 6 then
        (if length pkt < 40 then None
         else let payloadLen = be_nat (slice 4 6 pkt)
              in if 40 + payloadLen > length pkt then None
                 else Some (readPorts (zeroInfo\<lparr> i_src := AddrFrom16 (slice 8 24 pkt),
                                                i_dst := AddrFrom16 (slice 24 40 pkt),
                                                proto := pkt ! 6,
                                                l4 := slice 40 (40 + payloadLen) pkt \<rparr>)))
      else None)"

text \<open>\<open>nil\<close> is \<^const>\<open>None\<close>.\<close>

definition udpPayload :: "ipPacketInfo \<Rightarrow> bytes option" where
  "udpPayload i =
     (if proto i \<noteq> ipProtoUDP \<or> length (l4 i) < 8 then None
      else let n = be_nat (slice 4 6 (l4 i))
           in if n < 8 \<or> n > length (l4 i) then None else Some (slice 8 n (l4 i)))"

lemma fold_decreases:
  assumes "(0xffff :: u32) < s"
  shows "unat (drop_bit 16 s + (s AND 0xffff)) < unat s"
    and "unat (drop_bit 16 s + (s AND 0xffff)) = unat s div 65536 + unat s mod 65536"
proof -
  have m: "s AND 0xffff = take_bit 16 s" by (simp add: take_bit_eq_mask mask_eq_exp_minus_1)
  have d: "unat (drop_bit 16 s) = unat s div 65536" unfolding unat_drop_bit_eq by (simp add: drop_bit_eq_div)
  have t: "unat (take_bit 16 s) = unat s mod 65536" unfolding unsigned_take_bit_eq by (simp add: take_bit_eq_mod)
  have b: "unat s < 2 ^ 32" using unsigned_less [of s] by simp
  then have "unat s div 65536 < 65536" by simp
  then have "unat (drop_bit 16 s) + unat (take_bit 16 s) < 2 ^ 32" unfolding d t by simp
  then have "unat (drop_bit 16 s + take_bit 16 s) = unat s div 65536 + unat s mod 65536"
    by (subst unat_add_small) (simp_all add: d t)
  then show e: "unat (drop_bit 16 s + (s AND 0xffff)) = unat s div 65536 + unat s mod 65536" by (simp add: m)
  have "65536 \<le> unat s" using assms by (simp add: word_less_nat_alt)
  then have "0 < unat s div 65536" by (simp add: div_greater_zero_iff)
  moreover have "unat s div 65536 * 65536 + unat s mod 65536 = unat s" by (rule div_mult_mod_eq)
  ultimately have "unat s div 65536 + unat s mod 65536 < unat s" by linarith
  with e show "unat (drop_bit 16 s + (s AND 0xffff)) < unat s" by simp
qed

function checksumFold :: "u32 \<Rightarrow> u16" where
  "checksumFold s =
     (if 0xffff < s then checksumFold (drop_bit 16 s + (s AND 0xffff)) else NOT (ucast s))"
  by pat_completeness auto
termination
  by (relation "measure unat") (auto intro: fold_decreases(1))

declare checksumFold.simps [simp del]

fun checksumAdd :: "u32 \<Rightarrow> bytes \<Rightarrow> u32" where
  "checksumAdd s [] = s"
| "checksumAdd s [b] = s + push_bit 8 (ucast b)"
| "checksumAdd s (a # b # bs) = checksumAdd (s + of_nat (be_nat [a, b])) bs"

type_synonym addrPort = "addr \<times> u16"

definition put16 :: "u16 \<Rightarrow> bytes" where
  "put16 w = be_bytes 2 (unat w)"

text \<open>The UDP header without its checksum, around the checksum bytes \<open>c\<close>.\<close>

definition udpSegment :: "u16 \<Rightarrow> u16 \<Rightarrow> nat \<Rightarrow> bytes \<Rightarrow> bytes \<Rightarrow> bytes" where
  "udpSegment sp dp udpLen c payload =
     put16 sp @ put16 dp @ put16 (of_nat udpLen) @ c @ payload"

text \<open>The IPv4 header of 20 bytes around the checksum bytes \<open>c\<close>.\<close>

definition ipv4Header :: "nat \<Rightarrow> bytes \<Rightarrow> bytes \<Rightarrow> bytes \<Rightarrow> bytes" where
  "ipv4Header tot c s d =
     [0x45, 0] @ put16 (of_nat tot) @ [0, 0, 0, 0] @ [64, ipProtoUDP] @ c @ s @ d"

definition ipv6Header :: "nat \<Rightarrow> bytes \<Rightarrow> bytes \<Rightarrow> bytes" where
  "ipv6Header udpLen s d = [0x60, 0, 0, 0] @ put16 (of_nat udpLen) @ [ipProtoUDP, 64] @ s @ d"

text \<open>
  The buffer is written field by field in the code; here each field stands at its offset.
  \<open>As4\<close> of an IPv6 destination panics: \<^const>\<open>None\<close>.
\<close>

definition finishUDP :: "bytes \<Rightarrow> u32 \<Rightarrow> u16 \<Rightarrow> u16 \<Rightarrow> bytes \<Rightarrow> bytes" where
  "finishUDP hdr pseudo sp dp payload =
     (let udpLen = 8 + length payload;
          pseudo' = pseudo + (ucast ipProtoUDP + of_nat udpLen);
          c = checksumFold (checksumAdd pseudo' (udpSegment sp dp udpLen [0, 0] payload))
      in hdr @ udpSegment sp dp udpLen (put16 (if c = 0 then 0xffff else c)) payload)"

definition buildUDPPacket :: "addrPort \<Rightarrow> addrPort \<Rightarrow> bytes \<Rightarrow> bytes option" where
  "buildUDPPacket src dst payload =
     (let udpLen = 8 + length payload in
      if Is4 (fst src) then
        (case (As4 (fst src), As4 (fst dst)) of
           (Some s, Some d) \<Rightarrow>
             let tot = 20 + udpLen;
                 c = checksumFold (checksumAdd 0 (ipv4Header tot [0, 0] s d))
             in Some (finishUDP (ipv4Header tot (put16 c) s d) (checksumAdd 0 (s @ d))
                        (snd src) (snd dst) payload)
         | _ \<Rightarrow> None)
      else
        let s = As16 (fst src); d = As16 (fst dst)
        in Some (finishUDP (ipv6Header udpLen s d) (checksumAdd 0 (s @ d))
                   (snd src) (snd dst) payload))"

subsection \<open>The Internet checksum\<close>

text \<open>The sum of the 16-bit fields, a trailing odd byte being the high half of the last one.\<close>

fun csum :: "bytes \<Rightarrow> nat" where
  "csum [] = 0"
| "csum [b] = unat b * 256"
| "csum (a # b # bs) = be_nat [a, b] + csum bs"

lemma be_nat_pair_less: "be_nat [a, b] < 65536"
  using be_nat_less [of "[a, b]"] by simp

lemma csum_bound: "csum b \<le> 65535 * ((length b + 1) div 2)"
proof (induction b rule: csum.induct)
  case (2 b)
  have "unat b < 256" by simp
  then have "unat b \<le> 255" by linarith
  then show ?case by simp
next
  case (3 a b bs)
  then show ?case using be_nat_pair_less [of a b] by simp
qed simp

lemma csum_append: "even (length a) \<Longrightarrow> csum (a @ b) = csum a + csum b"
  by (induction a rule: csum.induct) auto

lemma unat_checksumAdd:
  "unat s + csum b < 2 ^ 32 \<Longrightarrow> unat (checksumAdd s b) = unat s + csum b"
proof (induction s b rule: checksumAdd.induct)
  case (2 s b)
  have b: "unat b < 256" by simp
  have "take_bit 32 (unat b) = unat b" by (rule take_bit_nat_eq_self, rule less_trans [OF b]) simp
  moreover have "unat b * 256 < 4294967296" using b by linarith
  ultimately have "unat (push_bit 8 (ucast b :: u32)) = unat b * 256"
    by (simp add: push_bit_eq_mult unat_word_ariths unsigned_ucast_eq)
  with 2 show ?case by (simp add: unat_add_small)
next
  case (3 s a b bs)
  have "unat (of_nat (be_nat [a, b]) :: u32) = be_nat [a, b]"
    using be_nat_pair_less [of a b] by (simp add: unat_of_nat_less)
  with 3 have "unat (s + of_nat (be_nat [a, b])) = unat s + be_nat [a, b]" by (simp add: unat_add_small)
  with 3 show ?case by simp
qed simp

lemma unat_not16: "unat (NOT (w :: u16)) = 65535 - unat w"
proof -
  have "NOT w = -1 - w" by (simp add: not_eq_complement)
  moreover have "w \<le> -1" by simp
  moreover have "unat (-1 :: u16) = 65535" by (simp add: unsigned_minus_1_eq_mask mask_eq_exp_minus_1)
  ultimately show ?thesis using unat_sub_le [of w "-1"] by metis
qed

lemma checksumFold_residue:
  "\<exists>r. unat (checksumFold s) = 65535 - r \<and> r \<le> 65535 \<and> r mod 65535 = unat s mod 65535 \<and>
       (0 < unat s \<longrightarrow> 0 < r)"
proof (induction s rule: checksumFold.induct)
  case (1 s)
  show ?case
  proof (cases "0xffff < s")
    case True
    let ?t = "drop_bit 16 s + (s AND 0xffff)"
    have t: "unat ?t = unat s div 65536 + unat s mod 65536" using True by (rule fold_decreases(2))
    have s: "unat s = 65535 * (unat s div 65536) + unat ?t"
      using div_mult_mod_eq [of "unat s" 65536] unfolding t by linarith
    then have m: "unat ?t mod 65535 = unat s mod 65535" by (metis mod_mult_self4)
    have "65536 \<le> unat s" using True by (simp add: word_less_nat_alt)
    then have "0 < unat s div 65536" by (simp add: div_greater_zero_iff)
    then have "0 < unat ?t" unfolding t by linarith
    with "1.IH" [OF True] m show ?thesis
      unfolding checksumFold.simps [of s] if_P [OF True] by fastforce
  next
    case False
    then have s: "unat s \<le> 65535" by (simp add: word_less_nat_alt)
    have "unat (NOT (ucast s :: u16)) = 65535 - unat (ucast s :: u16)"
      by (rule unat_not16)
    moreover have "unat (ucast s :: u16) = unat s"
      using s by (simp add: unsigned_ucast_eq take_bit_nat_eq_self)
    ultimately show ?thesis using False s by (intro exI [of _ "unat s"]) (simp add: checksumFold.simps [of s])
  qed
qed

lemma checksumFold_complement: "(unat s + unat (checksumFold s)) mod 65535 = 0"
proof -
  obtain r where r: "unat (checksumFold s) = 65535 - r" "r \<le> 65535" "r mod 65535 = unat s mod 65535"
    using checksumFold_residue by blast
  have "(unat s + (65535 - r)) mod 65535 = (r + (65535 - r)) mod 65535"
    using r(3) by (metis mod_add_left_eq)
  with r show ?thesis by simp
qed

lemma checksumFold_zero:
  assumes "unat s mod 65535 = 0" and "0 < unat s"
  shows "checksumFold s = 0"
proof -
  obtain r where r: "unat (checksumFold s) = 65535 - r" "r \<le> 65535" "r mod 65535 = 0" "0 < r"
    using checksumFold_residue [of s] assms by auto
  then have "r = 65535" by (metis le_neq_implies_less mod_less not_less0)
  with r(1) show ?thesis by (simp add: unat_eq_zero)
qed

text \<open>Writing the folded sum into a zero field at an even offset makes the whole sum verify.\<close>

lemma checksum_verifies:
  assumes ev: "even (length a)" and c: "unat c = unat (checksumFold (checksumAdd s (a @ [0, 0] @ b))) \<or>
      (checksumFold (checksumAdd s (a @ [0, 0] @ b)) = 0 \<and> c = 0xffff)"
    and small: "unat s + csum (a @ [0, 0] @ b) + 65535 < 2 ^ 32" and pos: "0 < unat s + csum (a @ [0, 0] @ b)"
  shows "checksumFold (checksumAdd s (a @ put16 c @ b)) = 0"
proof -
  let ?z = "a @ [0, 0] @ b"
  have two: "csum (a @ [x, y] @ b) = csum a + be_nat [x, y] + csum b" for x y
    using ev by (simp add: csum_append)
  obtain x y where xy: "put16 c = [x, y]" by (simp add: put16_def numeral_2_eq_2)
  have cb: "be_nat [x, y] = unat c"
  proof -
    have "unat c < 65536" using unsigned_less [of c] by simp
    then show ?thesis by (simp add: xy [symmetric] put16_def be_nat_be_bytes del: be_bytes.simps)
  qed
  have z: "be_nat [0, 0 :: u8] = 0" by (simp add: be_nat_def)
  have n: "unat (checksumAdd s ?z) = unat s + csum ?z" using small by (intro unat_checksumAdd) simp
  have "(unat s + csum ?z + unat c) mod 65535 = 0"
    using c checksumFold_complement [of "checksumAdd s ?z"] unfolding n by auto
  moreover have "unat c < 65536" using unsigned_less [of c] by simp
  moreover have e: "csum (a @ put16 c @ b) = csum ?z + unat c" unfolding xy two cb z by simp
  moreover from calculation have "unat (checksumAdd s (a @ put16 c @ b)) = unat s + (csum ?z + unat c)"
    using small by (subst unat_checksumAdd) simp_all
  ultimately show ?thesis using pos by (intro checksumFold_zero) (auto simp: add.assoc)
qed

subsection \<open>Building and parsing\<close>

lemma length_put16 [simp]: "length (put16 w) = 2"
  by (simp add: put16_def del: be_bytes.simps)

lemma be16_put16 [simp, wire_simps]: "be16 (put16 w) = w"
proof -
  have "unat w < 65536" using unsigned_less [of w] by simp
  then show ?thesis by (simp add: be16_def put16_def be_nat_be_bytes del: be_bytes.simps)
qed

lemma be_nat_put16 [wire_simps]: "n < 65536 \<Longrightarrow> be_nat (put16 (of_nat n)) = n"
  by (simp add: put16_def be_nat_be_bytes unat_of_nat_less del: be_bytes.simps)

lemma slice_append:
  "slice i j (a @ b) = (if j \<le> length a then slice i j a
     else if length a \<le> i then slice (i - length a) (j - length a) b
     else drop i a @ slice 0 (j - length a) b)"
  by (auto simp: slice_def min_def)

lemma slice_all: "slice 0 (length xs) xs = xs" "slice i i xs = []"
  by (auto simp: slice_def)

lemma length_udpSegment: "length c = 2 \<Longrightarrow> length (udpSegment sp dp n c payload) = 8 + length payload"
  by (simp add: udpSegment_def)

definition sentInfo :: "addr \<Rightarrow> addr \<Rightarrow> u16 \<Rightarrow> u16 \<Rightarrow> bytes \<Rightarrow> ipPacketInfo" where
  "sentInfo s d sp dp seg =
     \<lparr> i_src = s, i_dst = d, proto = ipProtoUDP, l4 = seg, srcPort = sp, dstPort = dp, hasL4Ports = True \<rparr>"

lemma readPorts_segment:
  assumes "length c = 2" and "l4 info = udpSegment sp dp n c payload" and "proto info = ipProtoUDP"
  shows "readPorts info = info\<lparr> srcPort := sp, dstPort := dp, hasL4Ports := True \<rparr>"
proof -
  have "slice 0 2 (l4 info) = put16 sp" "slice 2 4 (l4 info) = put16 dp"
    unfolding assms(2) udpSegment_def by (simp_all add: slice_append slice_def)
  then show ?thesis using assms by (simp add: readPorts_def length_udpSegment)
qed

lemma udpPayload_segment:
  assumes "length c = 2" and l: "l4 info = udpSegment sp dp n c payload"
    and "proto info = ipProtoUDP" and n: "n = 8 + length payload" "n < 65536"
  shows "udpPayload info = Some payload"
proof -
  have "slice 4 6 (l4 info) = put16 (of_nat n)"
    unfolding l udpSegment_def by (simp add: slice_append slice_def)
  then have n': "be_nat (slice 4 6 (l4 info)) = n" using n(2) be_nat_put16 by simp
  have "slice 8 n (l4 info) = payload"
    unfolding l udpSegment_def using assms(1) n(1) by (simp add: slice_append slice_def)
  then show ?thesis
    unfolding udpPayload_def n' Let_def using assms by (simp add: length_udpSegment)
qed

lemma parse_ipv4:
  assumes "length s = 4" and "length d = 4" and "length c = 2" and c': "length c' = 2"
    and n: "n = 8 + length payload" "t = 20 + n" "t < 65536"
  shows "parseIPPacket (ipv4Header t c s d @ udpSegment sp dp n c' payload) =
           Some (sentInfo (AddrFrom4 s) (AddrFrom4 d) sp dp (udpSegment sp dp n c' payload))"
    (is "parseIPPacket ?p = _")
proof -
  let ?seg = "udpSegment sp dp n c' payload"
  have l: "length ?p = t" using assms by (simp add: ipv4Header_def length_udpSegment)
  have h: "length (ipv4Header t c s d) = 20" using assms by (simp add: ipv4Header_def)
  have f: "?p ! 0 = 0x45" "?p ! 9 = ipProtoUDP" using assms by (simp_all add: ipv4Header_def nth_append)
  have sl: "slice 2 4 ?p = put16 (of_nat t)" "slice 6 8 ?p = [0, 0]" "slice 12 16 ?p = s" "slice 16 20 ?p = d"
    using assms(1-4) unfolding ipv4Header_def by (simp_all add: slice_append slice_def)
  have seg: "slice 20 t ?p = ?seg" using h c' n by (simp add: slice_def length_udpSegment)
  have t20: "20 \<le> t" using n by simp
  have t: "be_nat (slice 2 4 ?p) = t" unfolding sl using n(3) by (rule be_nat_put16)
  have i: "unat ((0x45 :: u8) AND 0x0f) * 4 = 20" "drop_bit 4 (0x45 :: u8) = 4" "be16 [0, 0] = 0" by code_simp+
  have "readPorts (zeroInfo\<lparr>i_src := AddrFrom4 s, i_dst := AddrFrom4 d, proto := ipProtoUDP, l4 := ?seg\<rparr>) =
      sentInfo (AddrFrom4 s) (AddrFrom4 d) sp dp ?seg"
    by (subst readPorts_segment [OF c', of _ sp dp n payload]) (simp_all add: sentInfo_def zeroInfo_def)
  then show ?thesis
    unfolding parseIPPacket_def t f i Let_def l using t20 by (simp add: sl seg i)
qed

lemma parse_ipv6:
  assumes "length s = 16" and "length d = 16" and c': "length c' = 2"
    and n: "n = 8 + length payload" "n < 65536"
  shows "parseIPPacket (ipv6Header n s d @ udpSegment sp dp n c' payload) =
           Some (sentInfo (AddrFrom16 s) (AddrFrom16 d) sp dp (udpSegment sp dp n c' payload))"
    (is "parseIPPacket ?p = _")
proof -
  let ?seg = "udpSegment sp dp n c' payload"
  have l: "length ?p = 40 + n" using assms by (simp add: ipv6Header_def length_udpSegment)
  have h: "length (ipv6Header n s d) = 40" using assms by (simp add: ipv6Header_def)
  have f: "?p ! 0 = 0x60" "?p ! 6 = ipProtoUDP" using assms by (simp_all add: ipv6Header_def nth_append)
  have sl: "slice 4 6 ?p = put16 (of_nat n)" "slice 8 24 ?p = s" "slice 24 40 ?p = d"
    using assms(1-3) unfolding ipv6Header_def by (simp_all add: slice_append slice_def)
  have seg: "slice 40 (40 + n) ?p = ?seg" using h c' n by (simp add: slice_def length_udpSegment)
  have t: "be_nat (slice 4 6 ?p) = n" unfolding sl using n(2) by (rule be_nat_put16)
  have i: "drop_bit 4 (0x60 :: u8) \<noteq> 4" "drop_bit 4 (0x60 :: u8) = 6" by code_simp+
  have "readPorts (zeroInfo\<lparr>i_src := AddrFrom16 s, i_dst := AddrFrom16 d, proto := ipProtoUDP, l4 := ?seg\<rparr>) =
      sentInfo (AddrFrom16 s) (AddrFrom16 d) sp dp ?seg"
    by (subst readPorts_segment [OF c', of _ sp dp n payload]) (simp_all add: sentInfo_def zeroInfo_def)
  then show ?thesis
    unfolding parseIPPacket_def t f Let_def l using i by (simp add: sl seg)
qed

subsection \<open>Properties\<close>

text \<open>
  C29: parsing a packet that \<open>buildUDPPacket\<close> made gives back the addresses, the protocol,
  both ports and the payload, for IPv4 and for IPv6, as long as the lengths fit their fields.
\<close>

theorem buildUDPPacket_roundtrip:
  assumes "(s = Addr4 v \<and> d = Addr4 w \<and> length payload < 65508) \<or>
           (s = Addr6 v' [] \<and> d = Addr6 w' [] \<and> length payload < 65528)"
  shows "\<exists>pkt info. buildUDPPacket (s, sp) (d, dp) payload = Some pkt \<and> parseIPPacket pkt = Some info \<and>
           i_src info = s \<and> i_dst info = d \<and> proto info = ipProtoUDP \<and> hasL4Ports info \<and>
           srcPort info = sp \<and> dstPort info = dp \<and> udpPayload info = Some payload"
  using assms
proof (elim disjE conjE)
  assume a: "s = Addr4 v" "d = Addr4 w" "length payload < 65508"
  let ?b = "\<lambda>w :: u32. be_bytes 4 (unat w)"
  have "udpPayload (sentInfo (Addr4 v) (Addr4 w) sp dp (udpSegment sp dp (8 + length payload) (put16 c) payload))
      = Some payload" for c
    using a(3) by (intro udpPayload_segment [of "put16 c" _ sp dp _ payload, OF _ _ _ refl])
      (simp_all add: sentInfo_def)
  moreover have "parseIPPacket (ipv4Header (20 + (8 + length payload)) (put16 c) (?b v) (?b w) @
        udpSegment sp dp (8 + length payload) (put16 c') payload) =
      Some (sentInfo (AddrFrom4 (?b v)) (AddrFrom4 (?b w)) sp dp
        (udpSegment sp dp (8 + length payload) (put16 c') payload))" for c c'
    using a(3) by (intro parse_ipv4) (simp_all del: be_bytes.simps)
  ultimately show ?thesis
    by (simp add: a buildUDPPacket_def As4_def finishUDP_def Let_def AddrFrom4_As4 sentInfo_def del: be_bytes.simps)
next
  assume a: "s = Addr6 v' []" "d = Addr6 w' []" "length payload < 65528"
  let ?b = "\<lambda>w :: 128 word. be_bytes 16 (unat w)"
  have "udpPayload (sentInfo (Addr6 v' []) (Addr6 w' []) sp dp (udpSegment sp dp (8 + length payload) (put16 c) payload))
      = Some payload" for c
    using a(3) by (intro udpPayload_segment [of "put16 c" _ sp dp _ payload, OF _ _ _ refl])
      (simp_all add: sentInfo_def)
  moreover have "parseIPPacket (ipv6Header (8 + length payload) (?b v') (?b w') @
        udpSegment sp dp (8 + length payload) (put16 c') payload) =
      Some (sentInfo (AddrFrom16 (?b v')) (AddrFrom16 (?b w')) sp dp
        (udpSegment sp dp (8 + length payload) (put16 c') payload))" for c'
    using a(3) by (intro parse_ipv6) (simp_all del: be_bytes.simps)
  ultimately show ?thesis
    by (simp add: a buildUDPPacket_def As16_def finishUDP_def Let_def AddrFrom16_As16 sentInfo_def del: be_bytes.simps)
qed

theorem buildUDPPacket_roundtrip_witness:
  "\<exists>pkt info. buildUDPPacket (Addr4 0xC6120002, 53) (Addr4 0x0A000001, 40000) [1, 2, 3] = Some pkt \<and>
     parseIPPacket pkt = Some info \<and> dstPort info = 40000 \<and> udpPayload info = Some [1, 2, 3]"
  using buildUDPPacket_roundtrip [where s = "Addr4 0xC6120002" and d = "Addr4 0x0A000001"
      and payload = "[1, 2, 3]" and sp = 53 and dp = 40000] by auto

lemma udp_checksum_ok:
  assumes s: "length addrs \<le> 32" and n: "n = 8 + length payload" "n < 65536"
    and p: "p = checksumAdd 0 addrs + (ucast ipProtoUDP + of_nat n)"
    and c: "c = checksumFold (checksumAdd p (udpSegment sp dp n [0, 0] payload))"
  shows "checksumFold (checksumAdd p (udpSegment sp dp n (put16 (if c = 0 then 0xffff else c)) payload)) = 0"
proof -
  have "(length addrs + 1) div 2 \<le> 16" using s by linarith
  then have a: "csum addrs \<le> 65535 * 16" using csum_bound [of addrs] by simp
  then have ua: "unat (checksumAdd 0 addrs) = csum addrs" by (subst unat_checksumAdd) simp_all
  have "unat (ucast ipProtoUDP + of_nat n :: u32) = 17 + n"
    using n(2) by (subst unat_add_small) (simp_all add: ipProtoUDP_def unat_of_nat_less)
  then have up: "unat p = csum addrs + 17 + n"
    unfolding p using a n(2) ua by (subst unat_add_small) simp_all
  let ?h = "put16 sp @ put16 dp @ put16 (of_nat n)"
  have seg: "udpSegment sp dp n x payload = ?h @ x @ payload" for x by (simp add: udpSegment_def)
  have "csum (?h @ [0, 0] @ payload) \<le> 65535 * ((n + 1) div 2)"
  proof -
    have "length (?h @ [0, 0] @ payload) = n" using n(1) by simp
    then show ?thesis using csum_bound [of "?h @ [0, 0] @ payload"] by (simp only:)
  qed
  moreover have "(n + 1) div 2 \<le> 32768" using n(2) by linarith
  ultimately have "unat p + csum (?h @ [0, 0] @ payload) + 65535 < 2 ^ 32" using up a n(2) by simp
  with up c show ?thesis unfolding seg
    by (intro checksum_verifies) auto
qed

text \<open>
  the checksums of a built packet verify: folding the sum over the IPv4 header, and over
  the pseudo-header and the UDP segment, gives 0, so a receiver accepts it. No intermediate
  32-bit sum overflows for any payload that fits.
\<close>

theorem buildUDPPacket_checksums:
  assumes "buildUDPPacket (Addr4 v, sp) (Addr4 w, dp) payload = Some pkt" and "length payload < 65508"
  shows "checksumFold (checksumAdd 0 (take 20 pkt)) = 0 \<and>
         checksumFold (checksumAdd (checksumAdd 0 (slice 12 20 pkt) +
           (ucast ipProtoUDP + of_nat (length pkt - 20))) (drop 20 pkt)) = 0"
proof -
  let ?b = "\<lambda>w :: u32. be_bytes 4 (unat w)"
  let ?n = "8 + length payload"
  let ?c = "checksumFold (checksumAdd 0 (ipv4Header (20 + ?n) [0, 0] (?b v) (?b w)))"
  let ?p = "checksumAdd 0 (?b v @ ?b w) + (ucast ipProtoUDP + of_nat ?n)"
  let ?u = "checksumFold (checksumAdd ?p (udpSegment sp dp ?n [0, 0] payload))"
  let ?h = "ipv4Header (20 + ?n) (put16 ?c) (?b v) (?b w)"
  let ?seg = "udpSegment sp dp ?n (put16 (if ?u = 0 then 0xffff else ?u)) payload"
  have pkt: "pkt = ?h @ ?seg"
    using assms(1) by (simp add: buildUDPPacket_def As4_def finishUDP_def Let_def del: be_bytes.simps)
  have len: "length ?h = 20" by (simp add: ipv4Header_def del: be_bytes.simps)
  have sl: "slice 12 20 pkt = ?b v @ ?b w"
    unfolding pkt ipv4Header_def by (simp add: slice_append slice_def del: be_bytes.simps)
  have ls: "length pkt - 20 = ?n" using len by (simp add: pkt length_udpSegment)
  let ?a = "[0x45, 0] @ put16 (of_nat (20 + ?n)) @ [0, 0, 0, 0] @ [64, ipProtoUDP]"
  have hd: "ipv4Header (20 + ?n) x (?b v) (?b w) = ?a @ x @ (?b v @ ?b w)" for x
    by (simp add: ipv4Header_def del: be_bytes.simps)
  have "csum (?a @ [0, 0] @ (?b v @ ?b w)) \<le> 65535 * 10"
    using csum_bound [of "?a @ [0, 0] @ (?b v @ ?b w)"] by (simp del: be_bytes.simps)
  moreover have "0 < csum (?a @ [0, 0] @ (?b v @ ?b w))" by (simp add: be_nat_def del: be_bytes.simps)
  ultimately have "checksumFold (checksumAdd 0 ?h) = 0"
    unfolding hd by (intro checksum_verifies) (simp_all del: be_bytes.simps csum.simps)
  moreover have "checksumFold (checksumAdd ?p ?seg) = 0"
    using assms(2) by (intro udp_checksum_ok [OF _ refl _ refl refl]) (simp_all del: be_bytes.simps)
  ultimately show ?thesis unfolding sl ls using len by (simp add: pkt)
qed

theorem buildUDPPacket_checksums_witness:
  "\<exists>pkt. buildUDPPacket (Addr4 0xC6120002, 53) (Addr4 0x0A000001, 40000) [1, 2, 3] = Some pkt \<and>
     checksumFold (checksumAdd 0 (take 20 pkt)) = 0"
proof -
  obtain pkt where "buildUDPPacket (Addr4 0xC6120002, 53) (Addr4 0x0A000001, 40000) [1, 2, 3] = Some pkt"
    by (simp add: buildUDPPacket_def As4_def Let_def del: be_bytes.simps)
  with buildUDPPacket_checksums [OF this] show ?thesis by simp
qed

end
