(* ===== verification/DNSMessage.thy ===== *)
theory DNSMessage
  imports DNSPacket
begin

text \<open>
  The DNS helpers of \<open>vpntunnel/dnspacket.go\<close> and \<open>vpntunnel/dnscache.go\<close> that go
  through package \<open>dnsmessage\<close>. The package is not part of the sources: its parser and
  builder are records of functions, a method that returns an error being \<^const>\<open>None\<close>.
\<close>

subsection \<open>The message library\<close>

record dnsHeader =
  hID :: u16
  hResponse :: bool
  hOpCode :: u16
  hAuthoritative :: bool
  hTruncated :: bool
  hRecursionDesired :: bool
  hRecursionAvailable :: bool
  hRCode :: u16

record dnsQuestionRec =
  qName :: string
  qType :: u16
  qClass :: u16

record 'p dnsParser =
  pStart :: "bytes \<Rightarrow> (dnsHeader \<times> 'p) option"
  pQuestion :: "'p \<Rightarrow> (dnsQuestionRec \<times> 'p) option"
  pSkipAllQuestions :: "'p \<Rightarrow> 'p option"
  pAnswerHeader :: "'p \<Rightarrow> (u16 \<times> 'p) option"
  pAResource :: "'p \<Rightarrow> (bytes \<times> 'p) option"
  pAAAAResource :: "'p \<Rightarrow> (bytes \<times> 'p) option"
  pSkipAnswer :: "'p \<Rightarrow> 'p option"

record 'b dnsBuilder =
  bNew :: "dnsHeader \<Rightarrow> 'b"
  bEnableCompression :: "'b \<Rightarrow> 'b"
  bStartQuestions :: "'b \<Rightarrow> 'b option"
  bQuestion :: "'b \<Rightarrow> dnsQuestionRec \<Rightarrow> 'b option"
  bStartAnswers :: "'b \<Rightarrow> 'b option"
  bAResource :: "'b \<Rightarrow> string \<Rightarrow> u16 \<Rightarrow> u16 \<Rightarrow> u32 \<Rightarrow> bytes \<Rightarrow> 'b option"
  bFinish :: "'b \<Rightarrow> bytes option"

definition TypeA :: u16 where "TypeA = 1"
definition TypeAAAA :: u16 where "TypeAAAA = 28"
definition ClassINET :: u16 where "ClassINET = 1"
definition dnsTypeHTTPS :: u16 where "dnsTypeHTTPS = 65"

text \<open>
  What the loops below rely on: each resource that is read or skipped consumes input, and
  looking at a header gives none back.
\<close>

definition parser_progress :: "'p dnsParser \<Rightarrow> ('p \<Rightarrow> nat) \<Rightarrow> bool" where
  "parser_progress P left \<longleftrightarrow>
     (\<forall>p ty p1. pAnswerHeader P p = Some (ty, p1) \<longrightarrow> left p1 \<le> left p) \<and>
     (\<forall>p r p1. pAResource P p = Some (r, p1) \<longrightarrow> left p1 < left p) \<and>
     (\<forall>p r p1. pAAAAResource P p = Some (r, p1) \<longrightarrow> left p1 < left p) \<and>
     (\<forall>p p1. pSkipAnswer P p = Some p1 \<longrightarrow> left p1 < left p)"

text \<open>Reading one question and then skipping the rest ends where skipping all of them does.\<close>

definition question_skips :: "'p dnsParser \<Rightarrow> bool" where
  "question_skips P \<longleftrightarrow>
     (\<forall>p q p1. pQuestion P p = Some (q, p1) \<longrightarrow> pSkipAllQuestions P p1 = pSkipAllQuestions P p)"

subsection \<open>Definitions\<close>

record dnsQuestion =
  header :: dnsHeader
  quest :: dnsQuestionRec
  qname :: string

definition lowerName :: "string \<Rightarrow> string" where
  "lowerName n = TrimSuffix (ToLower n) ''.''"

definition parseDNSQuery :: "'p dnsParser \<Rightarrow> bytes \<Rightarrow> dnsQuestion option" where
  "parseDNSQuery P msg =
     (case pStart P msg of
        None \<Rightarrow> None
      | Some (h, p) \<Rightarrow>
          if hResponse h then None
          else case pQuestion P p of
                 None \<Rightarrow> None
               | Some (q, _) \<Rightarrow> Some \<lparr> header = h, quest = q, qname = lowerName (qName q) \<rparr>)"

definition replyHeader :: "dnsHeader \<Rightarrow> u16 \<Rightarrow> dnsHeader" where
  "replyHeader h rcode =
     \<lparr> hID = hID h, hResponse = True, hOpCode = hOpCode h, hAuthoritative = False,
       hTruncated = False, hRecursionDesired = hRecursionDesired h, hRecursionAvailable = True,
       hRCode = rcode \<rparr>"

definition dnsAnswer ::
  "'b dnsBuilder \<Rightarrow> dnsQuestion \<Rightarrow> u16 \<Rightarrow> addr option \<Rightarrow> u32 \<Rightarrow> bytes option" where
  "dnsAnswer B q rcode a4 ttl =
     (let b0 = bEnableCompression B (bNew B (replyHeader (header q) rcode)) in
      case bStartQuestions B b0 of
        None \<Rightarrow> None
      | Some b1 \<Rightarrow>
          (case bQuestion B b1 (quest q) of
             None \<Rightarrow> None
           | Some b2 \<Rightarrow>
               (case a4 of
                  Some (Addr4 w) \<Rightarrow>
                    if qType (quest q) = TypeA then
                      (case bStartAnswers B b2 of
                         None \<Rightarrow> None
                       | Some b3 \<Rightarrow>
                           (case bAResource B b3 (qName (quest q)) TypeA ClassINET ttl
                                   (be_bytes 4 (unat w)) of
                              None \<Rightarrow> None
                            | Some b4 \<Rightarrow> bFinish B b4))
                    else bFinish B b2
                | _ \<Rightarrow> bFinish B b2)))"

text \<open>The loop over the answers; a parser that makes no progress would keep it running.\<close>

partial_function (option) answer_loop :: "'p dnsParser \<Rightarrow> 'p \<Rightarrow> addr list \<Rightarrow> addr list option" where
  "answer_loop P p out =
     (case pAnswerHeader P p of
        None \<Rightarrow> Some out
      | Some (ty, p1) \<Rightarrow>
          if ty = TypeA then
            (case pAResource P p1 of
               None \<Rightarrow> Some out
             | Some (r, p2) \<Rightarrow> answer_loop P p2 (out @ [AddrFrom4 r]))
          else if ty = TypeAAAA then
            (case pAAAAResource P p1 of
               None \<Rightarrow> Some out
             | Some (r, p2) \<Rightarrow> answer_loop P p2 (out @ [AddrFrom16 r]))
          else
            (case pSkipAnswer P p1 of
               None \<Rightarrow> Some out
             | Some p2 \<Rightarrow> answer_loop P p2 out))"

declare answer_loop.simps [code]

text \<open>\<^const>\<open>None\<close> is a loop that does not end.\<close>

definition dnsAnswerAddrs :: "'p dnsParser \<Rightarrow> bytes \<Rightarrow> addr list option" where
  "dnsAnswerAddrs P msg =
     (case pStart P msg of
        None \<Rightarrow> Some []
      | Some (h, p) \<Rightarrow>
          if \<not> hResponse h then Some []
          else case pSkipAllQuestions P p of
                 None \<Rightarrow> Some []
               | Some p1 \<Rightarrow> answer_loop P p1 [])"

definition synthesizeHTTPSNoData :: "'p dnsParser \<Rightarrow> 'b dnsBuilder \<Rightarrow> bytes \<Rightarrow> bytes option" where
  "synthesizeHTTPSNoData P B query =
     (case pStart P query of
        None \<Rightarrow> None
      | Some (h, p) \<Rightarrow>
          if hResponse h then None
          else case pQuestion P p of
                 None \<Rightarrow> None
               | Some (q, _) \<Rightarrow>
                   if qType q \<noteq> dnsTypeHTTPS then None
                   else case bStartQuestions B (bNew B (replyHeader h 0)) of
                          None \<Rightarrow> None
                        | Some b1 \<Rightarrow>
                            (case bQuestion B b1 q of
                               None \<Rightarrow> None
                             | Some b2 \<Rightarrow> bFinish B b2))"

subsection \<open>Lemmas\<close>

text \<open>One round of the answer loop: the addresses it yields and the parser after it.\<close>

definition answer_step :: "'p dnsParser \<Rightarrow> 'p \<Rightarrow> (addr list \<times> 'p) option" where
  "answer_step P p =
     (case pAnswerHeader P p of
        None \<Rightarrow> None
      | Some (ty, p1) \<Rightarrow>
          if ty = TypeA then map_option (\<lambda>(r, q). ([AddrFrom4 r], q)) (pAResource P p1)
          else if ty = TypeAAAA then map_option (\<lambda>(r, q). ([AddrFrom16 r], q)) (pAAAAResource P p1)
          else map_option (\<lambda>q. ([], q)) (pSkipAnswer P p1))"

lemma answer_loop_step:
  "answer_loop P p out =
     (case answer_step P p of None \<Rightarrow> Some out | Some (as, q) \<Rightarrow> answer_loop P q (out @ as))"
  by (subst answer_loop.simps) (simp add: answer_step_def split: option.splits)

lemma answer_step_progress:
  assumes "parser_progress P left" and "answer_step P p = Some (as, q)"
  shows "left q < left p" and "list_all IsValid as"
proof -
  obtain ty p1 where h: "pAnswerHeader P p = Some (ty, p1)"
    using assms(2) by (auto simp: answer_step_def split: option.splits)
  have l: "left p1 \<le> left p" using assms(1) h unfolding parser_progress_def by blast
  have "(\<exists>r. pAResource P p1 = Some (r, q)) \<or> (\<exists>r. pAAAAResource P p1 = Some (r, q)) \<or> pSkipAnswer P p1 = Some q"
    and v: "list_all IsValid as"
    using assms(2) h by (auto simp: answer_step_def AddrFrom4_def AddrFrom16_def split: if_splits)
  then have "left q < left p1" using assms(1) unfolding parser_progress_def by blast
  with l v show "left q < left p" and "list_all IsValid as" by simp_all
qed

lemma answer_loop_total:
  assumes "parser_progress P left"
  shows "\<exists>as. list_all IsValid as \<and> (\<forall>out. answer_loop P p out = Some (out @ as))"
proof (induction "left p" arbitrary: p rule: less_induct)
  case less
  show ?case
  proof (cases "answer_step P p")
    case None
    then show ?thesis by (intro exI [of _ "[]"]) (simp add: answer_loop_step [of P p])
  next
    case (Some x)
    then obtain bs q where q: "answer_step P p = Some (bs, q)" by (cases x) auto
    from less [OF answer_step_progress(1) [OF assms q]] obtain as
      where as: "list_all IsValid as" "\<And>out. answer_loop P q out = Some (out @ as)" by blast
    with q answer_step_progress(2) [OF assms q] show ?thesis
      by (intro exI [of _ "bs @ as"]) (simp add: answer_loop_step [of P p])
  qed
qed

lemma dnsAnswerAddrs_total:
  assumes "parser_progress P left"
  obtains as where "dnsAnswerAddrs P msg = Some as" "list_all IsValid as"
proof (cases "dnsAnswerAddrs P msg = Some []")
  case True
  then show thesis using that by simp
next
  case False
  then obtain q where q: "dnsAnswerAddrs P msg = answer_loop P q []"
    by (auto simp: dnsAnswerAddrs_def split: option.splits if_splits)
  obtain as where "list_all IsValid as" "\<And>out. answer_loop P q out = Some (out @ as)"
    using answer_loop_total [OF assms, of q] by blast
  then show thesis using that q by simp
qed

subsection \<open>A concrete parser\<close>

text \<open>
  An instance of the parser record over one-byte tags, which shows that the hypotheses can
  hold: the first byte is the header's response bit, then a name length and a name, then
  tagged addresses.
\<close>

definition demoParser :: "bytes dnsParser" where
  "demoParser =
     \<lparr> pStart = (\<lambda>m. case m of [] \<Rightarrow> None | b # r \<Rightarrow>
          Some (\<lparr> hID = 7, hResponse = (b = 1), hOpCode = 0, hAuthoritative = False, hTruncated = False,
                  hRecursionDesired = True, hRecursionAvailable = False, hRCode = 0 \<rparr>, r)),
       pQuestion = (\<lambda>p. case p of [] \<Rightarrow> None | n # r \<Rightarrow>
          Some (\<lparr> qName = string_of_bytes (take (unat n) r), qType = TypeA, qClass = ClassINET \<rparr>, p)),
       pSkipAllQuestions = (\<lambda>p. case p of [] \<Rightarrow> None | n # r \<Rightarrow> Some (drop (unat n) r)),
       pAnswerHeader = (\<lambda>p. case p of [] \<Rightarrow> None | t # r \<Rightarrow> Some (ucast t, p)),
       pAResource = (\<lambda>p. if length p < 5 then None else Some (take 4 (drop 1 p), drop 5 p)),
       pAAAAResource = (\<lambda>p. if length p < 17 then None else Some (take 16 (drop 1 p), drop 17 p)),
       pSkipAnswer = (\<lambda>p. if p = [] then None else Some (drop 1 p)) \<rparr>"

lemma demoParser_ok: "parser_progress demoParser length" "question_skips demoParser"
  by (auto simp: parser_progress_def question_skips_def demoParser_def split: list.splits if_splits)

subsection \<open>Properties\<close>

text \<open>
  reading the addresses of a response always ends, for every message, given that the
  message library consumes input with each record; every address it returns is valid.
\<close>

theorem dnsAnswerAddrs_terminates:
  assumes "parser_progress P left"
  shows "\<exists>as. dnsAnswerAddrs P msg = Some as \<and> list_all IsValid as"
  using dnsAnswerAddrs_total [OF assms] by blast

theorem dnsAnswerAddrs_terminates_witness:
  "dnsAnswerAddrs demoParser [1, 1, 97, 1, 10, 0, 0, 1, 99, 1, 10, 0, 0, 2] =
     Some [Addr4 0x0A000001, Addr4 0x0A000002] \<and>
   (\<exists>as. dnsAnswerAddrs demoParser [1, 1, 97, 1] = Some as \<and> list_all IsValid as)"
proof -
  have "dnsAnswerAddrs demoParser [1, 1, 97, 1, 10, 0, 0, 1, 99, 1, 10, 0, 0, 2] =
     Some [Addr4 0x0A000001, Addr4 0x0A000002]" by code_simp
  with dnsAnswerAddrs_terminates [OF demoParser_ok(1)] show ?thesis by blast
qed

end
