(* ===== verification/GoNet.thy ===== *)
theory GoNet
  imports GoNetip
begin

text \<open>
  The parts of Go's \<open>net\<close> and \<open>net/netip\<close> that print and split addresses:
  \<open>JoinHostPort\<close>, \<open>SplitHostPort\<close> and the \<open>String\<close> methods.
\<close>

subsection \<open>Host and port\<close>

definition JoinHostPort :: "string \<Rightarrow> string \<Rightarrow> string" where
  "JoinHostPort host port =
     (if CHR '':'' \<in> set host then ''['' @ host @ '']:'' @ port else host @ '':'' @ port)"

text \<open>The checks of \<open>SplitHostPort\<close> in the library's order; every error is \<^const>\<open>None\<close>.\<close>

definition SplitHostPort :: "string \<Rightarrow> (string \<times> string) option" where
  "SplitHostPort hp =
     (case LastIndexByte hp CHR '':'' of
        None \<Rightarrow> None
      | Some i \<Rightarrow>
          if hd hp = CHR ''['' then
            (case IndexByte hp CHR '']'' of
               None \<Rightarrow> None
             | Some e \<Rightarrow>
                 if e + 1 \<noteq> i then None
                 else if CHR ''['' \<in> set (drop 1 hp) then None
                 else if CHR '']'' \<in> set (drop (e + 1) hp) then None
                 else Some (take (e - 1) (drop 1 hp), drop (i + 1) hp))
          else if CHR '':'' \<in> set (take i hp) then None
          else if CHR ''['' \<in> set hp then None
          else if CHR '']'' \<in> set hp then None
          else Some (take i hp, drop (i + 1) hp))"

lemma LastIndexFunc_append_last:
  assumes "\<forall>c \<in> set t. \<not> f c" and "f c"
  shows "LastIndexFunc f (s @ c # t) = Some (length s)"
proof -
  have t: "LastIndexFunc f t = None" using assms(1) by (simp add: LastIndexFunc_None)
  show ?thesis by (induction s) (simp_all add: t assms(2))
qed

lemma IndexByte_append:
  assumes "c \<notin> set s"
  shows "IndexByte (s @ c # t) c = Some (length s)"
  unfolding IndexByte_def using assms by (intro IndexFunc_append_hit) auto

lemma SplitHostPort_Join:
  assumes h: "CHR ''['' \<notin> set host" "CHR '']'' \<notin> set host"
    and p: "CHR ''['' \<notin> set port" "CHR '']'' \<notin> set port" "CHR '':'' \<notin> set port"
  shows "SplitHostPort (JoinHostPort host port) = Some (host, port)"
proof (cases "CHR '':'' \<in> set host")
  case True
  let ?hp = "''['' @ host @ '']:'' @ port"
  have "LastIndexByte ((''['' @ host @ '']'') @ CHR '':'' # port) CHR '':'' = Some (length (''['' @ host @ '']''))"
    unfolding LastIndexByte_def using p(3) by (intro LastIndexFunc_append_last) auto
  then have l: "LastIndexByte ?hp CHR '':'' = Some (length host + 2)" by simp
  have "IndexByte ((''['' @ host) @ CHR '']'' # '':'' @ port) CHR '']'' = Some (length (''['' @ host))"
    using h(2) by (intro IndexByte_append) simp
  then have e: "IndexByte ?hp CHR '']'' = Some (length host + 1)" by simp
  have j: "JoinHostPort host port = ?hp" using True by (simp add: JoinHostPort_def)
  show ?thesis unfolding j SplitHostPort_def l e using h p by simp
next
  case False
  have "LastIndexByte (host @ CHR '':'' # port) CHR '':'' = Some (length host)"
    unfolding LastIndexByte_def using p(3) by (intro LastIndexFunc_append_last) auto
  moreover have "hd (host @ CHR '':'' # port) \<noteq> CHR ''[''" using h(1) by (cases host) auto
  moreover have "JoinHostPort host port = host @ CHR '':'' # port" using False by (simp add: JoinHostPort_def)
  ultimately show ?thesis using False h p by (simp add: SplitHostPort_def)
qed

lemma SplitHostPort_Some:
  assumes "SplitHostPort hp = Some (h, p)"
  shows "CHR ''['' \<notin> set h \<and> CHR '':'' \<notin> set p"
proof -
  obtain i where i: "LastIndexByte hp CHR '':'' = Some i"
    using assms by (auto simp: SplitHostPort_def split: option.splits)
  have p: "p = drop (i + 1) hp" and h: "CHR ''['' \<notin> set h"
    using assms i by (auto simp: SplitHostPort_def split: if_splits option.splits dest: in_set_takeD in_set_dropD)
  have "\<forall>c \<in> set (drop (Suc i) hp). c \<noteq> CHR '':''"
    using LastIndexFunc_Some [of "\<lambda>c. c = CHR '':''" hp i] i by (simp add: LastIndexByte_def)
  with p h show ?thesis by auto
qed

text \<open>\<open>net.ParseIP\<close> accepts the addresses of \<open>netip.ParseAddr\<close> that have no zone.\<close>

definition ParseIP :: "string \<Rightarrow> addr option" where
  "ParseIP s = (case ParseAddr s of Some a \<Rightarrow> if hasZone a then None else Some a | None \<Rightarrow> None)"

subsection \<open>Printing addresses\<close>

definition hex_groups :: "128 word \<Rightarrow> nat list" where
  "hex_groups w = map (\<lambda>i. unat w div 2 ^ (16 * (7 - i)) mod 65536) [0..<8]"

text \<open>The first longest run of at least two zero groups: its start and length.\<close>

definition zero_run :: "nat list \<Rightarrow> nat \<Rightarrow> nat" where
  "zero_run gs i = length (takeWhile (\<lambda>g. g = 0) (drop i gs))"

definition best_run :: "nat list \<Rightarrow> (nat \<times> nat) option" where
  "best_run gs =
     foldl (\<lambda>best i. let n = zero_run gs i in
              if 2 \<le> n \<and> (case best of None \<Rightarrow> True | Some (_, m) \<Rightarrow> m < n) then Some (i, n) else best)
       None [0..<length gs]"

fun join_colon :: "string list \<Rightarrow> string" where
  "join_colon [] = []"
| "join_colon [s] = s"
| "join_colon (s # t # ts) = s @ '':'' @ join_colon (t # ts)"

definition show_ipv6 :: "128 word \<Rightarrow> string" where
  "show_ipv6 w =
     (let gs = hex_groups w; h = (\<lambda>xs. join_colon (map (show_base 16) xs)) in
      case best_run gs of
        None \<Rightarrow> h gs
      | Some (i, n) \<Rightarrow> h (take i gs) @ ''::'' @ h (drop (i + n) gs))"

definition addr_String :: "addr \<Rightarrow> string" where
  "addr_String a =
     (case a of
        AddrNone \<Rightarrow> ''invalid IP''
      | Addr4 w \<Rightarrow> show_ipv4 w
      | Addr6 w z \<Rightarrow>
          (if drop_bit 32 w = 0xFFFF then ''::ffff:'' @ show_ipv4 (ucast w) else show_ipv6 w) @
          (if z = [] then [] else ''%'' @ z))"

definition addrPort_String :: "addr \<Rightarrow> nat \<Rightarrow> string" where
  "addrPort_String a port =
     (case a of
        AddrNone \<Rightarrow> ''invalid AddrPort''
      | Addr4 w \<Rightarrow> show_ipv4 w @ '':'' @ Itoa port
      | Addr6 w z \<Rightarrow> ''['' @ addr_String a @ '']:'' @ Itoa port)"

definition pfx_String :: "pfx \<Rightarrow> string" where
  "pfx_String p =
     (case pfx_bits p of
        None \<Rightarrow> ''invalid Prefix''
      | Some b \<Rightarrow> addr_String (pfx_addr p) @ ''/'' @ Itoa b)"

end
