(* ===== verification/TailnetPath.thy ===== *)
theory TailnetPath
  imports Routing DNSMessage GoNet
begin

text \<open>
  \<open>vpntunnel/tailnetpath.go\<close>: the packet path of the Tailscale mode. A handler takes the
  path's state and returns the new state and the events it causes outside (packets handed to
  Tailscale, to the local network stack or to the provider, queries sent upstream);
  \<^const>\<open>None\<close> is a run-time panic. What the handlers get from outside (message
  library, network stack, capture, upstream servers) is the record \<open>world\<close>.
\<close>

subsection \<open>Definitions: state\<close>

record tailnetNetState =
  st_addrs :: "pfx list"
  st_routes :: "pfx list"
  st_dnsServers :: "addr list"
  st_match :: "string list"
  st_search :: "string list"
  allDomains :: bool

definition routesContain :: "tailnetNetState option \<Rightarrow> addr \<Rightarrow> bool" where
  "routesContain s ip =
     (case s of None \<Rightarrow> False | Some s \<Rightarrow> list_ex (\<lambda>p. PContains p (Unmap ip)) (st_routes s))"

definition isTailnetName :: "tailnetNetState option \<Rightarrow> string \<Rightarrow> bool" where
  "isTailnetName s name =
     (case s of
        None \<Rightarrow> False
      | Some s \<Rightarrow> list_ex (\<lambda>d. d = [] \<or> name = d \<or> HasSuffix name (''.'' @ d)) (st_match s))"

datatype dialer = EgressDown | Socks5 string | Tssh nat

record egressDialers =
  eg_tcp :: dialer
  eg_udp :: "dialer option"
  eg_close :: bool

record tunnelStackCfg =
  blockQUIC :: bool
  dnsViaTCP :: bool

record tailnetPath =
  table :: routeTable
  fake :: fakeIPPool
  directIPs :: recentIPs
  egressOn :: bool
  egress :: "egressDialers option"
  egressQUIC :: bool
  upstream :: "string list"
  outQ :: "(bytes \<times> nat) list"
  backend :: bool
  netState :: "tailnetNetState option"
  dnsSem :: nat
  tp_closed :: bool
  hasTsQuery :: bool
  capturing :: bool
  servesCA :: bool
  linkConns :: int
  linkStack :: bool
  tstack :: "tunnelStackCfg option"
  stackErr :: bool
  unrouted :: nat
  dnsFake :: nat
  dnsFwd :: nat
  dnsFailed :: nat
  bytesIn :: nat
  bytesOut :: nat

definition tailnetDNSInFlight :: nat where "tailnetDNSInFlight = 64"
definition directIPMemory :: nat where "directIPMemory = 4096"
definition fakeIPTTL :: u32 where "fakeIPTTL = 1"
definition tailnetMTU :: nat where "tailnetMTU = 1280"

definition quad100 :: addr where "quad100 = Addr4 0x64646464"
definition quad100v6 :: addr where "quad100v6 = Addr6 0xfd7a115ca1e000000000000000000053 []"
definition caEndpointAddr :: addr where "caEndpointAddr = Addr4 0x0A000001"

record dnsFetch =
  df_query :: bytes
  df_viaSSH :: bool
  df_overTCP :: bool

datatype tnEvent =
    ToTailscale bytes
  | ToStack bytes nat
  | ClaimedByLink bytes
  | ObservedDNS bytes
  | ForwardDNS dnsQuestion ipPacketInfo bytes bool bool
  | AbortFlows
  | RetireStack
  | CloseStack
  | CloseEgress

text \<open>
  The surroundings: the message library, whether a network stack can be built, the packets the
  link claims, whether the link can be set up and dialed, capture's two flags, the answer of one upstream exchange and of Tailscale's
  resolver, and whether the query's context has ended.
\<close>

record ('p, 'b) world =
  w_parser :: "'p dnsParser"
  w_builder :: "'b dnsBuilder"
  w_newStack :: bool
  w_claim :: "bytes \<Rightarrow> bool"
  w_blocking :: bool
  w_servesCA :: bool
  w_hasEnv :: bool
  w_exchange :: "dialer option \<Rightarrow> bool \<Rightarrow> string \<Rightarrow> bytes \<Rightarrow> bytes option"
  w_tsQuery :: "bytes \<Rightarrow> bytes option"
  w_ctxDone :: "string \<Rightarrow> bool"
  w_linkUp :: bool
  w_linkDial :: bool

type_synonym ('a) handled = "('a \<times> tnEvent list) option"

subsection \<open>Definitions: construction and small operations\<close>

definition newUpstream :: "string list \<Rightarrow> string list" where
  "newUpstream servers =
     (let us = List.map_filter (\<lambda>s. map_option (\<lambda>a. addrPort_String a 53) (ParseAddr (TrimSpace s))) servers
      in if us = [] then [''1.1.1.1:53'', ''8.8.8.8:53''] else us)"

definition newTailnetPath ::
  "string \<Rightarrow> string list \<Rightarrow> routingConfigJSON \<Rightarrow> bool \<Rightarrow> tailnetPath" where
  "newTailnetPath socks5Address dnsServers routing tsshEgress =
     (let on = (socks5Address \<noteq> [] \<or> tsshEgress) in
      \<lparr> table = compileRouteTable routing on,
        fake = newFakeIPPool,
        directIPs = newRecentIPs directIPMemory,
        egressOn = on,
        egress = (if socks5Address \<noteq> []
                  then Some \<lparr> eg_tcp = Socks5 socks5Address, eg_udp = None, eg_close = False \<rparr> else None),
        egressQUIC = False,
        upstream = newUpstream dnsServers,
        outQ = [], backend = False, netState = None, dnsSem = 0, tp_closed = False,
        hasTsQuery = False, capturing = False, servesCA = False, linkConns = 0, linkStack = False,
        tstack = None, stackErr = False,
        unrouted = 0, dnsFake = 0, dnsFwd = 0, dnsFailed = 0, bytesIn = 0, bytesOut = 0 \<rparr>)"

definition egressTCP :: "tailnetPath \<Rightarrow> dialer" where
  "egressTCP p = (case egress p of Some e \<Rightarrow> eg_tcp e | None \<Rightarrow> EgressDown)"

definition egressUDP :: "tailnetPath \<Rightarrow> dialer option" where
  "egressUDP p = (case egress p of Some e \<Rightarrow> eg_udp e | None \<Rightarrow> None)"

definition setEgress :: "tailnetPath \<Rightarrow> egressDialers option \<Rightarrow> bool \<Rightarrow> tailnetPath \<times> tnEvent list" where
  "setEgress p e quic =
     (p\<lparr> egressQUIC := quic,
         tstack := map_option (\<lambda>s. s\<lparr>blockQUIC := \<not> quic\<rparr>) (tstack p),
         egress := e \<rparr>,
      (case egress p of Some old \<Rightarrow> if eg_close old then [CloseEgress] else [] | None \<Rightarrow> []))"

definition setState :: "tailnetPath \<Rightarrow> tailnetNetState option \<Rightarrow> tailnetPath" where
  "setState p s = p\<lparr>netState := s\<rparr>"

definition setBackend :: "tailnetPath \<Rightarrow> bool \<Rightarrow> tailnetPath" where
  "setBackend p b = p\<lparr>backend := b\<rparr>"

definition toTailscale :: "tailnetPath \<Rightarrow> bytes \<Rightarrow> tnEvent list" where
  "toTailscale p pkt = (if backend p then [ToTailscale pkt] else [])"

text \<open>\<open>As4\<close> of \<open>quad100\<close> is the array the source compares the header bytes with.\<close>

definition observeQuad100Reply :: "bytes \<Rightarrow> tnEvent list" where
  "observeQuad100Reply pkt =
     (if length pkt < 30 \<or> drop_bit 4 (pkt ! 0) \<noteq> 4 \<or> pkt ! 9 \<noteq> ipProtoUDP \<or>
         Some (slice 12 16 pkt) \<noteq> As4 quad100 then []
      else case parseIPPacket pkt of
             Some info \<Rightarrow>
               if srcPort info = 53
               then [ObservedDNS (case udpPayload info of Some b \<Rightarrow> b | None \<Rightarrow> [])] else []
           | None \<Rightarrow> [])"

text \<open>
  The output channel is a queue; a full channel blocks the sender in the code, and after
  \<open>close\<close> the packet is dropped.
\<close>

definition emit :: "('p, 'b) world \<Rightarrow> tailnetPath \<Rightarrow> bytes \<Rightarrow> tailnetPath \<times> tnEvent list" where
  "emit W p pkt =
     (if 0 < linkConns p \<and> linkStack p \<and> w_claim W pkt then (p, [ClaimedByLink pkt])
      else let obs = (if capturing p then observeQuad100Reply pkt else []);
               family = (if 0 < length pkt \<and> drop_bit 4 (pkt ! 0) = 6 then 30 else 2);
               p1 = p\<lparr>bytesIn := bytesIn p + length pkt\<rparr>
           in (if tp_closed p then p1 else p1\<lparr>outQ := outQ p1 @ [(pkt, family)]\<rparr>, obs))"

definition readPacketNonBlocking :: "tailnetPath \<Rightarrow> (bytes \<times> nat) option \<times> tailnetPath" where
  "readPacketNonBlocking p =
     (case outQ p of e # q \<Rightarrow> (Some e, p\<lparr>outQ := q\<rparr>) | [] \<Rightarrow> (None, p))"

definition ensureStack :: "('p, 'b) world \<Rightarrow> tailnetPath \<Rightarrow> tunnelStackCfg option \<times> tailnetPath" where
  "ensureStack W p =
     (if tstack p \<noteq> None \<or> stackErr p then (tstack p, p)
      else if tp_closed p then (None, p)
      else if \<not> w_newStack W then (None, p\<lparr>stackErr := True\<rparr>)
      else let ts = \<lparr> blockQUIC = (egressOn p \<and> \<not> egressQUIC p),
                      dnsViaTCP = sendAllViaSSH (table p) \<rparr>
           in (Some ts, p\<lparr>tstack := Some ts\<rparr>))"

definition injectStack ::
  "('p, 'b) world \<Rightarrow> tailnetPath \<Rightarrow> bytes \<Rightarrow> nat \<Rightarrow> tailnetPath \<times> tnEvent list" where
  "injectStack W p data family =
     (case ensureStack W p of
        (Some _, p1) \<Rightarrow> (p1, [ToStack data family])
      | (None, p1) \<Rightarrow> (p1, []))"

definition retireStack :: "tailnetPath \<Rightarrow> tailnetPath \<times> tnEvent list" where
  "retireStack p =
     (case tstack p of
        None \<Rightarrow> (p, [])
      | Some _ \<Rightarrow> (p\<lparr>tstack := None, linkStack := False\<rparr>, [RetireStack]))"

definition tp_close :: "tailnetPath \<Rightarrow> tailnetPath \<times> tnEvent list" where
  "tp_close p =
     (p\<lparr>tp_closed := True, tstack := None, egress := None\<rparr>,
      (case tstack p of Some _ \<Rightarrow> [CloseStack] | None \<Rightarrow> []) @
      (case egress p of Some e \<Rightarrow> if eg_close e then [CloseEgress] else [] | None \<Rightarrow> []))"

subsection \<open>Definitions: where a packet goes\<close>

definition toStack :: "tailnetPath \<Rightarrow> addr \<Rightarrow> tailnetNetState option \<Rightarrow> bool" where
  "toStack p dst0 st =
     (let dst = Unmap dst0 in
      if egressOn p \<and> PContains fakeIPPrefix dst then True
      else case matchIP (Some (table p)) dst of
             routeSSH \<Rightarrow> True
           | routeDirect \<Rightarrow> \<not> routesContain st dst
           | routeNone \<Rightarrow>
               if routesContain st dst then False else sendAllViaSSH (table p) \<and> Is4 dst)"

definition captureToStack :: "tailnetPath \<Rightarrow> ipPacketInfo \<Rightarrow> tailnetNetState option \<Rightarrow> bool" where
  "captureToStack p info st =
     (if i_dst info = caEndpointAddr \<and> proto info = ipProtoTCP \<and> dstPort info = 80 \<and> servesCA p then True
      else if \<not> capturing p then False
      else if routesContain st (i_dst info) then proto info = ipProtoTCP
      else True)"

definition refreshCapture :: "('p, 'b) world \<Rightarrow> tailnetPath \<Rightarrow> tailnetPath \<times> tnEvent list" where
  "refreshCapture W p =
     (let p1 = p\<lparr>servesCA := w_servesCA W\<rparr> in
      if capturing p1 \<and> \<not> w_blocking W then
        let p2 = p1\<lparr>capturing := False\<rparr>;
            ev = (if w_hasEnv W then [AbortFlows] else [])
        in if \<not> egressOn p then (case retireStack p2 of (p3, e) \<Rightarrow> (p3, ev @ e)) else (p2, ev)
      else (p1\<lparr>capturing := w_blocking W\<rparr>, []))"

datatype dnsDestination = dnsToTailscale | dnsFakeAnswer | dnsViaSSH | dnsDirect

definition dnsRoute ::
  "tailnetPath \<Rightarrow> dnsQuestion option \<Rightarrow> tailnetNetState option \<Rightarrow> dnsDestination \<times> bool" where
  "dnsRoute p q st =
     (case q of
        None \<Rightarrow> (dnsToTailscale, False)
      | Some q \<Rightarrow>
          if isTailnetName st (qname q) then (dnsToTailscale, False)
          else case matchHost (Some (table p)) (qname q) of
                 routeSSH \<Rightarrow> (dnsFakeAnswer, False)
               | routeDirect \<Rightarrow> (dnsDirect, sendAllViaSSH (table p))
               | routeNone \<Rightarrow>
                   if (case st of Some s \<Rightarrow> allDomains s | None \<Rightarrow> False) then (dnsToTailscale, False)
                   else if sendAllViaSSH (table p) then (dnsViaSSH, False)
                   else (dnsDirect, False))"

text \<open>\<^const>\<open>None\<close> outside is a panic of \<open>assign\<close>, inside a nil message.\<close>

definition fakeAnswer ::
  "('p, 'b) world \<Rightarrow> tailnetPath \<Rightarrow> dnsQuestion \<Rightarrow> (bytes option \<times> tailnetPath) option" where
  "fakeAnswer W p q =
     (let p1 = p\<lparr>dnsFake := dnsFake p + 1\<rparr> in
      if qType (quest q) \<noteq> TypeA then Some (dnsAnswer (w_builder W) q 0 None fakeIPTTL, p1)
      else case pool_assign (fake p1) (qname q) of
             None \<Rightarrow> None
           | Some (a, f) \<Rightarrow>
               Some (dnsAnswer (w_builder W) q 0 (Some a) fakeIPTTL, p1\<lparr>fake := f\<rparr>))"

definition interceptDNSQuery :: "('p, 'b) world \<Rightarrow> bytes \<Rightarrow> bytes option" where
  "interceptDNSQuery W query =
     (if \<not> w_blocking W then None else synthesizeHTTPSNoData (w_parser W) (w_builder W) query)"

definition payloadOf :: "ipPacketInfo \<Rightarrow> bytes" where
  "payloadOf info = (case udpPayload info of Some b \<Rightarrow> b | None \<Rightarrow> [])"

text \<open>The closure \<open>reply\<close> of \<open>handleDNS\<close>.\<close>

definition dnsReply ::
  "('p, 'b) world \<Rightarrow> tailnetPath \<Rightarrow> ipPacketInfo \<Rightarrow> bytes option \<Rightarrow> tailnetPath handled" where
  "dnsReply W p info msg =
     (case msg of
        None \<Rightarrow> Some (p, [])
      | Some m \<Rightarrow>
          (case buildUDPPacket (i_dst info, dstPort info) (i_src info, srcPort info) m of
             None \<Rightarrow> None
           | Some pkt \<Rightarrow> Some (emit W p pkt)))"

text \<open>
  The synchronous part of \<open>forwardDNS\<close>; the goroutine it starts is the event, and
  \<open>forwardDNS_done\<close> is what the goroutine does when the exchange has ended.
\<close>

definition forwardDNS ::
  "tailnetPath \<Rightarrow> dnsQuestion \<Rightarrow> ipPacketInfo \<Rightarrow> bool \<Rightarrow> bool \<Rightarrow> tailnetPath \<times> tnEvent list" where
  "forwardDNS p q info viaSSH remember =
     (if dnsSem p < tailnetDNSInFlight then
        (p\<lparr>dnsSem := dnsSem p + 1, dnsFwd := dnsFwd p + 1\<rparr>,
         [ForwardDNS q info (payloadOf info) viaSSH remember])
      else (p\<lparr>dnsFailed := dnsFailed p + 1\<rparr>, []))"

end
