(* ===== verification/TailnetDNS.thy ===== *)
theory TailnetDNS
  imports TailnetPath
begin

text \<open>
  \<open>vpntunnel/tailnetpath.go\<close>, continued: the handler of one packet from the device, the
  DNS queries it answers or forwards over UDP and TCP, and the invariant of the path.
\<close>

subsection \<open>Definitions: handlers\<close>

definition handleDNS ::
  "('p, 'b) world \<Rightarrow> tailnetPath \<Rightarrow> ipPacketInfo \<Rightarrow> bytes \<Rightarrow> tailnetNetState option \<Rightarrow> tailnetPath handled" where
  "handleDNS W p info pkt st =
     (let intercepted = (if capturing p then interceptDNSQuery W (payloadOf info) else None) in
      case intercepted of
        Some answer \<Rightarrow> dnsReply W p info (Some answer)
      | None \<Rightarrow>
          let q = parseDNSQuery (w_parser W) (payloadOf info);
              (route, remember) = dnsRoute p q st
          in case (route, q) of
               (dnsToTailscale, _) \<Rightarrow> Some (p, toTailscale p pkt)
             | (dnsFakeAnswer, Some q) \<Rightarrow>
                 (case fakeAnswer W p q of
                    None \<Rightarrow> None
                  | Some (msg, p1) \<Rightarrow> dnsReply W p1 info msg)
             | (dnsViaSSH, Some q) \<Rightarrow> Some (forwardDNS p q info True False)
             | (_, Some q) \<Rightarrow> Some (forwardDNS p q info False remember)
             | (_, None) \<Rightarrow> Some (p, toTailscale p pkt))"

definition injectPacket ::
  "('p, 'b) world \<Rightarrow> tailnetPath \<Rightarrow> bytes \<Rightarrow> nat \<Rightarrow> tailnetPath handled" where
  "injectPacket W p data family =
     (case parseIPPacket data of
        None \<Rightarrow> Some (p, [])
      | Some info \<Rightarrow>
          let st = netState p in
          if proto info = ipProtoUDP \<and> dstPort info = 53 \<and>
             (i_dst info = quad100 \<or> i_dst info = quad100v6)
          then handleDNS W (p\<lparr>bytesOut := bytesOut p + length data\<rparr>) info data st
          else if egressOn p \<and> proto info = ipProtoTCP \<and> dstPort info = 53 \<and> i_dst info = quad100
          then Some (injectStack W p data family)
          else if toStack p (i_dst info) st \<or> captureToStack p info st
          then Some (injectStack W p data family)
          else if routesContain st (i_dst info)
          then Some (p\<lparr>bytesOut := bytesOut p + length data\<rparr>, toTailscale p data)
          else Some (p\<lparr>unrouted := unrouted p + 1\<rparr>, []))"

text \<open>The servers in order; the first answer wins, and an ended context stops the search.\<close>

fun exchange_loop ::
  "('p, 'b) world \<Rightarrow> tailnetPath \<Rightarrow> bytes \<Rightarrow> bool \<Rightarrow> bool \<Rightarrow> string list \<Rightarrow> bytes option" where
  "exchange_loop W p query viaSSH overTCP [] = None"
| "exchange_loop W p query viaSSH overTCP (server # rest) =
     (let resp = (if viaSSH then w_exchange W (Some (egressTCP p)) True server query
                  else if overTCP then w_exchange W None True server query
                  else w_exchange W None False server query)
      in case resp of
           Some r \<Rightarrow> Some r
         | None \<Rightarrow> if w_ctxDone W server then None
                   else exchange_loop W p query viaSSH overTCP rest)"

definition exchangeDNS ::
  "('p, 'b) world \<Rightarrow> tailnetPath \<Rightarrow> bytes \<Rightarrow> bool \<Rightarrow> bool \<Rightarrow> bytes option" where
  "exchangeDNS W p query viaSSH overTCP = exchange_loop W p query viaSSH overTCP (upstream p)"

definition exchangeTailscale :: "('p, 'b) world \<Rightarrow> tailnetPath \<Rightarrow> bytes \<Rightarrow> bytes option" where
  "exchangeTailscale W p query = (if hasTsQuery p then w_tsQuery W query else None)"

text \<open>
  \<open>dnsExchangeUDP\<close> after the query is sent: the datagrams the socket delivers before its
  read fails, of which the first with the query's transaction id is the answer.
\<close>

fun udp_answer :: "bytes \<Rightarrow> bytes list \<Rightarrow> bytes option" where
  "udp_answer query [] = None"
| "udp_answer query (d # ds) =
     (if 2 \<le> length d \<and> 2 \<le> length query \<and> d ! 0 = query ! 0 \<and> d ! 1 = query ! 1
      then Some d else udp_answer query ds)"

text \<open>The loop that records the answers as direct destinations.\<close>

definition rememberAnswers :: "('p, 'b) world \<Rightarrow> tailnetPath \<Rightarrow> bytes \<Rightarrow> tailnetPath option" where
  "rememberAnswers W p resp =
     (case dnsAnswerAddrs (w_parser W) resp of
        None \<Rightarrow> None
      | Some as \<Rightarrow> map_option (\<lambda>l. p\<lparr>directIPs := l\<rparr>) (recent_run (directIPs p) as))"

text \<open>What the goroutine of \<open>forwardDNS\<close> does once its exchange has ended with \<open>resp\<close>.\<close>

definition forwardDNS_done ::
  "('p, 'b) world \<Rightarrow> tailnetPath \<Rightarrow> dnsQuestion \<Rightarrow> ipPacketInfo \<Rightarrow> bool \<Rightarrow> bytes option \<Rightarrow> tailnetPath handled" where
  "forwardDNS_done W p q info remember resp =
     (let p1 = p\<lparr>dnsSem := dnsSem p - 1\<rparr> in
      case resp of
        None \<Rightarrow>
          dnsReply W (p1\<lparr>dnsFailed := dnsFailed p1 + 1\<rparr>) info (dnsAnswer (w_builder W) q 2 None 0)
      | Some r \<Rightarrow>
          (case (if remember then rememberAnswers W p1 r else Some p1) of
             None \<Rightarrow> None
           | Some p2 \<Rightarrow> dnsReply W p2 info (Some r)))"

text \<open>The two tails of \<open>resolveDNS\<close>: a failed exchange, and the upstream servers.\<close>

definition resolveFailed ::
  "('p, 'b) world \<Rightarrow> tailnetPath \<Rightarrow> dnsQuestion option \<Rightarrow> bytes option \<times> tailnetPath" where
  "resolveFailed W p q =
     ((case q of None \<Rightarrow> None | Some q \<Rightarrow> dnsAnswer (w_builder W) q 2 None 0),
      p\<lparr>dnsFailed := dnsFailed p + 1\<rparr>)"

definition resolveUpstream ::
  "('p, 'b) world \<Rightarrow> tailnetPath \<Rightarrow> bytes \<Rightarrow> dnsQuestion option \<Rightarrow> bool \<Rightarrow> bool \<Rightarrow>
     (bytes option \<times> tailnetPath) option" where
  "resolveUpstream W p query q viaSSH remember =
     (let p1 = p\<lparr>dnsFwd := dnsFwd p + 1\<rparr> in
      case exchangeDNS W p1 query viaSSH True of
        Some r \<Rightarrow>
          if remember then map_option (\<lambda>p2. (Some r, p2)) (rememberAnswers W p1 r)
          else Some (Some r, p1)
      | None \<Rightarrow> Some (resolveFailed W p1 q))"

definition resolveDNS ::
  "('p, 'b) world \<Rightarrow> tailnetPath \<Rightarrow> bytes \<Rightarrow> (bytes option \<times> tailnetPath) option" where
  "resolveDNS W p query =
     (let intercepted = (if capturing p then interceptDNSQuery W query else None) in
      case intercepted of
        Some answer \<Rightarrow> Some (Some answer, p)
      | None \<Rightarrow>
          let q = parseDNSQuery (w_parser W) query;
              (route, remember) = dnsRoute p q (netState p)
          in case (route, q) of
               (dnsFakeAnswer, Some q) \<Rightarrow> fakeAnswer W p q
             | (dnsToTailscale, _) \<Rightarrow>
                 (case exchangeTailscale W p query of
                    Some r \<Rightarrow> Some (Some r, p)
                  | None \<Rightarrow> Some (resolveFailed W p q))
             | _ \<Rightarrow> resolveUpstream W p query q (route = dnsViaSSH) remember)"

text \<open>
  \<open>serveDNSOverTCP\<close>: the bytes the client sends, as a whole, and the bytes it gets back. A
  frame that is cut short, a nil answer and a full stop of the input all end the loop.
\<close>

function serveDNS :: "('p, 'b) world \<Rightarrow> tailnetPath \<Rightarrow> bytes \<Rightarrow> (bytes \<times> tailnetPath) option" where
  "serveDNS W p input =
     (if length input < 2 then Some ([], p)
      else let n = be_nat (take 2 input); rest = drop 2 input in
        if length rest < n then Some ([], p)
        else case resolveDNS W p (take n rest) of
               None \<Rightarrow> None
             | Some (None, p1) \<Rightarrow> Some ([], p1)
             | Some (Some resp, p1) \<Rightarrow>
                 map_option (\<lambda>(out, p2). (put16 (of_nat (length resp)) @ resp @ out, p2))
                   (serveDNS W p1 (drop n rest)))"
  by pat_completeness auto
termination
  by (relation "measure (\<lambda>(W, p, input). length input)") auto

declare serveDNS.simps [simp del]

subsection \<open>The invariant\<close>

text \<open>
  Both address memories are well formed, the table is compiled for the configured egress, and
  the queries in flight never exceed their bound.
\<close>

definition path_inv :: "tailnetPath \<Rightarrow> bool" where
  "path_inv p \<longleftrightarrow>
     pool_inv (fake p) \<and> recent_inv (directIPs p) \<and> table_wf (table p) \<and>
     sshEnabled (table p) = egressOn p \<and> dnsSem p \<le> tailnetDNSInFlight"

lemma path_inv_new: "path_inv (newTailnetPath socks servers routing tssh)"
  by (simp add: path_inv_def newTailnetPath_def Let_def pool_inv_new recent_inv_new table_wf_compile
      directIPMemory_def) (simp add: compileRouteTable_def)

text \<open>A field that the invariant does not read may change.\<close>

definition same_core :: "tailnetPath \<Rightarrow> tailnetPath \<Rightarrow> bool" where
  "same_core p p' \<longleftrightarrow>
     fake p' = fake p \<and> directIPs p' = directIPs p \<and> table p' = table p \<and>
     egressOn p' = egressOn p \<and> dnsSem p' = dnsSem p"

lemma path_inv_core: "path_inv p \<Longrightarrow> same_core p p' \<Longrightarrow> path_inv p'"
  by (simp add: path_inv_def same_core_def)

lemma same_core_refl [simp]: "same_core p p"
  by (simp add: same_core_def)

lemma same_core_emit: "same_core p (fst (emit W p pkt))"
  by (auto simp: same_core_def emit_def Let_def)

lemma same_core_ensureStack: "same_core p (snd (ensureStack W p))"
  by (auto simp: same_core_def ensureStack_def Let_def)

lemma same_core_injectStack: "same_core p (fst (injectStack W p d f))"
  using same_core_ensureStack [of p W]
  by (auto simp: injectStack_def split: prod.splits option.splits)

lemma same_core_setters:
  "same_core p (fst (setEgress p e quic))" "same_core p (setState p s)" "same_core p (setBackend p b)"
  "same_core p (fst (retireStack p))" "same_core p (fst (tp_close p))" "same_core p (fst (refreshCapture W p))"
  by (auto simp: same_core_def setEgress_def setState_def setBackend_def retireStack_def tp_close_def
      refreshCapture_def Let_def split: option.splits)

lemma path_inv_forwardDNS: "path_inv p \<Longrightarrow> path_inv (fst (forwardDNS p q info v r))"
  by (auto simp: path_inv_def forwardDNS_def)

text \<open>A reply to a parsed packet can always be built: its addresses are of one family.\<close>

lemma parseIPPacket_family:
  assumes "parseIPPacket pkt = Some info"
  shows "Is4 (i_src info) = Is4 (i_dst info)" and "IsValid (i_dst info)"
  using assms
  by (auto simp: parseIPPacket_def readPorts_def Let_def AddrFrom4_def AddrFrom16_def split: if_splits)

lemma dnsReply_total:
  assumes "Is4 (i_src info) = Is4 (i_dst info)"
  shows "\<exists>p' ev. dnsReply W p info msg = Some (p', ev) \<and> same_core p p'"
proof (cases msg)
  case (Some m)
  have "\<exists>pkt. buildUDPPacket (i_dst info, dstPort info) (i_src info, srcPort info) m = Some pkt"
    using assms by (auto simp: buildUDPPacket_def Let_def Is4_conv As4_def split: option.splits)
  then obtain pkt where "buildUDPPacket (i_dst info, dstPort info) (i_src info, srcPort info) m = Some pkt" by blast
  with Some same_core_emit [of p W pkt] show ?thesis by (cases "emit W p pkt") (simp add: dnsReply_def)
qed (simp add: dnsReply_def)

lemma matchHost_nonempty: "matchHost t h \<noteq> routeNone \<Longrightarrow> h \<noteq> []"
  by (auto simp: matchHost_def split: option.splits)

lemma dnsRoute_fake:
  assumes "dnsRoute p q st = (dnsFakeAnswer, r)"
  obtains q' where "q = Some q'" "matchHost (Some (table p)) (qname q') = routeSSH" "qname q' \<noteq> []"
  using assms matchHost_nonempty [of "Some (table p)"]
  by (auto simp: dnsRoute_def split: option.splits if_splits routeAction.splits)

lemma fakeAnswer_total:
  assumes "path_inv p" and "qname q \<noteq> []"
  shows "\<exists>msg p'. fakeAnswer W p q = Some (msg, p') \<and> path_inv p'"
proof (cases "qType (quest q) = TypeA")
  case True
  have "pool_inv (fake p)" using assms(1) by (simp add: path_inv_def)
  then obtain a f where "pool_assign (fake p) (qname q) = Some (a, f)" "pool_inv f"
    using pool_assign_ok [OF _ assms(2)] by metis
  with True assms(1) show ?thesis by (simp add: fakeAnswer_def path_inv_def)
qed (use assms(1) in \<open>simp add: fakeAnswer_def path_inv_def\<close>)

lemma handleDNS_total:
  assumes p: "path_inv p" and f: "Is4 (i_src info) = Is4 (i_dst info)"
  shows "\<exists>p' ev. handleDNS W p info pkt st = Some (p', ev) \<and> path_inv p'"
proof (cases "if capturing p then interceptDNSQuery W (payloadOf info) else None")
  case (Some answer)
  then have "handleDNS W p info pkt st = dnsReply W p info (Some answer)" by (simp add: handleDNS_def)
  with dnsReply_total [OF f] path_inv_core [OF p] show ?thesis by metis
next
  case None
  let ?q = "parseDNSQuery (w_parser W) (payloadOf info)"
  obtain route r where rt: "dnsRoute p ?q st = (route, r)" by (cases "dnsRoute p ?q st")
  show ?thesis
  proof (cases "route = dnsFakeAnswer")
    case True
    then obtain q where q: "?q = Some q" "qname q \<noteq> []" using dnsRoute_fake rt by metis
    obtain msg p1 where m: "fakeAnswer W p q = Some (msg, p1)" "path_inv p1"
      using fakeAnswer_total [OF p q(2)] by blast
    have "handleDNS W p info pkt st = dnsReply W p1 info msg"
      using None True q(1) m(1) rt by (simp add: handleDNS_def)
    with dnsReply_total [OF f] path_inv_core [OF m(2)] show ?thesis by metis
  next
    case False
    have fw: "\<exists>p' ev. forwardDNS p q info v m = (p', ev) \<and> path_inv p'" for q v m
      using path_inv_forwardDNS [OF p] by (metis surjective_pairing)
    from False None rt p fw show ?thesis
      by (cases route; cases ?q) (auto simp: handleDNS_def)
  qed
qed

lemma injectPacket_total:
  assumes "path_inv p"
  shows "\<exists>p' ev. injectPacket W p data family = Some (p', ev) \<and> path_inv p'"
proof (cases "parseIPPacket data")
  case (Some info)
  have b: "path_inv (p\<lparr>bytesOut := n\<rparr>)" "path_inv (p\<lparr>unrouted := n\<rparr>)" for n
    using assms by (simp_all add: path_inv_def)
  have s: "\<exists>p' ev. injectStack W p data family = (p', ev) \<and> path_inv p'"
    using path_inv_core [OF assms same_core_injectStack] by (metis surjective_pairing)
  show ?thesis
    using Some b s handleDNS_total [OF b(1) parseIPPacket_family(1) [OF Some]]
    by (auto simp: injectPacket_def Let_def)
qed (use assms in \<open>simp add: injectPacket_def\<close>)

subsection \<open>Queries over TCP and in flight\<close>

lemma rememberAnswers_total:
  assumes "path_inv p" and "parser_progress (w_parser W) left"
  shows "\<exists>p'. rememberAnswers W p r = Some p' \<and> path_inv p'"
proof -
  obtain as where as: "dnsAnswerAddrs (w_parser W) r = Some as" "list_all IsValid as"
    using dnsAnswerAddrs_total [OF assms(2)] .
  have ri: "recent_inv (directIPs p)" using assms(1) by (simp add: path_inv_def)
  have "recent_inv (foldl recent_insert (directIPs p) (map Unmap as))"
    using as(2) by (intro recent.inv_inserts ri) (auto simp: list_all_iff)
  then have "recent_inv (foldl recent_insert (directIPs p) as)"
    by (simp add: recent_inserts_Unmap [symmetric])
  with as recent_run_insert [OF ri as(2)] assms(1) show ?thesis
    by (simp add: rememberAnswers_def path_inv_def)
qed

lemma forwardDNS_done_total:
  assumes p: "path_inv p" and w: "parser_progress (w_parser W) left"
    and f: "Is4 (i_src info) = Is4 (i_dst info)"
  shows "\<exists>p' ev. forwardDNS_done W p q info rem resp = Some (p', ev) \<and> path_inv p'"
proof -
  let ?p = "p\<lparr>dnsSem := dnsSem p - 1\<rparr>"
  have p1: "path_inv ?p" "path_inv (?p\<lparr>dnsFailed := n\<rparr>)" for n using p by (auto simp: path_inv_def)
  show ?thesis
  proof (cases resp)
    case None
    then have "forwardDNS_done W p q info rem resp =
        dnsReply W (?p\<lparr>dnsFailed := dnsFailed ?p + 1\<rparr>) info (dnsAnswer (w_builder W) q 2 None 0)"
      by (simp add: forwardDNS_done_def)
    with dnsReply_total [OF f] path_inv_core [OF p1(2)] show ?thesis by metis
  next
    case (Some r)
    obtain p2 where "(if rem then rememberAnswers W ?p r else Some ?p) = Some p2" "path_inv p2"
      using rememberAnswers_total [OF p1(1) w] p1(1) by metis
    then have "forwardDNS_done W p q info rem resp = dnsReply W p2 info (Some r)" and "path_inv p2"
      using Some by (simp_all add: forwardDNS_done_def Let_def split: if_splits)
    with dnsReply_total [OF f] path_inv_core show ?thesis by metis
  qed
qed

lemma path_inv_resolveFailed: "path_inv p \<Longrightarrow> path_inv (snd (resolveFailed W p q))"
  by (simp add: resolveFailed_def path_inv_def)

lemma resolveUpstream_total:
  assumes p: "path_inv p" and w: "parser_progress (w_parser W) left"
  shows "\<exists>m p'. resolveUpstream W p query q v r = Some (m, p') \<and> path_inv p'"
proof -
  let ?p = "p\<lparr>dnsFwd := dnsFwd p + 1\<rparr>"
  have p1: "path_inv ?p" using p by (simp add: path_inv_def)
  show ?thesis
  proof (cases "exchangeDNS W ?p query v True")
    case None
    with path_inv_resolveFailed [OF p1, of W q] show ?thesis
      by (cases "resolveFailed W ?p q") (simp add: resolveUpstream_def)
  next
    case (Some x)
    obtain p2 where "rememberAnswers W ?p x = Some p2" "path_inv p2"
      using rememberAnswers_total [OF p1 w] by blast
    with Some p1 show ?thesis by (simp add: resolveUpstream_def Let_def)
  qed
qed

lemma resolveDNS_total:
  assumes p: "path_inv p" and w: "parser_progress (w_parser W) left"
  shows "\<exists>m p'. resolveDNS W p query = Some (m, p') \<and> path_inv p'"
proof (cases "if capturing p then interceptDNSQuery W query else None")
  case (Some answer)
  with p show ?thesis by (simp add: resolveDNS_def)
next
  case None
  let ?q = "parseDNSQuery (w_parser W) query"
  obtain route r where rt: "dnsRoute p ?q (netState p) = (route, r)" by (cases "dnsRoute p ?q (netState p)")
  have eq: "resolveDNS W p query =
      (case (route, ?q) of
         (dnsFakeAnswer, Some q) \<Rightarrow> fakeAnswer W p q
       | (dnsToTailscale, _) \<Rightarrow>
           (case exchangeTailscale W p query of
              Some r \<Rightarrow> Some (Some r, p) | None \<Rightarrow> Some (resolveFailed W p ?q))
       | _ \<Rightarrow> resolveUpstream W p query ?q (route = dnsViaSSH) r)"
    using None rt by (simp add: resolveDNS_def Let_def split: dnsDestination.splits option.splits)
  have f: "\<exists>m p'. Some (resolveFailed W p ?q) = Some (m, p') \<and> path_inv p'"
    using path_inv_resolveFailed [OF p] by (metis surjective_pairing)
  show ?thesis
  proof (cases "route = dnsFakeAnswer")
    case True
    then obtain q where q: "?q = Some q" "qname q \<noteq> []" using dnsRoute_fake rt by metis
    with eq True fakeAnswer_total [OF p q(2)] show ?thesis by simp
  next
    case False
    then show ?thesis
      unfolding eq using f p resolveUpstream_total [OF p w]
      by (cases route; cases "exchangeTailscale W p query"; cases ?q) simp_all
  qed
qed

lemma serveDNS_total:
  assumes "path_inv p" and w: "parser_progress (w_parser W) left"
  shows "\<exists>out p'. serveDNS W p input = Some (out, p') \<and> path_inv p'"
  using assms(1)
proof (induction "length input" arbitrary: p input rule: less_induct)
  case less
  show ?case
  proof (cases "length input < 2 \<or> length (drop 2 input) < be_nat (take 2 input)")
    case True
    with less.prems show ?thesis by (auto simp: serveDNS.simps [of W p] Let_def)
  next
    case False
    let ?n = "be_nat (take 2 input)" and ?rest = "drop 2 input"
    obtain m p1 where m: "resolveDNS W p (take ?n ?rest) = Some (m, p1)" "path_inv p1"
      using resolveDNS_total [OF less.prems w] by blast
    show ?thesis
    proof (cases m)
      case None
      with False m show ?thesis by (simp add: serveDNS.simps [of W p] Let_def)
    next
      case (Some resp)
      have "length (drop ?n ?rest) < length input" using False unfolding length_drop by linarith
      from less.hyps [OF this m(2)] obtain out p2
        where "serveDNS W p1 (drop ?n ?rest) = Some (out, p2)" "path_inv p2" by blast
      with False m Some show ?thesis by (simp add: serveDNS.simps [of W p] Let_def)
    qed
  qed
qed

end
