(* ===== verification/TailnetDial.thy ===== *)
theory TailnetDial
  imports TailnetDNS
begin

text \<open>
  \<open>vpntunnel/tailnetpath.go\<close>, continued: the egress of every flow the local network stack
  terminates, the network settings for the operating system, and the properties of the path
  as a whole. A dial is the request it makes of a dialer.
\<close>

subsection \<open>Definitions: egress\<close>

datatype egressKind = egressDirect | egressSSH | egressTailnet

definition viaSSH :: "tailnetPath \<Rightarrow> addr \<Rightarrow> bool" where
  "viaSSH p ip =
     (if \<not> egressOn p then False
      else case matchIP (Some (table p)) ip of
             routeSSH \<Rightarrow> True
           | routeDirect \<Rightarrow> False
           | routeNone \<Rightarrow> sendAllViaSSH (table p) \<and> \<not> recent_contains (directIPs p) ip)"

definition egressFor :: "tailnetPath \<Rightarrow> addr \<Rightarrow> egressKind" where
  "egressFor p ip =
     (if egressOn p \<and> matchIP (Some (table p)) ip = routeSSH then egressSSH
      else if routesContain (netState p) ip then egressTailnet
      else if viaSSH p ip then egressSSH
      else egressDirect)"

datatype dialReq =
    DialEgress dialer string
  | DialDirect string
  | DialTailnet addr nat
  | ServeDNSOverTCP
  | DialErr

definition DialTCP :: "tailnetPath \<Rightarrow> string \<Rightarrow> dialReq" where
  "DialTCP p addr =
     (case SplitHostPort addr of
        None \<Rightarrow> DialErr
      | Some (host, port) \<Rightarrow>
          (case ParseAddr host of
             None \<Rightarrow> DialErr
           | Some ip \<Rightarrow>
               if ip = quad100 \<and> port = ''53'' then ServeDNSOverTCP
               else case pool_host (fake p) ip of
                      Some name \<Rightarrow>
                        if \<not> egressOn p then DialErr
                        else DialEgress (egressTCP p) (JoinHostPort name port)
                    | None \<Rightarrow>
                        (case egressFor p ip of
                           egressSSH \<Rightarrow> DialEgress (egressTCP p) addr
                         | egressTailnet \<Rightarrow>
                             (case ParseUint port 10 16 of
                                None \<Rightarrow> DialErr
                              | Some n \<Rightarrow> DialTailnet ip n)
                         | egressDirect \<Rightarrow> DialDirect addr)))"

definition DialUDP :: "tailnetPath \<Rightarrow> string \<Rightarrow> dialReq" where
  "DialUDP p addr =
     (case SplitHostPort addr of
        None \<Rightarrow> DialErr
      | Some (host, port) \<Rightarrow>
          (case ParseAddr host of
             None \<Rightarrow> DialErr
           | Some ip \<Rightarrow>
               (case pool_host (fake p) ip of
                  Some name \<Rightarrow>
                    (case egressUDP p of
                       Some u \<Rightarrow> DialEgress u (JoinHostPort name port)
                     | None \<Rightarrow> DialErr)
                | None \<Rightarrow>
                    (case egressFor p ip of
                       egressSSH \<Rightarrow>
                         (case egressUDP p of Some u \<Rightarrow> DialEgress u addr | None \<Rightarrow> DialErr)
                     | egressTailnet \<Rightarrow> DialErr
                     | egressDirect \<Rightarrow> DialDirect addr))))"

definition dialsIPv6 :: "tailnetPath \<Rightarrow> string \<Rightarrow> bool" where
  "dialsIPv6 p host =
     (case ParseAddr host of
        None \<Rightarrow> False
      | Some ip \<Rightarrow>
          if pool_host (fake p) ip \<noteq> None then False else egressFor p ip \<noteq> egressSSH)"

text \<open>\<open>dialTailnet\<close>: the source address of the destination's family, and the count of links.\<close>

definition tailnetSource :: "tailnetNetState \<Rightarrow> addr \<Rightarrow> addr option" where
  "tailnetSource st dst =
     map_option pfx_addr (find (\<lambda>a. IsValid (pfx_addr a) \<and> Is4 (pfx_addr a) = Is4 dst) (st_addrs st))"

definition dialTailnet ::
  "('p, 'b) world \<Rightarrow> tailnetPath \<Rightarrow> addr \<Rightarrow> (addr option) \<times> tailnetPath" where
  "dialTailnet W p dst =
     (case netState p of
        None \<Rightarrow> (None, p)
      | Some st \<Rightarrow>
          (case tailnetSource st dst of
             None \<Rightarrow> (None, p)
           | Some src \<Rightarrow>
               (case ensureStack W p of
                  (None, p1) \<Rightarrow> (None, p1)
                | (Some _, p1) \<Rightarrow>
                    if \<not> w_linkUp W then (None, p1)
                    else let p2 = p1\<lparr>linkStack := True, linkConns := linkConns p1 + 1\<rparr>
                         in if w_linkDial W then (Some src, p2)
                            else (None, p2\<lparr>linkConns := linkConns p2 - 1\<rparr>))))"

text \<open>\<open>linkConn.Close\<close>, which runs its callback once.\<close>

definition linkClose :: "tailnetPath \<Rightarrow> bool \<Rightarrow> tailnetPath \<times> bool" where
  "linkClose p closed = (if closed then (p, True) else (p\<lparr>linkConns := linkConns p - 1\<rparr>, True))"

subsection \<open>Definitions: network settings\<close>

record tunnelNetworkSettings =
  IPv4Addresses :: "string list"
  IPv4Routes :: "string list"
  IPv4Excluded :: "string list"
  IPv6Addresses :: "string list"
  IPv6Routes :: "string list"
  DNSServers :: "string list"
  MatchDomains :: "string list"
  SearchDomains :: "string list"
  FullTunnel :: bool
  MTU :: nat

definition add_new :: "'a \<Rightarrow> 'a list \<Rightarrow> 'a list" where
  "add_new v xs = (if v \<in> set xs then xs else xs @ [v])"

definition addRoute :: "tunnelNetworkSettings \<Rightarrow> pfx \<Rightarrow> tunnelNetworkSettings" where
  "addRoute s p =
     (if Is4 (pfx_addr p) then s\<lparr>IPv4Routes := add_new (pfx_String p) (IPv4Routes s)\<rparr>
      else s\<lparr>IPv6Routes := add_new (pfx_String p) (IPv6Routes s)\<rparr>)"

definition addAddress :: "tunnelNetworkSettings \<Rightarrow> pfx \<Rightarrow> tunnelNetworkSettings" where
  "addAddress s a =
     (if Is4 (pfx_addr a) then s\<lparr>IPv4Addresses := add_new (addr_String (pfx_addr a)) (IPv4Addresses s)\<rparr>
      else s\<lparr>IPv6Addresses := add_new (addr_String (pfx_addr a)) (IPv6Addresses s)\<rparr>)"

definition baseSettings :: "tailnetPath \<Rightarrow> tunnelNetworkSettings" where
  "baseSettings p =
     (let s0 = \<lparr> IPv4Addresses = [], IPv4Routes = [], IPv4Excluded = [], IPv6Addresses = [],
                 IPv6Routes = [], DNSServers = [], MatchDomains = [], SearchDomains = [],
                 FullTunnel = sendAllViaSSH (table p), MTU = tailnetMTU \<rparr>;
          s1 = (case netState p of
                  None \<Rightarrow> s0
                | Some st \<Rightarrow> foldl addRoute (foldl addAddress s0 (st_addrs st)) (st_routes st))
      in if IPv4Addresses s1 = [] then s1\<lparr>IPv4Addresses := [''10.0.0.2'']\<rparr> else s1)"

text \<open>The SSH prefixes and the fake range; then the full tunnel with its exclusions.\<close>

definition sshSettings :: "tailnetPath \<Rightarrow> tunnelNetworkSettings \<Rightarrow> tunnelNetworkSettings" where
  "sshSettings p s =
     (if egressOn p then
        let s1 = foldl addRoute s (prefixes (Some (table p)) routeSSH)
        in if dnsDomains (Some (table p)) routeSSH \<noteq> [] then addRoute s1 fakeIPPrefix else s1
      else s)"

definition fullSettings ::
  "tailnetPath \<Rightarrow> tailnetNetState \<Rightarrow> tunnelNetworkSettings \<Rightarrow> tunnelNetworkSettings" where
  "fullSettings p st s =
     (if FullTunnel s then
        s\<lparr> IPv4Routes := [''0.0.0.0/0''],
           IPv4Excluded :=
             foldl (\<lambda>xs pf. if Is4 (pfx_addr pf) \<and> \<not> list_ex (Overlaps pf) (st_routes st)
                            then add_new (pfx_String pf) xs else xs)
               (IPv4Excluded s) (directExclusions (Some (table p))) \<rparr>
      else s)"

definition captureSettings :: "tailnetPath \<Rightarrow> tunnelNetworkSettings \<Rightarrow> tunnelNetworkSettings" where
  "captureSettings p s =
     (let s1 = (if servesCA p then addRoute s (PrefixFrom caEndpointAddr 32) else s)
      in if capturing p
         then s1\<lparr> IPv4Routes := [''0.0.0.0/0''], IPv4Excluded := [],
                  IPv6Routes := (if IPv6Addresses s1 \<noteq> [] then [''::/0''] else IPv6Routes s1) \<rparr>
         else s1)"

definition dnsSettings ::
  "tailnetPath \<Rightarrow> tailnetNetState \<Rightarrow> tunnelNetworkSettings \<Rightarrow> tunnelNetworkSettings" where
  "dnsSettings p st s =
     (let m0 = foldl (\<lambda>m d. add_new d m) (st_match st) (dnsDomains (Some (table p)) routeSSH);
          m = (if FullTunnel s \<or> capturing p \<or> allDomains st \<or> [] \<in> set m0 then [[]] else m0)
      in if m \<noteq> []
         then s\<lparr>DNSServers := [addr_String quad100], MatchDomains := m, SearchDomains := st_search st\<rparr>
         else s)"

definition networkSettings :: "tailnetPath \<Rightarrow> tunnelNetworkSettings" where
  "networkSettings p =
     (let s = baseSettings p in
      case netState p of
        None \<Rightarrow> s\<lparr>IPv4Routes := [], IPv6Routes := [], FullTunnel := False\<rparr>
      | Some st \<Rightarrow>
          if st_addrs st = [] then s\<lparr>IPv4Routes := [], IPv6Routes := [], FullTunnel := False\<rparr>
          else dnsSettings p st (captureSettings p (fullSettings p st (sshSettings p s))))"

text \<open>\<open>statsSnapshot\<close>: unrouted, fake, forwarded and failed counts, and whether a stack runs.\<close>

definition statsSnapshot :: "tailnetPath \<Rightarrow> nat \<times> nat \<times> nat \<times> nat \<times> bool" where
  "statsSnapshot p = (unrouted p, dnsFake p, dnsFwd p, dnsFailed p, tstack p \<noteq> None)"

subsection \<open>Reachable states\<close>

text \<open>
  The operations of the path in any order, each in any of the surroundings \<open>S\<close>. A forwarded
  query ends only while one is in flight, and its packet was parsed by the path.
\<close>

inductive reachable :: "('p, 'b) world set \<Rightarrow> tailnetPath \<Rightarrow> bool" for S where
  start: "reachable S (newTailnetPath socks servers routing tssh)"
| packet: "reachable S p \<Longrightarrow> W \<in> S \<Longrightarrow> injectPacket W p data family = Some (p', ev) \<Longrightarrow> reachable S p'"
| answered: "reachable S p \<Longrightarrow> W \<in> S \<Longrightarrow> parseIPPacket pkt = Some info \<Longrightarrow>
    forwardDNS_done W p q info rem resp = Some (p', ev) \<Longrightarrow> reachable S p'"
| served: "reachable S p \<Longrightarrow> W \<in> S \<Longrightarrow> serveDNS W p input = Some (out, p') \<Longrightarrow> reachable S p'"
| egress: "reachable S p \<Longrightarrow> reachable S (fst (setEgress p e quic))"
| state: "reachable S p \<Longrightarrow> reachable S (setState p st)"
| backend: "reachable S p \<Longrightarrow> reachable S (setBackend p b)"
| capture: "reachable S p \<Longrightarrow> W \<in> S \<Longrightarrow> reachable S (fst (refreshCapture W p))"
| emitted: "reachable S p \<Longrightarrow> W \<in> S \<Longrightarrow> reachable S (fst (emit W p pkt))"
| read: "reachable S p \<Longrightarrow> reachable S (snd (readPacketNonBlocking p))"
| dial: "reachable S p \<Longrightarrow> W \<in> S \<Longrightarrow> reachable S (snd (dialTailnet W p dst))"
| link: "reachable S p \<Longrightarrow> reachable S (fst (linkClose p c))"
| closed: "reachable S p \<Longrightarrow> reachable S (fst (tp_close p))"

lemma same_core_dials:
  "same_core p (snd (readPacketNonBlocking p))" "same_core p (snd (dialTailnet W p dst))"
  "same_core p (fst (linkClose p c))"
  using same_core_ensureStack [of p W]
  by (auto simp: same_core_def readPacketNonBlocking_def dialTailnet_def linkClose_def Let_def
      split: list.splits option.splits prod.splits)

lemma reachable_inv:
  assumes "reachable S p" and "\<forall>W \<in> S. \<exists>left. parser_progress (w_parser W) left"
  shows "path_inv p"
  using assms(1)
proof (induction rule: reachable.induct)
  case (packet p W data family p' ev)
  then show ?case using injectPacket_total [of p W data family] by auto
next
  case (answered p W pkt info q rem resp p' ev)
  obtain left where "parser_progress (w_parser W) left" using assms(2) answered.hyps(2) by blast
  from forwardDNS_done_total [OF answered.IH this parseIPPacket_family(1) [OF answered.hyps(3)]]
  show ?case using answered.hyps(4) by (metis option.inject prod.inject)
next
  case (served p W input out p')
  obtain left where "parser_progress (w_parser W) left" using assms(2) served.hyps(2) by blast
  from serveDNS_total [OF served.IH this, of input] show ?case using served.hyps(3) by auto
qed (auto intro: path_inv_new path_inv_core same_core_setters same_core_emit same_core_dials)

subsection \<open>Lemmas: routes of the settings\<close>

lemma set_add_new [simp]: "set (add_new v xs) = insert v (set xs)"
  by (auto simp: add_new_def)

lemma addRoute_frame [simp]:
  "IPv4Excluded (addRoute s p) = IPv4Excluded s" "FullTunnel (addRoute s p) = FullTunnel s"
  "MatchDomains (addRoute s p) = MatchDomains s"
  by (simp_all add: addRoute_def)

lemma addRoutes_frame [simp]:
  "IPv4Excluded (foldl addRoute s ps) = IPv4Excluded s" "FullTunnel (foldl addRoute s ps) = FullTunnel s"
  by (induction ps arbitrary: s) auto

lemma IPv4Routes_addRoute:
  "set (IPv4Routes (addRoute s p)) =
     set (IPv4Routes s) \<union> (if Is4 (pfx_addr p) then {pfx_String p} else {})"
  by (simp add: addRoute_def)

lemma IPv4Routes_addRoutes:
  "set (IPv4Routes (foldl addRoute s ps)) =
     set (IPv4Routes s) \<union> pfx_String ` {p \<in> set ps. Is4 (pfx_addr p)}"
  by (induction ps arbitrary: s) (auto simp: IPv4Routes_addRoute split: if_splits)

lemma addAddresses_frame [simp]:
  "IPv4Excluded (foldl addAddress s ps) = IPv4Excluded s" "FullTunnel (foldl addAddress s ps) = FullTunnel s"
  "IPv4Routes (foldl addAddress s ps) = IPv4Routes s"
  by (induction ps arbitrary: s) (auto simp: addAddress_def)

text \<open>The settings send \<open>dst\<close> into the tunnel.\<close>

definition entersTunnel :: "tunnelNetworkSettings \<Rightarrow> addr \<Rightarrow> bool" where
  "entersTunnel s dst \<longleftrightarrow>
     (\<exists>p. pfx_String p \<in> set (IPv4Routes s) \<and> PContains p dst) \<and>
     (\<forall>x \<in> set (IPv4Excluded s). \<exists>p. x = pfx_String p \<and> \<not> PContains p dst)"

lemma PContains_Is4: "PContains p (Addr4 w) \<Longrightarrow> Is4 (pfx_addr p)"
  by (auto simp: PContains_def split: option.splits addr.splits)

lemma everything_prefix: "pfx_String (Pfx (Addr4 0) (Some 0)) = ''0.0.0.0/0''"
  by (simp add: pfx_String_def addr_String_def show_ipv4_def Itoa_def show_base.simps digit_char_def char_of_def)

lemma everything_contains: "PContains (Pfx (Addr4 0) (Some 0)) (Addr4 w)"
proof -
  have "drop_bit 32 w = 0" 
    by (auto simp: bit_eq_iff bit_drop_bit_eq dest!: bit_imp_le_length)
  then show ?thesis by (simp add: PContains_def)
qed

lemma entersTunnel_all:
  "IPv4Excluded s = [] \<Longrightarrow> IPv4Routes s = [''0.0.0.0/0''] \<Longrightarrow> entersTunnel s (Addr4 w)"
  unfolding entersTunnel_def using everything_prefix everything_contains by force

lemma excluded_member:
  "x \<in> set (foldl (\<lambda>xs pf. if Q pf then add_new (pfx_String pf) xs else xs) ys ps) \<Longrightarrow>
     x \<in> set ys \<or> (\<exists>p \<in> set ps. Q p \<and> x = pfx_String p)"
proof (induction ps arbitrary: ys)
  case (Cons p ps)
  from Cons.IH [OF Cons.prems [unfolded foldl_Cons]] show ?case by (auto split: if_splits)
qed simp

text \<open>Settings that route \<open>dst\<close>, or send everything in, still do after the later stages.\<close>

lemma captureSettings_enters:
  assumes "entersTunnel s (Addr4 w)"
  shows "entersTunnel (captureSettings p s) (Addr4 w)"
proof (cases "capturing p")
  case True
  then show ?thesis by (intro entersTunnel_all) (simp_all add: captureSettings_def Let_def)
next
  case False
  with assms show ?thesis
    by (auto simp: captureSettings_def entersTunnel_def IPv4Routes_addRoute Let_def)
qed

lemma dnsSettings_enters: "entersTunnel (dnsSettings p st s) dst = entersTunnel s dst"
  by (simp add: dnsSettings_def entersTunnel_def Let_def)

lemma sshSettings_frame [simp]:
  "IPv4Excluded (sshSettings p s) = IPv4Excluded s" "FullTunnel (sshSettings p s) = FullTunnel s"
  by (simp_all add: sshSettings_def Let_def)

lemma baseSettings_frame:
  assumes "netState p = Some st"
  shows "IPv4Excluded (baseSettings p) = []" "FullTunnel (baseSettings p) = sendAllViaSSH (table p)"
    "set (IPv4Routes (baseSettings p)) = pfx_String ` {q \<in> set (st_routes st). Is4 (pfx_addr q)}"
  using assms by (simp_all add: baseSettings_def Let_def IPv4Routes_addRoutes)

lemma sshSettings_routes:
  "set (IPv4Routes s) \<subseteq> set (IPv4Routes (sshSettings p s))"
  "egressOn p \<Longrightarrow> q \<in> set (prefixes (Some (table p)) routeSSH) \<Longrightarrow> Is4 (pfx_addr q) \<Longrightarrow>
     pfx_String q \<in> set (IPv4Routes (sshSettings p s))"
  "egressOn p \<Longrightarrow> dnsDomains (Some (table p)) routeSSH \<noteq> [] \<Longrightarrow>
     pfx_String fakeIPPrefix \<in> set (IPv4Routes (sshSettings p s))"
  by (auto simp: sshSettings_def Let_def IPv4Routes_addRoute IPv4Routes_addRoutes fakeIPPrefix_def)

lemma fullSettings_enters:
  assumes r: "pfx_String q \<in> set (IPv4Routes s) \<and> PContains q (Addr4 w) \<or> FullTunnel s"
    and e: "IPv4Excluded s = []"
    and x: "\<And>d. d \<in> set (directExclusions (Some (table p))) \<Longrightarrow> PContains d (Addr4 w) \<Longrightarrow>
              list_ex (Overlaps d) (st_routes st)"
  shows "entersTunnel (fullSettings p st s) (Addr4 w)"
proof (cases "FullTunnel s")
  case False
  with r e show ?thesis by (auto simp: fullSettings_def entersTunnel_def)
next
  case True
  have "\<exists>p'. z = pfx_String p' \<and> \<not> PContains p' (Addr4 w)"
    if "z \<in> set (IPv4Excluded (fullSettings p st s))" for z
    using that True e excluded_member [of z _ "[]"] x by (fastforce simp: fullSettings_def)
  moreover have "IPv4Routes (fullSettings p st s) = [''0.0.0.0/0'']" using True by (simp add: fullSettings_def)
  ultimately show ?thesis
    unfolding entersTunnel_def using everything_prefix everything_contains by force
qed

text \<open>The destinations the path carries over SSH or Tailscale.\<close>

definition carried :: "tailnetPath \<Rightarrow> addr \<Rightarrow> bool" where
  "carried p dst \<longleftrightarrow>
     egressFor p dst \<noteq> egressDirect \<or>
     (egressOn p \<and> PContains fakeIPPrefix dst \<and> dnsDomains (Some (table p)) routeSSH \<noteq> [])"

lemma carried_cases:
  assumes "carried p dst"
  shows "(egressOn p \<and> matchIP (Some (table p)) dst = routeSSH) \<or> routesContain (netState p) dst \<or>
         sendAllViaSSH (table p) \<or>
         (egressOn p \<and> PContains fakeIPPrefix dst \<and> dnsDomains (Some (table p)) routeSSH \<noteq> [])"
proof (rule ccontr)
  assume n: "\<not> ?thesis"
  then have "\<not> viaSSH p dst"
    by (cases "matchIP (Some (table p)) dst") (simp_all add: viaSSH_def)
  with n have "egressFor p dst = egressDirect" by (simp add: egressFor_def)
  with n assms show False by (simp add: carried_def)
qed

lemma carried_route:
  assumes p: "path_inv p" and st: "netState p = Some st" and c: "carried p (Addr4 w)"
  shows "\<exists>q. pfx_String q \<in> set (IPv4Routes (sshSettings p (baseSettings p))) \<and> PContains q (Addr4 w) \<or>
             FullTunnel (sshSettings p (baseSettings p))"
proof -
  let ?s = "sshSettings p (baseSettings p)"
  have ssh: ?thesis if a: "egressOn p" "matchIP (Some (table p)) (Addr4 w) = routeSSH"
  proof -
    obtain r where r: "r \<in> set (trules (table p))" "pfx_valid (prefix r)" "PContains (prefix r) (Unmap (Addr4 w))"
      "effective (table p) (action r) = routeSSH" using matchIP_cases [OF a(2)] by auto
    then have "prefix r \<in> set (prefixes (Some (table p)) routeSSH)" by (auto simp: prefixes_def)
    with sshSettings_routes(2) [OF a(1)] r(3) PContains_Is4 show ?thesis by fastforce
  qed
  have tail: ?thesis if a: "routesContain (netState p) (Addr4 w)"
  proof -
    obtain q where q: "q \<in> set (st_routes st)" "PContains q (Addr4 w)"
      using a st by (auto simp: routesContain_def list_ex_iff)
    then have "pfx_String q \<in> set (IPv4Routes ?s)"
      using PContains_Is4 baseSettings_frame(3) [OF st] sshSettings_routes(1) by fastforce
    with q(2) show ?thesis by blast
  qed
  have all: ?thesis if "sendAllViaSSH (table p)" using that baseSettings_frame(2) [OF st] by simp
  have fk: ?thesis if "egressOn p" "PContains fakeIPPrefix (Addr4 w)" "dnsDomains (Some (table p)) routeSSH \<noteq> []"
    using sshSettings_routes(3) [OF that(1,3)] that(2) by blast
  show ?thesis using carried_cases [OF c] ssh tail all fk by blast
qed

lemma carried_not_excluded:
  assumes p: "path_inv p" and st: "netState p = Some st" "list_all pfx_wf (st_routes st)"
    and c: "carried p (Addr4 w)"
    and d: "d \<in> set (directExclusions (Some (table p)))" "PContains d (Addr4 w)"
  shows "list_ex (Overlaps d) (st_routes st)"
proof -
  have t: "table_wf (table p)" and on: "sshEnabled (table p) = egressOn p" using p by (auto simp: path_inv_def)
  have v: "\<not> PContains fakeIPPrefix (Addr4 w)" "matchIP (Some (table p)) (Addr4 w) \<noteq> routeSSH"
    "egressOn p \<longrightarrow> matchIP (Some (table p)) (Addr4 w) = routeDirect"
    using exclusion_verdict [OF t d(1), of "Addr4 w"] d(2) on by auto
  with c have "routesContain (netState p) (Addr4 w)"
    by (auto simp: carried_def egressFor_def viaSSH_def split: if_splits)
  then obtain q where "q \<in> set (st_routes st)" "PContains q (Addr4 w)"
    using st(1) by (auto simp: routesContain_def list_ex_iff)
  with Overlaps_if_common [OF exclusion_wf [OF t d(1)] _ d(2)] st(2) show ?thesis
    by (auto simp: list_ex_iff list_all_iff)
qed

subsection \<open>Properties\<close>


text \<open>A concrete world for the witnesses: the demonstration parser and a builder of bytes.\<close>

definition demoBuilder :: "bytes dnsBuilder" where
  "demoBuilder =
     \<lparr> bNew = (\<lambda>h. put16 (hID h)), bEnableCompression = (\<lambda>b. b), bStartQuestions = Some,
       bQuestion = (\<lambda>b q. Some (b @ bytes_of_string (qName q))), bStartAnswers = Some,
       bAResource = (\<lambda>b n ty cl ttl a. Some (b @ a)), bFinish = Some \<rparr>"

definition demoWorld :: "(bytes, bytes) world" where
  "demoWorld =
     \<lparr> w_parser = demoParser, w_builder = demoBuilder, w_newStack = True, w_claim = (\<lambda>_. False),
       w_blocking = False, w_servesCA = False, w_hasEnv = False, w_exchange = (\<lambda>_ _ _ _. None),
       w_tsQuery = (\<lambda>_. None), w_ctxDone = (\<lambda>_. False), w_linkUp = True, w_linkDial = True \<rparr>"

definition demoRouting :: routingConfigJSON where
  "demoRouting = \<lparr> SendAllViaSSH = True,
     Rules = [\<lparr>rPattern = ''*.internal'', rAction = ''ssh''\<rparr>, \<lparr>rPattern = ''10.9.0.0/16'', rAction = ''direct''\<rparr>] \<rparr>"

definition demoPath :: tailnetPath where
  "demoPath = newTailnetPath ''127.0.0.1:1080'' [] demoRouting False"


text \<open>
  C11: once logged in, every IPv4 destination the path would carry over SSH or over the tailnet
  enters the tunnel under the settings it announces: a route contains it and no excluded
  prefix does.
\<close>

theorem networkSettings_route_carried:
  assumes "path_inv p" and "netState p = Some st" and "st_addrs st \<noteq> []" and "list_all pfx_wf (st_routes st)"
    and "carried p (Addr4 w)"
  shows "entersTunnel (networkSettings p) (Addr4 w)"
proof -
  let ?s = "sshSettings p (baseSettings p)"
  obtain q where q: "pfx_String q \<in> set (IPv4Routes ?s) \<and> PContains q (Addr4 w) \<or> FullTunnel ?s"
    using carried_route [OF assms(1,2,5)] by blast
  have "entersTunnel (fullSettings p st ?s) (Addr4 w)"
    by (rule fullSettings_enters [OF q])
      (simp_all add: baseSettings_frame(1) [OF assms(2)] carried_not_excluded [OF assms(1,2,4,5)])
  then show ?thesis
    using assms(2,3) captureSettings_enters by (simp add: networkSettings_def dnsSettings_enters Let_def)
qed

definition demoState :: tailnetNetState where
  "demoState = \<lparr> st_addrs = [Pfx (Addr4 0x64400001) (Some 32)], st_routes = [Pfx (Addr4 0x64400000) (Some 10)],
                  st_dnsServers = [], st_match = [''ts.net''], st_search = [], allDomains = False \<rparr>"

lemma demo_inv: "path_inv (setState demoPath st)"
  using path_inv_core [OF path_inv_new same_core_setters(2)] by (simp add: demoPath_def)

theorem networkSettings_route_carried_witness:
  "entersTunnel (networkSettings (setState demoPath (Some demoState))) (Addr4 0x08080808)"
proof -
  let ?t = "compileRouteTable demoRouting True"
  have "matchIP (Some ?t) (Addr4 0x08080808) = routeNone" by code_simp
  moreover have "sendAllViaSSH ?t" by code_simp
  moreover have "\<not> routesContain (Some demoState) (Addr4 0x08080808)" by code_simp
  ultimately have "carried (setState demoPath (Some demoState)) (Addr4 0x08080808)"
    by (simp add: carried_def egressFor_def viaSSH_def setState_def demoPath_def newTailnetPath_def Let_def
        recent_contains_def newRecentIPs_def)
  with networkSettings_route_carried [OF demo_inv, of "Some demoState" demoState] show ?thesis
    by (simp add: setState_def demoState_def pfx_wf_def)
qed

lemma parseDNSQuery_name:
  assumes "parseDNSQuery P msg = Some q" and "\<not> HasSuffix (qname q) ''.''"
  shows "TrimSuffix (ToLower (qname q)) ''.'' = qname q"
proof -
  obtain n where n: "qname q = lowerName n"
    using assms(1) by (auto simp: parseDNSQuery_def split: option.splits if_splits)
  then have "ToLower (qname q) = qname q" by (simp add: lowerName_def ToLower_TrimSuffix_dot)
  with assms(2) show ?thesis by (simp add: TrimSuffix_id)
qed

text \<open>
  C12: every name the path answers itself or resolves over SSH, and every name of the tailnet,
  is covered by the DNS match domains it announces once logged in.
\<close>

theorem networkSettings_match_names:
  assumes "netState p = Some st" and "st_addrs st \<noteq> []"
    and "parseDNSQuery P msg = Some q" and "\<not> HasSuffix (qname q) ''.''"
    and "isTailnetName (Some st) (qname q) \<or> fst (dnsRoute p (Some q) (Some st)) \<in> {dnsFakeAnswer, dnsViaSSH}"
  shows "\<exists>d \<in> set (MatchDomains (networkSettings p)).
           d = [] \<or> qname q = d \<or> HasSuffix (qname q) (''.'' @ d)"
proof -
  let ?s = "captureSettings p (fullSettings p st (sshSettings p (baseSettings p)))"
  let ?hosts = "dnsDomains (Some (table p)) routeSSH"
  let ?m0 = "foldl (\<lambda>m d. add_new d m) (st_match st) ?hosts"
  have m0: "set (foldl (\<lambda>m d. add_new d m) xs ys) = set xs \<union> set ys" for xs ys :: "string list"
    by (induction ys arbitrary: xs) auto
  have full: "FullTunnel ?s = sendAllViaSSH (table p)"
    using baseSettings_frame(2) [OF assms(1)]
    by (simp add: captureSettings_def fullSettings_def Let_def)
  have md: "MatchDomains (networkSettings p) =
      (if sendAllViaSSH (table p) \<or> capturing p \<or> allDomains st \<or> [] \<in> set ?m0 then [[]] else ?m0)"
    if "?m0 \<noteq> [] \<or> sendAllViaSSH (table p)"
    using assms(1,2) that full by (auto simp: networkSettings_def dnsSettings_def Let_def)
  have cover: ?thesis if "d \<in> set ?m0" "d = [] \<or> qname q = d \<or> HasSuffix (qname q) (''.'' @ d)" for d
    using md that by (cases "?m0 = []") auto
  show ?thesis
    using assms(5)
  proof
    assume "isTailnetName (Some st) (qname q)"
    then obtain d where "d \<in> set (st_match st)" "d = [] \<or> qname q = d \<or> HasSuffix (qname q) (''.'' @ d)"
      by (auto simp: isTailnetName_def list_ex_iff)
    then show ?thesis using cover m0 by blast
  next
    assume r: "fst (dnsRoute p (Some q) (Some st)) \<in> {dnsFakeAnswer, dnsViaSSH}"
    show ?thesis
    proof (cases "sendAllViaSSH (table p)")
      case True
      then show ?thesis using md by simp
    next
      case False
      with r have "matchHost (Some (table p)) (qname q) = routeSSH"
        by (auto simp: dnsRoute_def split: if_splits routeAction.splits)
      from dnsDomains_covers [OF this] parseDNSQuery_name [OF assms(3,4)] assms(4) obtain d
        where "d \<in> set ?hosts" "d = [] \<or> qname q = d \<or> HasSuffix (qname q) (''.'' @ d)"
        by auto
      then show ?thesis using cover m0 by blast
    qed
  qed
qed

theorem networkSettings_match_names_witness:
  "\<exists>d \<in> set (MatchDomains (networkSettings (setState demoPath (Some demoState)))).
     d = [] \<or> ''db.ts.net'' = d \<or> HasSuffix ''db.ts.net'' (''.'' @ d)"
proof -
  let ?m = "0 # 9 # bytes_of_string ''db.ts.net''"
  obtain q where q: "parseDNSQuery demoParser ?m = Some q" "qname q = ''db.ts.net''"
    by (auto simp: parseDNSQuery_def demoParser_def lowerName_def ToLower_def lower_char_def
        TrimSuffix_def HasSuffix_def bytes_of_string_def string_of_bytes_def char_of_def)
  have "\<not> HasSuffix ''db.ts.net'' ''.''" by code_simp
  moreover have "isTailnetName (Some demoState) ''db.ts.net''" by code_simp
  moreover have "st_addrs demoState \<noteq> []" by (simp add: demoState_def)
  ultimately show ?thesis
    using networkSettings_match_names [of "setState demoPath (Some demoState)" demoState demoParser ?m q] q
    by (simp add: setState_def)
qed

text \<open>
  C20: a flow leaves over the SSH egress only when one is configured, and then either to the
  name behind a fake address or to an address no first-matching rule sends direct. In
  particular a direct rule is never overridden, and without an SSH host nothing uses it.
\<close>

theorem DialTCP_egress_safe:
  assumes "path_inv p" and "DialTCP p a = DialEgress d target"
  shows "egressOn p \<and> d = egressTCP p \<and>
         (\<exists>host port ip. SplitHostPort a = Some (host, port) \<and> ParseAddr host = Some ip \<and>
            ((\<exists>name. pool_host (fake p) ip = Some name \<and> target = JoinHostPort name port) \<or>
             (pool_host (fake p) ip = None \<and> target = a \<and> matchIP (Some (table p)) ip \<noteq> routeDirect)))"
proof -
  obtain host port where hp: "SplitHostPort a = Some (host, port)"
    using assms(2) by (auto simp: DialTCP_def split: option.splits)
  obtain ip where ip: "ParseAddr host = Some ip"
    using assms(2) hp by (auto simp: DialTCP_def split: option.splits)
  have nq: "\<not> (ip = quad100 \<and> port = ''53'')" using assms(2) hp ip by (auto simp: DialTCP_def)
  show ?thesis
  proof (cases "pool_host (fake p) ip")
    case (Some name)
    then show ?thesis using assms(2) hp ip nq by (auto simp: DialTCP_def split: if_splits)
  next
    case None
    have e: "egressFor p ip = egressSSH" and t: "d = egressTCP p" "target = a"
      using assms(2) hp ip nq None
      by (auto simp: DialTCP_def split: if_splits egressKind.splits option.splits)
    have "egressOn p \<and> matchIP (Some (table p)) ip \<noteq> routeDirect"
      using e by (auto simp: egressFor_def viaSSH_def split: if_splits)
    with None hp ip t show ?thesis by blast
  qed
qed

theorem DialTCP_egress_safe_witness:
  "DialTCP demoPath ''8.8.8.8:53'' = DialEgress (Socks5 ''127.0.0.1:1080'') ''8.8.8.8:53'' \<and> egressOn demoPath"
proof -
  let ?t = "compileRouteTable demoRouting True"
  have "SplitHostPort ''8.8.8.8:53'' = Some (''8.8.8.8'', ''53'')" by code_simp
  moreover have "ParseAddr ''8.8.8.8'' = Some (Addr4 0x08080808)" by code_simp
  moreover have "matchIP (Some ?t) (Addr4 0x08080808) = routeNone" by code_simp
  moreover have "sendAllViaSSH ?t" by code_simp
  ultimately have d: "DialTCP demoPath ''8.8.8.8:53'' = DialEgress (Socks5 ''127.0.0.1:1080'') ''8.8.8.8:53''"
    by (simp add: DialTCP_def demoPath_def newTailnetPath_def Let_def pool_host_new quad100_def egressFor_def
        viaSSH_def routesContain_def recent_contains_def newRecentIPs_def egressTCP_def)
  from DialTCP_egress_safe [OF _ this] path_inv_new d show ?thesis by (simp add: demoPath_def)
qed

text \<open>
  C1: from a query to a connection. When the rules send a new name over SSH, the path answers
  the query with an address of the fake range; packets to that address go to the local stack
  and not to Tailscale, and a connection to it is dialed over the SSH egress to the name
  itself, even after up to 8191 further names have been given addresses.
\<close>

theorem ssh_name_end_to_end:
  assumes "path_inv p" and "egressOn p" and "\<not> isTailnetName (netState p) (qname q)"
    and "matchHost (Some (table p)) (qname q) = routeSSH" and "qType (quest q) = TypeA"
    and "\<forall>a. pool_host (fake p) a \<noteq> Some (qname q)"
    and "list_all (\<lambda>h. h \<noteq> []) ks" and "length ks < fakeIPCapacity"
  shows "\<exists>a p1. dnsRoute p (Some q) (netState p) = (dnsFakeAnswer, False) \<and>
           fakeAnswer W p q = Some (dnsAnswer (w_builder W) q 0 (Some a) 1, p1) \<and>
           (\<forall>p2 st addr host port.
              table p2 = table p \<and> egressOn p2 \<and> pool_run (fake p1) ks = Some (fake p2) \<and>
              SplitHostPort addr = Some (host, port) \<and> ParseAddr host = Some a \<longrightarrow>
              toStack p2 a st \<and>
              DialTCP p2 addr = DialEgress (egressTCP p2) (JoinHostPort (qname q) port))"
proof -
  have ne: "qname q \<noteq> []" using matchHost_nonempty [of "Some (table p)" "qname q"] assms(4) by simp
  have f: "pool_inv (fake p)" using assms(1) by (simp add: path_inv_def)
  obtain a f1 where a: "pool_assign (fake p) (qname q) = Some (a, f1)" "PContains fakeIPPrefix a"
    using pool_assign_ok [OF f ne] by metis
  obtain f2 where f2: "pool_run f1 ks = Some f2" "pool_host f2 a = Some (qname q)"
    using pool_retained [OF f ne assms(6) a(1) assms(7,8)] by blast
  have w: "\<exists>w. a = Addr4 w" using a(2) by (cases a) (auto simp: PContains_def fakeIPPrefix_def split: option.splits)
  have "\<not> PContains fakeIPPrefix quad100" by code_simp
  with a(2) have nq: "a \<noteq> quad100" by auto
  have "fakeAnswer W p q = Some (dnsAnswer (w_builder W) q 0 (Some a) 1, p\<lparr>dnsFake := dnsFake p + 1, fake := f1\<rparr>)"
    using assms(5) a(1) by (simp add: fakeAnswer_def fakeIPTTL_def)
  moreover have "dnsRoute p (Some q) (netState p) = (dnsFakeAnswer, False)"
    using assms(3,4) by (simp add: dnsRoute_def)
  moreover have "toStack p2 a st \<and> DialTCP p2 addr = DialEgress (egressTCP p2) (JoinHostPort (qname q) port)"
    if "egressOn p2" "pool_run f1 ks = Some (fake p2)" "SplitHostPort addr = Some (host, port)"
      "ParseAddr host = Some a" for p2 st addr host port
    using that f2 a(2) w nq by (auto simp: toStack_def DialTCP_def)
  ultimately show ?thesis by fastforce
qed

definition demoQuestion :: dnsQuestion where
  "demoQuestion =
     \<lparr> header = \<lparr> hID = 7, hResponse = False, hOpCode = 0, hAuthoritative = False, hTruncated = False,
                  hRecursionDesired = True, hRecursionAvailable = False, hRCode = 0 \<rparr>,
       quest = \<lparr> qName = ''DB.internal.'', qType = TypeA, qClass = ClassINET \<rparr>, qname = ''db.internal'' \<rparr>"

theorem ssh_name_end_to_end_witness:
  "\<exists>a p1. dnsRoute demoPath (Some demoQuestion) None = (dnsFakeAnswer, False) \<and>
     fakeAnswer demoWorld demoPath demoQuestion =
       Some (dnsAnswer demoBuilder demoQuestion 0 (Some a) 1, p1) \<and>
     (\<forall>addr host port. SplitHostPort addr = Some (host, port) \<and> ParseAddr host = Some a \<longrightarrow>
        DialTCP p1 addr = DialEgress (egressTCP p1) (JoinHostPort ''db.internal'' port))"
proof -
  have m: "matchHost (Some (compileRouteTable demoRouting True)) ''db.internal'' = routeSSH" by code_simp
  have f: "fake demoPath = newFakeIPPool" "table demoPath = compileRouteTable demoRouting True"
    "netState demoPath = None" "egressOn demoPath"
    by (simp_all add: demoPath_def newTailnetPath_def Let_def)
  have q: "qname demoQuestion = ''db.internal''" "qType (quest demoQuestion) = TypeA"
    by (simp_all add: demoQuestion_def)
  have n: "\<not> isTailnetName (netState demoPath) (qname demoQuestion)" by (simp add: f isTailnetName_def)
  have i: "path_inv demoPath" by (simp add: demoPath_def path_inv_new)
  obtain a p1 where a: "dnsRoute demoPath (Some demoQuestion) (netState demoPath) = (dnsFakeAnswer, False)"
    "fakeAnswer demoWorld demoPath demoQuestion =
       Some (dnsAnswer (w_builder demoWorld) demoQuestion 0 (Some a) 1, p1)"
    "\<forall>p2 st addr host port. table p2 = table demoPath \<and> egressOn p2 \<and> pool_run (fake p1) [] = Some (fake p2) \<and>
        SplitHostPort addr = Some (host, port) \<and> ParseAddr host = Some a \<longrightarrow>
        toStack p2 a st \<and> DialTCP p2 addr = DialEgress (egressTCP p2) (JoinHostPort (qname demoQuestion) port)"
    using ssh_name_end_to_end [OF i f(4) n _ q(2), of "[]" demoWorld] m f q pool_host_new
    by (auto simp: fakeIPCapacity_def)
  have "table p1 = table demoPath" "egressOn p1"
    using a(2) f(4) by (auto simp: fakeAnswer_def Let_def split: if_splits option.splits)
  with a f q show ?thesis by (auto simp: demoWorld_def)
qed

end
