(* ===== verification/HTTP1.thy ===== *)
theory HTTP1
  imports GoStrings
begin

text \<open>
  \<open>vpntunnel/http1.go\<close>: header lists, request and response heads, body framing, and the
  copy loops. Bytes are characters here; a reader is the input it has still to deliver,
  followed by end of file. Errors are the left injection.
\<close>

abbreviation (input) CR :: char where "CR \<equiv> CHR 0x0D"
abbreviation (input) LF :: char where "LF \<equiv> CHR 0x0A"
abbreviation (input) TAB :: char where "TAB \<equiv> CHR 0x09"

definition crlf :: string where
  "crlf = [CR, LF]"

datatype httpError =
    headTooLarge | unexpectedEOF | readEOF | emptyHead | malformedHeader | malformedLine | badStatus
  | conflictingLength | badLength | unsupportedTE | badChunkSize | lineTooLong | writeFailed

subsection \<open>Definitions: header lists\<close>

record hdr =
  hname :: string
  hvalue :: string

type_synonym hdrList = "hdr list"

fun hdr_get :: "hdrList \<Rightarrow> string \<Rightarrow> string" where
  "hdr_get [] name = []"
| "hdr_get (kv # h) name = (if EqualFold (hname kv) name then hvalue kv else hdr_get h name)"

definition hdr_has :: "hdrList \<Rightarrow> string \<Rightarrow> bool" where
  "hdr_has h name \<longleftrightarrow> list_ex (\<lambda>kv. EqualFold (hname kv) name) h"

definition hdr_pairs :: "hdrList \<Rightarrow> (string \<times> string) list" where
  "hdr_pairs h = map (\<lambda>kv. (hname kv, hvalue kv)) h"

definition split_tokens :: "string \<Rightarrow> string list" where
  "split_tokens v = filter (\<lambda>t. t \<noteq> []) (map (\<lambda>t. ToLower (TrimSpace t)) (Split v CHR '',''))"

definition hdr_tokens :: "hdrList \<Rightarrow> string \<Rightarrow> string list" where
  "hdr_tokens h name =
     concat (map (\<lambda>kv. split_tokens (hvalue kv)) (filter (\<lambda>kv. EqualFold (hname kv) name) h))"

definition hdr_add :: "hdrList \<Rightarrow> string \<Rightarrow> string \<Rightarrow> hdrList" where
  "hdr_add h name value = h @ [\<lparr> hname = name, hvalue = value \<rparr>]"

text \<open>The loop of \<open>set\<close>: the flag is \<open>found\<close>, the result the kept fields and the final flag.\<close>

fun set_loop :: "string \<Rightarrow> string \<Rightarrow> bool \<Rightarrow> hdrList \<Rightarrow> hdrList \<times> bool" where
  "set_loop name value found [] = ([], found)"
| "set_loop name value found (kv # h) =
     (if EqualFold (hname kv) name then
        (if found then set_loop name value True h
         else case set_loop name value True h of
                (out, f) \<Rightarrow> (kv\<lparr>hvalue := value\<rparr> # out, f))
      else case set_loop name value found h of (out, f) \<Rightarrow> (kv # out, f))"

definition hdr_set :: "hdrList \<Rightarrow> string \<Rightarrow> string \<Rightarrow> hdrList" where
  "hdr_set h name value =
     (case set_loop name value False h of
        (out, found) \<Rightarrow> if found then out else hdr_add out name value)"

definition hdr_del :: "hdrList \<Rightarrow> string \<Rightarrow> hdrList" where
  "hdr_del h name = filter (\<lambda>kv. \<not> EqualFold (hname kv) name) h"

definition hasToken :: "string list \<Rightarrow> string \<Rightarrow> bool" where
  "hasToken tokens tok \<longleftrightarrow> list_ex (\<lambda>t. t = tok) tokens"

subsection \<open>Definitions: heads\<close>

record reqHead =
  q_method :: string
  q_target :: string
  q_proto :: string
  q_headers :: hdrList

record resHead =
  r_proto :: string
  r_status :: int
  r_reason :: string
  r_headers :: hdrList

definition maxHeadBytes :: nat where "maxHeadBytes = 65536"
definition h1BufferSize :: nat where "h1BufferSize = 4096"

datatype readResult = ReadOK | ReadFull | ReadEOF

text \<open>
  \<open>bufio.Reader.ReadSlice\<close> for a newline: the line with its newline, a full buffer without
  one, or what is left at the end of the input.
\<close>

definition readSlice :: "string \<Rightarrow> string \<times> string \<times> readResult" where
  "readSlice s =
     (case IndexByte (take h1BufferSize s) LF of
        Some i \<Rightarrow> (take (i + 1) s, drop (i + 1) s, ReadOK)
      | None \<Rightarrow>
          if h1BufferSize \<le> length s then (take h1BufferSize s, drop h1BufferSize s, ReadFull)
          else (s, [], ReadEOF))"

definition isBlank :: "string \<Rightarrow> bool" where
  "isBlank line \<longleftrightarrow> line = crlf \<or> line = [LF]"

lemma readSlice_cut:
  assumes "readSlice s = (line, rest, r)"
  shows "s = line @ rest" and "r \<noteq> ReadEOF \<Longrightarrow> length rest < length s"
proof -
  have "s = line @ rest \<and> (r \<noteq> ReadEOF \<longrightarrow> length rest < length s)"
  proof (cases "IndexByte (take h1BufferSize s) LF")
    case None
    with assms show ?thesis by (auto simp: readSlice_def h1BufferSize_def split: if_splits)
  next
    case (Some i)
    then have "s \<noteq> []" by (cases s) (auto simp: IndexByte_def)
    with assms Some show ?thesis by (auto simp: readSlice_def)
  qed
  then show "s = line @ rest" and "r \<noteq> ReadEOF \<Longrightarrow> length rest < length s" by auto
qed

function readHead_loop :: "string \<Rightarrow> string \<Rightarrow> httpError + (string \<times> string)" where
  "readHead_loop buf s =
     (case readSlice s of
        (line, rest, r) \<Rightarrow>
          if r = ReadEOF then (if buf = [] \<and> line = [] then Inl readEOF else Inl unexpectedEOF)
          else if buf = [] \<and> isBlank line then readHead_loop buf rest
          else let buf' = buf @ line in
            if length buf' > maxHeadBytes then Inl headTooLarge
            else if r = ReadFull then readHead_loop buf' rest
            else if isBlank line then Inr (buf', rest)
            else readHead_loop buf' rest)"
  by pat_completeness auto
termination
  by (relation "measure (\<lambda>(buf, s). length s)") (auto dest: readSlice_cut(2) [OF sym])

declare readHead_loop.simps [simp del]

definition readHead :: "string \<Rightarrow> httpError + (string \<times> string)" where
  "readHead s = readHead_loop [] s"

fun header_lines :: "string list \<Rightarrow> hdrList \<Rightarrow> httpError + hdrList" where
  "header_lines [] hs = Inr hs"
| "header_lines (l0 # ls) hs =
     (let l = TrimRight l0 [CR] in
      if l = [] then header_lines ls hs
      else if (hd l = CHR '' '' \<or> hd l = TAB) \<and> hs \<noteq> [] then
        header_lines ls (butlast hs @ [(last hs)\<lparr>hvalue := hvalue (last hs) @ '' '' @ TrimSpace l\<rparr>])
      else case IndexByte l CHR '':'' of
             None \<Rightarrow> Inl malformedHeader
           | Some i \<Rightarrow>
               if i = 0 then Inl malformedHeader
               else header_lines ls (hs @ [\<lparr> hname = take i l, hvalue = TrimSpace (drop (i + 1) l) \<rparr>]))"

definition splitHeadLines :: "string \<Rightarrow> httpError + (string \<times> hdrList)" where
  "splitHeadLines raw =
     (case Split (TrimRight raw crlf) LF of
        [] \<Rightarrow> Inl emptyHead
      | l # ls \<Rightarrow>
          (case header_lines ls [] of
             Inl e \<Rightarrow> Inl e
           | Inr hs \<Rightarrow> Inr (TrimRight l [CR], hs)))"

definition parseRequestHead :: "string \<Rightarrow> httpError + reqHead" where
  "parseRequestHead raw =
     (case splitHeadLines raw of
        Inl e \<Rightarrow> Inl e
      | Inr (first, hs) \<Rightarrow>
          (case SplitN first CHR '' '' 3 of
             [m, t, p] \<Rightarrow>
               if HasPrefix p ''HTTP/''
               then Inr \<lparr> q_method = m, q_target = t, q_proto = p, q_headers = hs \<rparr>
               else Inl malformedLine
           | _ \<Rightarrow> Inl malformedLine))"

definition parseResponseHead :: "string \<Rightarrow> httpError + resHead" where
  "parseResponseHead raw =
     (case splitHeadLines raw of
        Inl e \<Rightarrow> Inl e
      | Inr (first, hs) \<Rightarrow>
          (case SplitN first CHR '' '' 3 of
             p # c # rs \<Rightarrow>
               if \<not> HasPrefix p ''HTTP/'' then Inl malformedLine
               else (case Atoi c of
                       None \<Rightarrow> Inl badStatus
                     | Some code \<Rightarrow>
                         if code < 100 \<or> code > 999 then Inl badStatus
                         else Inr \<lparr> r_proto = p, r_status = code,
                                    r_reason = (case rs of [x] \<Rightarrow> x | _ \<Rightarrow> []), r_headers = hs \<rparr>)
           | _ \<Rightarrow> Inl malformedLine))"

definition header_line :: "hdr \<Rightarrow> string" where
  "header_line kv = hname kv @ '': '' @ hvalue kv"

definition serializeHead :: "string \<Rightarrow> hdrList \<Rightarrow> string" where
  "serializeHead first hs = first @ crlf @ concat (map (\<lambda>kv. header_line kv @ crlf) hs) @ crlf"

definition req_serialize :: "reqHead \<Rightarrow> string" where
  "req_serialize r = serializeHead (q_method r @ '' '' @ q_target r @ '' '' @ q_proto r) (q_headers r)"

definition itoa :: "int \<Rightarrow> string" where
  "itoa n = (if n < 0 then ''-'' @ Itoa (nat (- n)) else Itoa (nat n))"

definition res_serialize :: "resHead \<Rightarrow> string" where
  "res_serialize r =
     (let first = r_proto r @ '' '' @ itoa (r_status r)
      in serializeHead (if r_reason r \<noteq> [] then first @ '' '' @ r_reason r else first) (r_headers r))"

subsection \<open>Definitions: framing\<close>

datatype framing = framingNone | framingLength nat | framingChunked | framingUntilClose

text \<open>The loop over the fields named Content-Length; \<open>v\<close> is the value seen so far.\<close>

fun length_loop :: "hdrList \<Rightarrow> string \<Rightarrow> httpError + string" where
  "length_loop [] v = Inr v"
| "length_loop (kv # hs) v =
     (if EqualFold (hname kv) ''Content-Length'' then
        let val = TrimSpace (hvalue kv)
        in if v \<noteq> [] \<and> v \<noteq> val then Inl conflictingLength else length_loop hs val
      else length_loop hs v)"

text \<open>\<open>None\<close> is the second result being false.\<close>

definition contentLength :: "hdrList \<Rightarrow> httpError + nat option" where
  "contentLength hs =
     (case length_loop hs [] of
        Inl e \<Rightarrow> Inl e
      | Inr v \<Rightarrow>
          if v = [] then Inr None
          else case ParseInt v 10 64 of
                 None \<Rightarrow> Inl badLength
               | Some n \<Rightarrow> if n < 0 then Inl badLength else Inr (Some (nat n)))"

definition requestFraming :: "reqHead \<Rightarrow> httpError + framing" where
  "requestFraming r =
     (let te = hdr_tokens (q_headers r) ''Transfer-Encoding'' in
      if te \<noteq> [] then (if last te = ''chunked'' then Inr framingChunked else Inl unsupportedTE)
      else case contentLength (q_headers r) of
             Inl e \<Rightarrow> Inl e
           | Inr (Some n) \<Rightarrow> if 0 < n then Inr (framingLength n) else Inr framingNone
           | Inr None \<Rightarrow> Inr framingNone)"

definition responseFraming :: "string \<Rightarrow> resHead \<Rightarrow> httpError + framing" where
  "responseFraming method r =
     (if method = ''HEAD'' \<or> r_status r = 204 \<or> r_status r = 304 \<or> (100 \<le> r_status r \<and> r_status r < 200)
      then Inr framingNone
      else if method = ''CONNECT'' \<and> 200 \<le> r_status r \<and> r_status r < 300 then Inr framingUntilClose
      else let te = hdr_tokens (r_headers r) ''Transfer-Encoding'' in
        if te \<noteq> [] then (if last te = ''chunked'' then Inr framingChunked else Inr framingUntilClose)
        else case contentLength (r_headers r) of
               Inl e \<Rightarrow> Inl e
             | Inr (Some n) \<Rightarrow> if n = 0 then Inr framingNone else Inr (framingLength n)
             | Inr None \<Rightarrow> Inr framingUntilClose)"

subsection \<open>Reading lines\<close>

lemma crlf_simps [simp]: "crlf \<noteq> []" "length crlf = 2"
  by (simp_all add: crlf_def)

definition is_line :: "string \<Rightarrow> bool" where
  "is_line l \<longleftrightarrow> l \<noteq> [] \<and> last l = LF \<and> LF \<notin> set (butlast l) \<and> length l \<le> h1BufferSize"

lemma is_lineI: "LF \<notin> set l \<Longrightarrow> length l < h1BufferSize \<Longrightarrow> is_line (l @ [LF])"
  by (simp add: is_line_def)

lemma is_line_crlf [simp]: "is_line crlf" "is_line [LF]"
  by (simp_all add: is_line_def crlf_def h1BufferSize_def)

lemma readSlice_line: "is_line l \<Longrightarrow> readSlice (l @ rest) = (l, rest, ReadOK)"
proof -
  assume l: "is_line l"
  then obtain b where b: "l = b @ [LF]" "LF \<notin> set b" "length b < h1BufferSize"
    by (cases l rule: rev_cases) (auto simp: is_line_def)
  have t: "take h1BufferSize (l @ rest) = b @ LF # take (h1BufferSize - length l) rest"
  proof -
    have "take h1BufferSize (l @ rest) = l @ take (h1BufferSize - length l) rest"
      using l by (simp add: is_line_def)
    then show ?thesis by (simp add: b(1))
  qed
  have "\<forall>c \<in> set b. \<not> c = LF" using b(2) by auto
  then have "IndexByte (take h1BufferSize (l @ rest)) LF = Some (length b)"
    unfolding t IndexByte_def by (intro IndexFunc_append_hit) simp_all
  then show ?thesis unfolding readSlice_def by (simp only: option.case) (simp add: b(1))
qed

lemma readSlice_OK:
  assumes "readSlice s = (l, rest, ReadOK)"
  shows "is_line l \<and> s = l @ rest"
proof (cases "IndexByte (take h1BufferSize s) LF")
  case None
  with assms show ?thesis by (simp add: readSlice_def split: if_splits)
next
  case (Some i)
  let ?t = "take h1BufferSize s"
  from Some have "i < length ?t \<and> ?t ! i = LF \<and> (\<forall>c \<in> set (take i ?t). \<not> c = LF)"
    unfolding IndexByte_def by (rule IndexFunc_Some)
  then have f: "i < length ?t" "?t ! i = LF" "LF \<notin> set (take i ?t)" by blast+
  then have i: "i < length s" "i < h1BufferSize" "s ! i = LF" by simp_all
  then have t: "take i ?t = take i s" by (simp add: min_def)
  have "readSlice s = (take (i + 1) s, drop (i + 1) s, ReadOK)" by (simp add: readSlice_def Some)
  with assms have l: "l = take (i + 1) s" "rest = drop (i + 1) s" by simp_all
  have "take (i + 1) s = take i s @ [LF]" using i by (simp add: take_Suc_conv_app_nth)
  moreover have "is_line (take i s @ [LF])" using f(3) i t by (intro is_lineI) simp_all
  ultimately have "is_line l" by (simp only: l)
  with readSlice_cut(1) [OF assms] show ?thesis by blast
qed

lemma readSlice_Full:
  assumes "length l = h1BufferSize" "LF \<notin> set l"
  shows "readSlice (l @ rest) = (l, rest, ReadFull)"
proof -
  have "IndexFunc (\<lambda>c. c = LF) l = None" using assms(2) by (auto simp: IndexFunc_None)
  then show ?thesis using assms(1) by (simp add: readSlice_def IndexByte_def)
qed

subsection \<open>Reading heads\<close>

text \<open>What the loop returns is a run of the input, after blank lines it skipped.\<close>

lemma readHead_loop_step:
  assumes "readHead_loop buf s = Inr (h, rest)" and "readSlice s = (line, r0, r)"
  shows "r \<noteq> ReadEOF \<and>
    (if buf = [] \<and> isBlank line then readHead_loop [] r0 = Inr (h, rest)
     else length (buf @ line) \<le> maxHeadBytes \<and>
       (if r = ReadOK \<and> isBlank line then h = buf @ line \<and> rest = r0
        else readHead_loop (buf @ line) r0 = Inr (h, rest)))"
  using assms(1) assms(2)
  by (cases r) (auto simp: readHead_loop.simps [of buf s] Let_def not_less split: if_splits)

lemma readHead_loop_cut:
  assumes "readHead_loop buf s = Inr (h, rest)"
  shows "\<exists>blank body. s = blank @ body @ rest \<and> h = buf @ body \<and> h \<noteq> [] \<and> length h \<le> maxHeadBytes \<and>
           (buf \<noteq> [] \<longrightarrow> blank = []) \<and> set blank \<subseteq> {CR, LF}"
  using assms
proof (induction "length s" arbitrary: buf s rule: less_induct)
  case less
  obtain line r0 r where sl: "readSlice s = (line, r0, r)" by (cases "readSlice s")
  note step = readHead_loop_step [OF less.prems sl]
  then have r: "r \<noteq> ReadEOF" by (rule conjunct1)
  note cut = readSlice_cut(1) [OF sl] and shorter = readSlice_cut(2) [OF sl r]
  show ?case
  proof (cases "buf = [] \<and> isBlank line")
    case True
    with step have "readHead_loop [] r0 = Inr (h, rest)" by simp
    with less.hyps [OF shorter] obtain blank body where
      "r0 = blank @ body @ rest" "h = body" "h \<noteq> [] \<and> length h \<le> maxHeadBytes" "set blank \<subseteq> {CR, LF}" by force
    moreover have "set line \<subseteq> {CR, LF}" using True by (auto simp: isBlank_def crlf_def)
    ultimately have "s = (line @ blank) @ body @ rest \<and> h = buf @ body \<and> set (line @ blank) \<subseteq> {CR, LF}"
      using cut True by simp
    with \<open>h \<noteq> [] \<and> length h \<le> maxHeadBytes\<close> True show ?thesis by blast
  next
    case False
    have "\<exists>body. s = body @ rest \<and> h = buf @ body \<and> h \<noteq> [] \<and> length h \<le> maxHeadBytes"
    proof (cases "r = ReadOK \<and> isBlank line")
      case True
      with step False cut show ?thesis by (auto simp: isBlank_def split: if_splits)
    next
      case more: False
      with step False have "readHead_loop (buf @ line) r0 = Inr (h, rest)" by (simp split: if_splits)
      moreover have "buf @ line \<noteq> []" using shorter cut by auto
      ultimately obtain body where "r0 = body @ rest \<and> h = (buf @ line) @ body \<and> h \<noteq> [] \<and> length h \<le> maxHeadBytes"
        using less.hyps [OF shorter, of "buf @ line"] by force
      with cut have "s = (line @ body) @ rest \<and> h = buf @ (line @ body) \<and> h \<noteq> [] \<and> length h \<le> maxHeadBytes" by auto
      then show ?thesis by blast
    qed
    then obtain body where "s = [] @ body @ rest \<and> h = buf @ body \<and> h \<noteq> [] \<and> length h \<le> maxHeadBytes" by auto
    moreover have "set [] \<subseteq> {CR, LF}" by simp
    ultimately show ?thesis by blast
  qed
qed

definition head_bytes :: "string list \<Rightarrow> string" where
  "head_bytes ls = concat (map (\<lambda>l. l @ crlf) ls) @ crlf"

definition text_line :: "string \<Rightarrow> bool" where
  "text_line l \<longleftrightarrow> l \<noteq> [] \<and> LF \<notin> set l \<and> last l \<noteq> CR \<and> length l + 2 \<le> h1BufferSize"

lemma text_line_reads:
  assumes "text_line l"
  shows "readSlice (l @ crlf @ rest) = (l @ crlf, rest, ReadOK)" and "\<not> isBlank (l @ crlf)"
proof -
  have "is_line ((l @ [CR]) @ [LF])" using assms by (intro is_lineI) (auto simp: text_line_def)
  then show "readSlice (l @ crlf @ rest) = (l @ crlf, rest, ReadOK)"
    using readSlice_line [of "l @ crlf" rest] by (simp add: crlf_def)
  show "\<not> isBlank (l @ crlf)" using assms by (cases l) (auto simp: isBlank_def crlf_def text_line_def)
qed

lemma readHead_loop_lines:
  assumes "list_all text_line ls" and "buf \<noteq> [] \<or> ls \<noteq> []"
    and "length buf + length (head_bytes ls) \<le> maxHeadBytes"
  shows "readHead_loop buf (head_bytes ls @ rest) = Inr (buf @ head_bytes ls, rest)"
  using assms
proof (induction ls arbitrary: buf)
  case Nil
  have "readSlice (crlf @ rest) = (crlf, rest, ReadOK)" by (simp add: readSlice_line)
  with Nil show ?case
    by (simp add: readHead_loop.simps [of buf "crlf @ rest"] head_bytes_def isBlank_def)
next
  case (Cons l ls)
  have hb: "head_bytes (l # ls) = l @ crlf @ head_bytes ls" by (simp add: head_bytes_def)
  have "text_line l" using Cons.prems(1) by simp
  note rd = text_line_reads [OF this]
  have "readHead_loop buf (head_bytes (l # ls) @ rest) = readHead_loop (buf @ l @ crlf) (head_bytes ls @ rest)"
    using rd Cons.prems(3) by (simp add: readHead_loop.simps [of buf "l @ crlf @ head_bytes ls @ rest"] hb Let_def)
  also have "\<dots> = Inr ((buf @ l @ crlf) @ head_bytes ls, rest)"
    using Cons.prems by (intro Cons.IH) (auto simp: hb crlf_def)
  finally show ?case by (simp add: hb)
qed

subsection \<open>Parsing what was printed\<close>

lemma serializeHead_lines: "serializeHead first hs = head_bytes (first # map header_line hs)"
  by (simp add: serializeHead_def head_bytes_def comp_def)

definition joined :: "string \<Rightarrow> string list \<Rightarrow> string" where
  "joined l ls = l @ concat (map (\<lambda>x. crlf @ x) ls)"

lemma head_bytes_joined: "head_bytes (l # ls) = joined l ls @ crlf @ crlf"
proof -
  have "x @ concat (map (\<lambda>l. c @ l) xs) @ c = concat (map (\<lambda>l. l @ c) (x # xs))" for c x :: string and xs
    by (induction xs arbitrary: x) simp_all
  then show ?thesis by (simp add: head_bytes_def joined_def)
qed

lemma joined_last:
  assumes "list_all text_line (l # ls)"
  shows "joined l ls \<noteq> []" and "last (joined l ls) = last (last (l # ls))"
proof -
  have "joined l ls \<noteq> [] \<and> last (joined l ls) = last (last (l # ls))"
    using assms
  proof (induction ls arbitrary: l rule: rev_induct)
    case Nil
    then show ?case by (simp add: joined_def text_line_def)
  next
    case (snoc x xs)
    then show ?case by (simp add: joined_def text_line_def)
  qed
  then show "joined l ls \<noteq> []" and "last (joined l ls) = last (last (l # ls))" by blast+
qed

lemma TrimRight_head_bytes:
  assumes "list_all text_line (l # ls)"
  shows "TrimRight (head_bytes (l # ls)) crlf = joined l ls"
proof -
  let ?f = "\<lambda>c. c \<in> set crlf"
  have "last (l # ls) \<in> set (l # ls)" by (rule last_in_set) simp
  with assms have t: "text_line (last (l # ls))" unfolding list_all_iff by blast
  then have "last (last (l # ls)) \<in> set (last (l # ls))" by (intro last_in_set) (simp add: text_line_def)
  then have "last (last (l # ls)) \<noteq> LF" using t unfolding text_line_def by metis
  with t have "\<not> ?f (last (last (l # ls)))" by (simp add: text_line_def crlf_def)
  then have "TrimRightFunc ?f (joined l ls) = joined l ls"
    using joined_last [OF assms] by (intro TrimRightFunc_id) simp
  moreover have "list_all ?f (crlf @ crlf)" by (simp add: crlf_def)
  ultimately show ?thesis
    by (simp only: TrimRight_def head_bytes_joined TrimRightFunc_append_all)
qed

lemma TrimRight_CR:
  assumes "text_line l"
  shows "TrimRight l [CR] = l" and "TrimRight (l @ [CR]) [CR] = l"
proof -
  show "TrimRight l [CR] = l"
    using assms unfolding TrimRight_def by (intro TrimRightFunc_id) (simp add: text_line_def)
  then show "TrimRight (l @ [CR]) [CR] = l"
    unfolding TrimRight_def by (subst TrimRightFunc_append_all) simp_all
qed

lemma Split_joined:
  assumes "list_all text_line (l # ls)"
  shows "map (\<lambda>x. TrimRight x [CR]) (Split (joined l ls) LF) = l # ls"
  using assms
proof (induction ls arbitrary: l)
  case Nil
  then have "Split (joined l []) LF = [l]" by (simp add: joined_def Split_no_sep text_line_def)
  with Nil show ?case by (simp add: TrimRight_CR)
next
  case (Cons x xs)
  have j: "joined l (x # xs) = (l @ [CR]) @ LF # joined x xs" by (simp add: joined_def crlf_def)
  have "Split (joined l (x # xs)) LF = (l @ [CR]) # Split (joined x xs) LF"
    using Cons.prems unfolding j by (intro Split_append_sep) (simp add: text_line_def)
  with Cons show ?case by (simp add: TrimRight_CR)
qed

lemma header_lines_trim:
  "header_lines (map (\<lambda>x. TrimRight x [CR]) ls) hs = header_lines ls hs"
proof -
  have i: "TrimRight (TrimRight l [CR]) [CR] = TrimRight l [CR]" for l
    unfolding TrimRight_def TrimRightFunc_def by simp
  show ?thesis by (induction ls arbitrary: hs) (simp_all add: i Let_def split: option.splits)
qed

definition hdr_ok :: "hdr \<Rightarrow> bool" where
  "hdr_ok kv \<longleftrightarrow> hname kv \<noteq> [] \<and> hd (hname kv) \<noteq> CHR '' '' \<and> hd (hname kv) \<noteq> TAB \<and>
     CHR '':'' \<notin> set (hname kv) \<and> LF \<notin> set (header_line kv) \<and>
     TrimSpace (hvalue kv) = hvalue kv \<and> length (header_line kv) + 2 \<le> h1BufferSize"

lemma TrimSpace_fixed:
  assumes "TrimSpace v = v" "v \<noteq> []"
  shows "\<not> isSpace (last v)"
proof -
  have "last (TrimRightFunc f w) = last w \<and> \<not> f (last w)" if "TrimRightFunc f w = w" "w \<noteq> []" for f w
    using that hd_dropWhile [of f "rev w"] unfolding TrimRightFunc_def
    by (metis hd_rev rev_is_Nil_conv rev_rev_ident)
  moreover have "TrimRightFunc isSpace v = v"
  proof -
    let ?w = "TrimLeftFunc isSpace v"
    have v: "TrimRightFunc isSpace ?w = v" using assms(1) by (simp add: TrimSpace_def TrimFunc_def)
    have "TrimRightFunc isSpace (TrimRightFunc isSpace ?w) = TrimRightFunc isSpace ?w"
      by (simp add: TrimRightFunc_def)
    with v show ?thesis by simp
  qed
  ultimately show ?thesis using assms(2) by blast
qed

lemma header_line_text: "hdr_ok kv \<Longrightarrow> text_line (header_line kv)"
proof -
  assume ok: "hdr_ok kv"
  have "last (header_line kv) \<noteq> CR"
  proof (cases "hvalue kv = []")
    case True
    then show ?thesis by (simp add: header_line_def)
  next
    case False
    then have "\<not> isSpace (last (hvalue kv))" using ok TrimSpace_fixed by (simp add: hdr_ok_def)
    with False show ?thesis by (auto simp: header_line_def isSpace_def)
  qed
  with ok show ?thesis by (simp add: text_line_def hdr_ok_def header_line_def)
qed

lemma header_lines_print:
  "list_all hdr_ok kvs \<Longrightarrow> header_lines (map header_line kvs) hs = Inr (hs @ kvs)"
proof (induction kvs arbitrary: hs)
  case (Cons kv kvs)
  let ?l = "header_line kv"
  have ok: "hdr_ok kv" using Cons.prems by simp
  note t = header_line_text [OF ok]
  have l: "?l = hname kv @ CHR '':'' # ('' '' @ hvalue kv)" by (simp add: header_line_def)
  have h: "hd ?l = hd (hname kv)" using ok by (simp add: header_line_def hdr_ok_def)
  have "\<forall>c \<in> set (hname kv). \<not> c = CHR '':''" using ok by (auto simp: hdr_ok_def)
  then have i: "IndexByte ?l CHR '':'' = Some (length (hname kv))"
    unfolding IndexByte_def l by (intro IndexFunc_append_hit) simp_all
  have v: "TrimSpace (drop (Suc (length (hname kv))) ?l) = hvalue kv"
    using ok by (simp add: l TrimSpace_def TrimFunc_cons isSpace_def hdr_ok_def)
  have n: "take (length (hname kv)) ?l = hname kv" "\<lparr> hname = hname kv, hvalue = hvalue kv \<rparr> = kv"
    by (simp_all add: l)
  have "header_lines (map header_line (kv # kvs)) hs = header_lines (map header_line kvs) (hs @ [kv])"
    using ok t by (simp add: TrimRight_CR(1) [OF t] h i v n hdr_ok_def text_line_def)
  with Cons show ?case by simp
qed simp

lemma splitHeadLines_print:
  assumes "text_line first" and "list_all hdr_ok hs"
  shows "splitHeadLines (serializeHead first hs) = Inr (first, hs)"
proof -
  let ?ls = "map header_line hs"
  have t: "list_all text_line (first # ?ls)"
    using assms header_line_text by (auto simp: list_all_iff)
  obtain x xs where x: "Split (joined first ?ls) LF = x # xs" by (cases "Split (joined first ?ls) LF") auto
  with Split_joined [OF t] have m: "TrimRight x [CR] = first" "map (\<lambda>x. TrimRight x [CR]) xs = ?ls" by simp_all
  then have "header_lines xs [] = Inr hs"
    using header_lines_print [OF assms(2), of "[]"] header_lines_trim [of xs "[]"] by simp
  with m(1) x show ?thesis
    by (simp add: splitHeadLines_def serializeHead_lines TrimRight_head_bytes [OF t])
qed

lemma readHead_print:
  assumes "text_line first" and "list_all hdr_ok hs" and "length (serializeHead first hs) \<le> maxHeadBytes"
  shows "readHead (serializeHead first hs @ rest) = Inr (serializeHead first hs, rest)"
proof -
  have "list_all text_line (first # map header_line hs)"
    using assms header_line_text by (auto simp: list_all_iff)
  from readHead_loop_lines [OF this, of "[]" rest] assms(3) show ?thesis
    by (simp add: readHead_def serializeHead_lines)
qed

definition reqHead_ok :: "reqHead \<Rightarrow> bool" where
  "reqHead_ok r \<longleftrightarrow> CHR '' '' \<notin> set (q_method r @ q_target r) \<and> HasPrefix (q_proto r) ''HTTP/'' \<and>
     text_line (q_method r @ '' '' @ q_target r @ '' '' @ q_proto r) \<and>
     list_all hdr_ok (q_headers r) \<and> length (req_serialize r) \<le> maxHeadBytes"

definition status_line :: "resHead \<Rightarrow> string" where
  "status_line r = r_proto r @ '' '' @ itoa (r_status r) @ (if r_reason r = [] then [] else '' '' @ r_reason r)"

definition resHead_ok :: "resHead \<Rightarrow> bool" where
  "resHead_ok r \<longleftrightarrow> CHR '' '' \<notin> set (r_proto r) \<and> HasPrefix (r_proto r) ''HTTP/'' \<and>
     100 \<le> r_status r \<and> r_status r \<le> 999 \<and> text_line (status_line r) \<and>
     list_all hdr_ok (r_headers r) \<and> length (res_serialize r) \<le> maxHeadBytes"

lemma res_serialize_status: "res_serialize r = serializeHead (status_line r) (r_headers r)"
  by (simp add: res_serialize_def status_line_def Let_def)

lemma SplitN_request:
  assumes "CHR '' '' \<notin> set (m @ t)"
  shows "SplitN (m @ '' '' @ t @ '' '' @ p) CHR '' '' 3 = [m, t, p]"
proof -
  have "SplitN (m @ CHR '' '' # (t @ CHR '' '' # p)) CHR '' '' (Suc (Suc 1)) = m # SplitN (t @ CHR '' '' # p) CHR '' '' (Suc 1)"
    using assms by (intro SplitN_append_sep) simp
  moreover have "SplitN (t @ CHR '' '' # p) CHR '' '' (Suc (Suc 0)) = t # SplitN p CHR '' '' (Suc 0)"
    using assms by (intro SplitN_append_sep) simp
  ultimately show ?thesis by (simp add: numeral_3_eq_3)
qed

lemma SplitN_status:
  assumes "CHR '' '' \<notin> set (p @ c)"
  shows "SplitN (p @ '' '' @ c @ (if x = [] then [] else '' '' @ x)) CHR '' '' 3 = p # c # (if x = [] then [] else [x])"
proof (cases "x = []")
  case True
  have "SplitN (p @ CHR '' '' # c) CHR '' '' (Suc (Suc 1)) = p # SplitN c CHR '' '' (Suc 1)"
    using assms by (intro SplitN_append_sep) simp
  moreover have "SplitN c CHR '' '' (Suc 1) = [c]" using assms by (intro SplitN_no_sep) simp
  ultimately show ?thesis using True by (simp add: numeral_3_eq_3)
next
  case False
  with SplitN_request [OF assms, of x] show ?thesis by simp
qed

lemma itoa_parse: "0 \<le> n \<Longrightarrow> n \<le> 999 \<Longrightarrow> Atoi (itoa n) = Some n"
  using ParseInt_Itoa [of "nat n" 64] by (simp add: itoa_def Atoi_def)

lemma itoa_no_space: "0 \<le> n \<Longrightarrow> CHR '' '' \<notin> set (itoa n)"
  using Itoa_digits [of "CHR '' ''" "nat n"] by (auto simp: itoa_def isDigit_def)

subsection \<open>Properties\<close>

text \<open>
  C30: a printed request head is read back whole, the input after it left untouched, and parses
  to the same method, target, protocol and headers, in order and with their case.
\<close>

theorem request_head_roundtrip:
  assumes "reqHead_ok r"
  shows "\<exists>raw. readHead (req_serialize r @ rest) = Inr (raw, rest) \<and> parseRequestHead raw = Inr r"
proof -
  let ?first = "q_method r @ '' '' @ q_target r @ '' '' @ q_proto r"
  have ok: "text_line ?first" "list_all hdr_ok (q_headers r)" "length (req_serialize r) \<le> maxHeadBytes"
    using assms by (simp_all add: reqHead_ok_def)
  have "readHead (req_serialize r @ rest) = Inr (req_serialize r, rest)"
    using readHead_print [OF ok(1,2)] ok(3) by (simp add: req_serialize_def)
  moreover have "parseRequestHead (req_serialize r) = Inr r"
    using assms by (simp add: parseRequestHead_def req_serialize_def splitHeadLines_print [OF ok(1,2)]
        SplitN_request reqHead_ok_def del: append_Cons append.simps)
  ultimately show ?thesis by blast
qed

definition demoReq :: reqHead where
  "demoReq = \<lparr> q_method = ''GET'', q_target = ''/a'', q_proto = ''HTTP/1.1'',
     q_headers = [\<lparr> hname = ''Host'', hvalue = ''h'' \<rparr>, \<lparr> hname = ''X-Empty'', hvalue = [] \<rparr>] \<rparr>"

theorem request_head_roundtrip_witness:
  "\<exists>raw. readHead (req_serialize demoReq @ ''body'') = Inr (raw, ''body'') \<and> parseRequestHead raw = Inr demoReq"
proof -
  have "reqHead_ok demoReq" by code_simp
  from request_head_roundtrip [OF this] show ?thesis .
qed

text \<open>
  a printed response head is read back whole and parses to the same protocol, status,
  reason (the empty one included) and headers.
\<close>

theorem response_head_roundtrip:
  assumes "resHead_ok r"
  shows "\<exists>raw. readHead (res_serialize r @ rest) = Inr (raw, rest) \<and> parseResponseHead raw = Inr r"
proof -
  have ok: "text_line (status_line r)" "list_all hdr_ok (r_headers r)" "length (res_serialize r) \<le> maxHeadBytes"
    using assms by (simp_all add: resHead_ok_def)
  have st: "100 \<le> r_status r" "r_status r \<le> 999" using assms by (simp_all add: resHead_ok_def)
  have "readHead (res_serialize r @ rest) = Inr (res_serialize r, rest)"
    using readHead_print [OF ok(1,2)] ok(3) by (simp add: res_serialize_status)
  moreover have "SplitN (status_line r) CHR '' '' 3 =
      r_proto r # itoa (r_status r) # (if r_reason r = [] then [] else [r_reason r])"
    unfolding status_line_def using assms st itoa_no_space [of "r_status r"]
    by (intro SplitN_status) (simp add: resHead_ok_def)
  then have "parseResponseHead (res_serialize r) = Inr r"
    using assms st by (simp add: parseResponseHead_def res_serialize_status splitHeadLines_print [OF ok(1,2)]
        itoa_parse resHead_ok_def)
  ultimately show ?thesis by blast
qed

theorem response_head_roundtrip_witness:
  "\<exists>raw. readHead (res_serialize \<lparr> r_proto = ''HTTP/1.1'', r_status = 404, r_reason = ''Not Found'',
      r_headers = [\<lparr> hname = ''Via'', hvalue = ''x y'' \<rparr>] \<rparr> @ ''tail'') = Inr (raw, ''tail'') \<and>
    parseResponseHead raw = Inr \<lparr> r_proto = ''HTTP/1.1'', r_status = 404, r_reason = ''Not Found'',
      r_headers = [\<lparr> hname = ''Via'', hvalue = ''x y'' \<rparr>] \<rparr>"
proof -
  have "resHead_ok \<lparr> r_proto = ''HTTP/1.1'', r_status = 404, r_reason = ''Not Found'',
      r_headers = [\<lparr> hname = ''Via'', hvalue = ''x y'' \<rparr>] \<rparr>"
    by (simp add: resHead_ok_def HasPrefix_def text_line_def status_line_def itoa_def Itoa_def show_base.simps
        digit_char_def char_of_def hdr_ok_def header_line_def TrimSpace_def TrimFunc_def TrimLeftFunc_def
        TrimRightFunc_def isSpace_def h1BufferSize_def maxHeadBytes_def res_serialize_def serializeHead_def
        crlf_def Let_def)
  from response_head_roundtrip [OF this] show ?thesis .
qed

text \<open>
  whatever the input, a head that is returned is at most 64 KiB long and is a run of the
  input with the rest following it, preceded only by line ends that were skipped.
\<close>

theorem readHead_exact:
  assumes "readHead s = Inr (h, rest)"
  shows "\<exists>blank. s = blank @ h @ rest \<and> set blank \<subseteq> {CR, LF} \<and> length h \<le> 64 * 1024"
  using readHead_loop_cut [OF assms [unfolded readHead_def]] by (auto simp: maxHeadBytes_def)

theorem readHead_exact_witness:
  "\<exists>blank. crlf @ req_serialize demoReq @ ''body'' = blank @ req_serialize demoReq @ ''body'' \<and>
     set blank \<subseteq> {CR, LF} \<and> length (req_serialize demoReq) \<le> 64 * 1024"
proof -
  have "readHead (crlf @ req_serialize demoReq @ ''body'') = Inr (req_serialize demoReq, ''body'')"
    by code_simp
  from readHead_exact [OF this] show ?thesis .
qed

text \<open>
  C33: a header line of exactly 4096 bytes ends the head: the reader hands it over as a full
  buffer, and its own line end then looks like the blank line, so the headers after it are
  left in the input as if they were the body.
\<close>

theorem readHead_cuts_full_line:
  assumes "text_line first" and "length l = h1BufferSize" and "LF \<notin> set l"
  shows "readHead (first @ crlf @ l @ crlf @ rest) = Inr (first @ crlf @ l @ crlf, rest)"
proof -
  let ?b = "first @ crlf"
  have len: "length (?b @ l @ crlf) \<le> maxHeadBytes"
    using assms by (simp add: text_line_def maxHeadBytes_def h1BufferSize_def crlf_def)
  have "readHead (first @ crlf @ l @ crlf @ rest) = readHead_loop ?b (l @ crlf @ rest)"
    using text_line_reads(1) [OF assms(1), of "l @ crlf @ rest"] text_line_reads(2) [OF assms(1)] len
    by (simp add: readHead_def readHead_loop.simps [of "[]" "first @ crlf @ l @ crlf @ rest"] Let_def)
  also have "\<dots> = readHead_loop (?b @ l) (crlf @ rest)"
    using readSlice_Full [OF assms(2,3), of "crlf @ rest"] len
    by (simp add: readHead_loop.simps [of ?b "l @ crlf @ rest"] Let_def)
  also have "\<dots> = Inr ((?b @ l) @ crlf, rest)"
    using readSlice_line [of crlf rest] len
    by (simp add: readHead_loop.simps [of "first @ crlf @ l" "crlf @ rest"] Let_def isBlank_def)
  finally show ?thesis by simp
qed

theorem readHead_cuts_full_line_witness:
  "readHead (''GET / HTTP/1.1'' @ crlf @ (''A: '' @ replicate 4093 CHR ''x'') @ crlf @ ''Content-Length: 5'' @ crlf @ crlf) =
     Inr (''GET / HTTP/1.1'' @ crlf @ (''A: '' @ replicate 4093 CHR ''x'') @ crlf, ''Content-Length: 5'' @ crlf @ crlf)"
  by (rule readHead_cuts_full_line) (simp_all add: text_line_def h1BufferSize_def)

end
