(* ===== verification/HTTP1Body.thy ===== *)
theory HTTP1Body
  imports HTTP1
begin

text \<open>
  The copy loops of \<open>vpntunnel/http1.go\<close> and its spill buffer. A copy reads an input, hands
  each piece of payload to the sink before the destination, and forwards the framing as it
  came. What the loops need of the two writers is the locale \<open>body_writer\<close>; the connection
  with a recorder behind it and the spill buffer are its two interpretations.
\<close>

subsection \<open>Definitions: lines and pieces\<close>

definition readLine :: "string \<Rightarrow> (httpError + string) \<times> string" where
  "readLine s =
     (case readSlice s of
        (line, rest, r) \<Rightarrow>
          ((if r = ReadFull then Inl lineTooLong else if r = ReadEOF then Inl readEOF else Inr line), rest))"

type_synonym 'w writer = "'w \<Rightarrow> string \<Rightarrow> 'w \<times> bool"
type_synonym 'w copied = "'w \<times> string \<times> httpError option"

text \<open>
  \<open>io.CopyN(dst, io.TeeReader(src, sink), n)\<close>. How many bytes one read delivers is up to the
  reader, here \<open>rd\<close> of what is left; it is at least one and at most what was asked for.
\<close>

definition pieceLen :: "(string \<Rightarrow> nat) \<Rightarrow> nat \<Rightarrow> string \<Rightarrow> nat" where
  "pieceLen rd n s = max 1 (min (rd s) (min n (length s)))"

function copyN :: "(string \<Rightarrow> nat) \<Rightarrow> 'w writer \<Rightarrow> 'w writer \<Rightarrow> nat \<Rightarrow> 'w \<Rightarrow> string \<Rightarrow> 'w copied" where
  "copyN rd wr sk n w s =
     (if n = 0 then (w, s, None)
      else if s = [] then (w, s, Some readEOF)
      else let k = pieceLen rd n s; p = take k s; rest = drop k s in
        case sk w p of
          (w1, ok) \<Rightarrow>
            if \<not> ok then (w1, rest, Some writeFailed)
            else case wr w1 p of
                   (w2, ok2) \<Rightarrow>
                     if \<not> ok2 then (w2, rest, Some writeFailed)
                     else copyN rd wr sk (n - k) w2 rest)"
  by pat_completeness auto
termination
  by (relation "measure (\<lambda>(rd, wr, sk, n, w, s). length s)") (auto simp: pieceLen_def)

declare copyN.simps [simp del]

subsection \<open>Definitions: chunked bodies\<close>

definition chunkSize :: "string \<Rightarrow> nat option" where
  "chunkSize line =
     (let sizeStr = TrimSpace line;
          sizeStr = (case IndexByte sizeStr CHR '';'' of
                       Some i \<Rightarrow> TrimSpace (take i sizeStr) | None \<Rightarrow> sizeStr)
      in case ParseInt sizeStr 16 64 of
           None \<Rightarrow> None
         | Some sz \<Rightarrow> if sz < 0 then None else Some (nat sz))"

lemma readLine_shorter: "readLine s = (Inr line, rest) \<Longrightarrow> s = line @ rest \<and> is_line line"
  using readSlice_OK [of s line rest]
  by (auto simp: readLine_def split: prod.splits if_splits readResult.splits) (metis readResult.exhaust)+

lemma readLine_less: "readLine s = (Inr line, rest) \<Longrightarrow> length rest < length s"
  using readLine_shorter [of s line rest] by (auto simp: is_line_def)

function trailer_loop :: "'w writer \<Rightarrow> 'w \<Rightarrow> string \<Rightarrow> 'w copied" where
  "trailer_loop wr w s =
     (case readLine s of
        (Inl e, rest) \<Rightarrow> (w, rest, Some e)
      | (Inr t, rest) \<Rightarrow>
          (case wr w t of
             (w1, ok) \<Rightarrow>
               if \<not> ok then (w1, rest, Some writeFailed)
               else if isBlank t then (w1, rest, None)
               else trailer_loop wr w1 rest))"
  by pat_completeness auto
termination
  by (relation "measure (\<lambda>(wr, w, s). length s)") (auto dest: readLine_less [OF sym])

declare trailer_loop.simps [simp del]

lemma copyN_rest: "copyN rd wr sk n w s = (w', rest, e) \<Longrightarrow> length rest \<le> length s"
proof (induction rd wr sk n w s rule: copyN.induct)
  case (1 rd wr sk n w s)
  then show ?case
    by (subst (asm) copyN.simps) (fastforce simp: Let_def split: prod.splits if_splits)
qed

function copyChunked :: "(string \<Rightarrow> nat) \<Rightarrow> 'w writer \<Rightarrow> 'w writer \<Rightarrow> 'w \<Rightarrow> string \<Rightarrow> 'w copied" where
  "copyChunked rd wr sk w s =
     (case readLine s of
        (Inl e, rest) \<Rightarrow> (w, rest, Some e)
      | (Inr line, rest) \<Rightarrow>
          (case chunkSize line of
             None \<Rightarrow> (w, rest, Some badChunkSize)
           | Some sz \<Rightarrow>
               (case wr w line of
                  (w1, ok) \<Rightarrow>
                    if \<not> ok then (w1, rest, Some writeFailed)
                    else if sz = 0 then trailer_loop wr w1 rest
                    else (case copyN rd wr sk sz w1 rest of
                            (w2, rest2, Some e) \<Rightarrow> (w2, rest2, Some e)
                          | (w2, rest2, None) \<Rightarrow>
                              (case readLine rest2 of
                                 (Inl e, rest3) \<Rightarrow> (w2, rest3, Some e)
                               | (Inr end_line, rest3) \<Rightarrow>
                                   (case wr w2 end_line of
                                      (w3, ok3) \<Rightarrow>
                                        if \<not> ok3 then (w3, rest3, Some writeFailed)
                                        else copyChunked rd wr sk w3 rest3))))))"
  by pat_completeness auto
termination
  by (relation "measure (\<lambda>(rd, wr, sk, w, s). length s)")
    (auto dest!: readLine_less [OF sym] copyN_rest [OF sym])

declare copyChunked.simps [simp del]

definition copyBody ::
  "(string \<Rightarrow> nat) \<Rightarrow> 'w writer \<Rightarrow> 'w writer \<Rightarrow> framing \<Rightarrow> 'w \<Rightarrow> string \<Rightarrow> 'w copied" where
  "copyBody rd wr sk kind w s =
     (case kind of
        framingNone \<Rightarrow> (w, s, None)
      | framingLength n \<Rightarrow> copyN rd wr sk n w s
      | framingUntilClose \<Rightarrow> copyN rd wr sk (length s) w s
      | framingChunked \<Rightarrow> copyChunked rd wr sk w s)"

subsection \<open>Definitions: writers\<close>

text \<open>A connection: what went out, and how many writes still succeed (\<open>None\<close>: all of them).\<close>

record conn =
  sent :: string
  room :: "nat option"

definition conn_write :: "conn \<Rightarrow> string \<Rightarrow> conn \<times> bool" where
  "conn_write c p =
     (case room c of
        None \<Rightarrow> (c\<lparr>sent := sent c @ p\<rparr>, True)
      | Some 0 \<Rightarrow> (c, False)
      | Some (Suc n) \<Rightarrow> (c\<lparr>sent := sent c @ p, room := Some n\<rparr>, True))"

text \<open>A connection and the recorder's sink beside it, as \<open>copyBody\<close> gets them.\<close>

record pipe =
  p_conn :: conn
  p_sink :: string

definition pipe_write :: "pipe writer" where
  "pipe_write w p = (case conn_write (p_conn w) p of (c, ok) \<Rightarrow> (w\<lparr>p_conn := c\<rparr>, ok))"

definition pipe_sink :: "pipe writer" where
  "pipe_sink w p = (w\<lparr>p_sink := p_sink w @ p\<rparr>, True)"

text \<open>
  The spill buffer. \<open>sp_head\<close> is what its \<open>onSpill\<close> writes to the destination, \<open>sp_sink\<close>
  the recorder (\<open>None\<close> when there is none).
\<close>

record spillBuffer =
  sp_raw :: string
  sp_data :: string
  limit :: nat
  spilled :: bool
  sp_dst :: conn
  sp_head :: string
  sp_sink :: "string option"
  sp_err :: bool

definition rawLimit :: "spillBuffer \<Rightarrow> nat" where
  "rawLimit s = limit s + 64 * 1024"

definition spill :: "spillBuffer \<Rightarrow> spillBuffer \<times> bool" where
  "spill s =
     (case conn_write (sp_dst s) (sp_head s) of
        (c1, ok1) \<Rightarrow>
          if \<not> ok1 then (s\<lparr>sp_dst := c1, sp_err := True\<rparr>, False)
          else case conn_write c1 (sp_raw s) of
                 (c2, ok2) \<Rightarrow>
                   if \<not> ok2 then (s\<lparr>sp_dst := c2, sp_err := True\<rparr>, False)
                   else (s\<lparr>sp_dst := c2, sp_sink := map_option (\<lambda>x. x @ sp_data s) (sp_sink s),
                           sp_raw := [], sp_data := [], spilled := True\<rparr>, True))"

definition spillRaw_Write :: "spillBuffer writer" where
  "spillRaw_Write s p =
     (if sp_err s then (s, False)
      else case (if \<not> spilled s \<and> length (sp_raw s) + length p > rawLimit s then spill s else (s, True)) of
             (s1, ok) \<Rightarrow>
               if \<not> ok then (s1, False)
               else if spilled s1
               then (case conn_write (sp_dst s1) p of (c, ok2) \<Rightarrow> (s1\<lparr>sp_dst := c\<rparr>, ok2))
               else (s1\<lparr>sp_raw := sp_raw s1 @ p\<rparr>, True))"

definition spillData_Write :: "spillBuffer writer" where
  "spillData_Write s p =
     (if spilled s then (s\<lparr>sp_sink := map_option (\<lambda>x. x @ p) (sp_sink s)\<rparr>, True)
      else let s1 = s\<lparr>sp_data := sp_data s @ p\<rparr> in
        if length (sp_data s1) > limit s1 then spill s1 else (s1, True))"

subsection \<open>The grammar of chunked bodies\<close>

text \<open>
  The language the loop accepts, with the payload: chunks, each a size line, the data and one
  more line, then a line of size zero and trailer lines up to a blank one. A line fits the
  reader's buffer. The line after the data may hold anything, as in the code.
\<close>

inductive is_trailer :: "string \<Rightarrow> bool" where
  blank: "isBlank l \<Longrightarrow> is_trailer l"
| field: "is_line l \<Longrightarrow> \<not> isBlank l \<Longrightarrow> is_trailer t \<Longrightarrow> is_trailer (l @ t)"

inductive chunked_body :: "string \<Rightarrow> string \<Rightarrow> bool" where
  last_chunk: "is_line l \<Longrightarrow> chunkSize l = Some 0 \<Longrightarrow> is_trailer t \<Longrightarrow> chunked_body (l @ t) []"
| chunk: "is_line l \<Longrightarrow> chunkSize l = Some n \<Longrightarrow> n \<noteq> 0 \<Longrightarrow> length d = n \<Longrightarrow> is_line e \<Longrightarrow>
    chunked_body raw p \<Longrightarrow> chunked_body (l @ d @ e @ raw) (d @ p)"

lemma line_unique:
  assumes "is_line l" "is_line l'" "l @ x = l' @ y"
  shows "l = l'" and "x = y"
  using readSlice_line [OF assms(1), of x] readSlice_line [OF assms(2), of y] unfolding assms(3) by simp_all

lemma chunked_payload_unique:
  assumes "chunked_body raw p" and "chunked_body raw p'"
  shows "p' = p"
  using assms
proof (induction arbitrary: p')
  case (last_chunk l t)
  from last_chunk.prems show ?case
  proof cases
    case (chunk l' n' d e raw' q)
    from line_unique(1) [OF last_chunk.hyps(1) chunk(3) chunk(1)] last_chunk.hyps(2) chunk(4,5) show ?thesis by simp
  qed simp
next
  case (chunk l n d e raw p)
  from chunk.prems show ?case
  proof cases
    case (last_chunk l' t)
    from line_unique(1) [OF chunk.hyps(1) last_chunk(3,1)] chunk.hyps(2,3) last_chunk(4) show ?thesis by simp
  next
    case c: (chunk l' n' d' e' raw' q)
    note 1 = line_unique [OF chunk.hyps(1) c(3,1)]
    have "length d = length d'" using chunk.hyps(2,4) c(4,6) 1(1) by simp
    with 1(2) have 2: "d = d'" "e @ raw = e' @ raw'" by simp_all
    from line_unique(2) [OF chunk.hyps(5) c(7) 2(2)] c(8) have "chunked_body raw q" by simp
    from chunk.IH [OF this] c(2) 2(1) show ?thesis by simp
  qed
qed

text \<open>The framed body and its payload, for every framing.\<close>

definition framed :: "framing \<Rightarrow> string \<Rightarrow> string \<Rightarrow> bool" where
  "framed kind raw p =
     (case kind of
        framingNone \<Rightarrow> raw = [] \<and> p = []
      | framingLength n \<Rightarrow> length raw = n \<and> p = raw
      | framingUntilClose \<Rightarrow> p = raw
      | framingChunked \<Rightarrow> chunked_body raw p)"

lemma isBlank_line: "isBlank l \<Longrightarrow> is_line l"
  by (auto simp: isBlank_def)

lemma readLine_line: "is_line l \<Longrightarrow> readLine (l @ rest) = (Inr l, rest)"
  by (simp add: readLine_def readSlice_line)

subsection \<open>What the copy loops need of their writers\<close>

locale body_writer =
  fixes wr sk :: "'w \<Rightarrow> string \<Rightarrow> 'w \<times> bool"
    and inv :: "'w \<Rightarrow> bool" and out pay :: "'w \<Rightarrow> string"
  assumes wr_ok: "inv w \<Longrightarrow> wr w p = (w', True) \<Longrightarrow> inv w' \<and> out w' = out w @ p \<and> pay w' = pay w"
    and sk_ok: "inv w \<Longrightarrow> sk w p = (w', True) \<Longrightarrow> inv w' \<and> out w' = out w \<and> pay w' = pay w @ p"
begin

lemma wr_D: "inv w \<Longrightarrow> wr w p = (w', ok) \<Longrightarrow> ok \<Longrightarrow> inv w' \<and> out w' = out w @ p \<and> pay w' = pay w"
  by (simp add: wr_ok)

lemma sk_D: "inv w \<Longrightarrow> sk w p = (w', ok) \<Longrightarrow> ok \<Longrightarrow> inv w' \<and> out w' = out w \<and> pay w' = pay w @ p"
  by (simp add: sk_ok)

lemma copyN_ok:
  assumes "inv w" and "copyN rd wr sk n w s = (w', rest, None)"
  shows "\<exists>d. s = d @ rest \<and> length d = n \<and> inv w' \<and> out w' = out w @ d \<and> pay w' = pay w @ d"
  using assms
proof (induction "length s" arbitrary: n w s rule: less_induct)
  case less
  show ?case
  proof (cases "n = 0")
    case True
    with less.prems show ?thesis by (simp add: copyN.simps [of rd wr sk 0 w s])
  next
    case False
    with less.prems(2) have ne: "s \<noteq> []" by (auto simp: copyN.simps [of rd wr sk n w s])
    define k where "k = pieceLen rd n s"
    have k: "0 < k" "k \<le> n" "k \<le> length s" using False ne by (auto simp: k_def pieceLen_def Suc_le_eq)
    obtain w1 ok1 where w1: "sk w (take k s) = (w1, ok1)" by (cases "sk w (take k s)")
    obtain w2 ok2 where w2: "wr w1 (take k s) = (w2, ok2)" by (cases "wr w1 (take k s)")
    have step: "ok1 \<and> ok2 \<and> copyN rd wr sk (n - k) w2 (drop k s) = (w', rest, None)"
      using less.prems(2) False ne w1 w2
      by (simp add: copyN.simps [of rd wr sk n w s] Let_def k_def [symmetric] split: if_splits)
    have i1: "inv w1 \<and> out w1 = out w \<and> pay w1 = pay w @ take k s" using sk_D less.prems(1) w1 step by blast
    with wr_D w2 step have i2: "inv w2 \<and> out w2 = out w @ take k s \<and> pay w2 = pay w @ take k s" by metis
    have "length (drop k s) < length s" using k(1) ne by simp
    from less.hyps [OF this] i2 step obtain d where d: "drop k s = d @ rest" "length d = n - k"
      "inv w'" "out w' = out w2 @ d" "pay w' = pay w2 @ d" by blast
    have "s = (take k s @ d) @ rest" using d(1) append_take_drop_id [of k s] by simp
    moreover have "length (take k s @ d) = n" using d(2) k by simp
    moreover have "out w' = out w @ (take k s @ d)" "pay w' = pay w @ (take k s @ d)" using d i2 by simp_all
    ultimately show ?thesis using d(3) by blast
  qed
qed

lemma trailer_ok:
  assumes "inv w" and "trailer_loop wr w s = (w', rest, None)"
  shows "\<exists>t. s = t @ rest \<and> is_trailer t \<and> inv w' \<and> out w' = out w @ t \<and> pay w' = pay w"
  using assms
proof (induction "length s" arbitrary: w s rule: less_induct)
  case less
  obtain l r where l: "readLine s = (Inr l, r)"
    using less.prems(2) by (cases "readLine s") (auto simp: trailer_loop.simps [of wr w s] split: sum.splits)
  obtain w1 ok where w1: "wr w l = (w1, ok)" by (cases "wr w l")
  have ok: "ok" using less.prems(2) l w1 by (simp add: trailer_loop.simps [of wr w s] split: if_splits)
  note s = readLine_shorter [OF l]
  have i: "inv w1 \<and> out w1 = out w @ l \<and> pay w1 = pay w" using wr_D less.prems(1) w1 ok by blast
  show ?case
  proof (cases "isBlank l")
    case True
    with less.prems(2) l w1 ok have "w' = w1" "rest = r" by (simp_all add: trailer_loop.simps [of wr w s])
    with True i s show ?thesis by (blast intro: is_trailer.blank)
  next
    case False
    with less.prems(2) l w1 ok have "trailer_loop wr w1 r = (w', rest, None)"
      by (simp add: trailer_loop.simps [of wr w s])
    with less.hyps [OF readLine_less [OF l]] i obtain t where
      t: "r = t @ rest" "is_trailer t" "inv w'" "out w' = out w1 @ t" "pay w' = pay w1" by blast
    have "is_trailer (l @ t)" using s False t(2) by (blast intro: is_trailer.field)
    moreover have "s = (l @ t) @ rest" "out w' = out w @ (l @ t)" "pay w' = pay w" using s t i by simp_all
    ultimately show ?thesis using t(3) by blast
  qed
qed

lemma copyChunked_ok:
  assumes "inv w" and "copyChunked rd wr sk w s = (w', rest, None)"
  shows "\<exists>raw p. s = raw @ rest \<and> chunked_body raw p \<and> inv w' \<and> out w' = out w @ raw \<and> pay w' = pay w @ p"
  using assms
proof (induction "length s" arbitrary: w s rule: less_induct)
  case less
  note un = copyChunked.simps [of rd wr sk w s]
  obtain l r where l: "readLine s = (Inr l, r)"
    using less.prems(2) by (cases "readLine s") (auto simp: un split: sum.splits)
  obtain n where n: "chunkSize l = Some n"
    using less.prems(2) l by (cases "chunkSize l") (auto simp: un)
  obtain w1 ok where w1: "wr w l = (w1, ok)" by (cases "wr w l")
  have ok: "ok" using less.prems(2) l n w1 by (simp add: un split: if_splits)
  note s = readLine_shorter [OF l]
  have i1: "inv w1 \<and> out w1 = out w @ l \<and> pay w1 = pay w" using wr_D less.prems(1) w1 ok by blast
  show ?case
  proof (cases "n = 0")
    case True
    with less.prems(2) l n w1 ok have "trailer_loop wr w1 r = (w', rest, None)" by (simp add: un)
    with trailer_ok i1 obtain t where t: "r = t @ rest" "is_trailer t" "inv w'" "out w' = out w1 @ t" "pay w' = pay w1"
      by blast
    have "chunked_body (l @ t) []" using s n True t(2) by (auto intro: last_chunk)
    moreover have "s = (l @ t) @ rest" "out w' = out w @ (l @ t)" "pay w' = pay w @ []" using s t i1 by simp_all
    ultimately show ?thesis using t(3) by blast
  next
    case False
    obtain w2 r2 e2 where c2: "copyN rd wr sk n w1 r = (w2, r2, e2)" by (cases "copyN rd wr sk n w1 r")
    have e2: "e2 = None" using less.prems(2) l n w1 ok False c2 by (cases e2) (simp_all add: un)
    from copyN_ok c2 e2 i1 obtain d where d: "r = d @ r2" "length d = n" "inv w2" "out w2 = out w1 @ d" "pay w2 = pay w1 @ d"
      by blast
    obtain e r3 where l3: "readLine r2 = (Inr e, r3)"
      using less.prems(2) l n w1 ok False c2 e2 by (cases "readLine r2") (auto simp: un split: sum.splits)
    obtain w3 ok3 where w3: "wr w2 e = (w3, ok3)" by (cases "wr w2 e")
    have ok3: "ok3 \<and> copyChunked rd wr sk w3 r3 = (w', rest, None)"
      using less.prems(2) l n w1 ok False c2 e2 l3 w3 by (simp add: un split: if_splits)
    have i3: "inv w3 \<and> out w3 = out w2 @ e \<and> pay w3 = pay w2" using wr_D d(3) w3 ok3 by blast
    note s3 = readLine_shorter [OF l3]
    have "length r3 < length s" using readLine_less [OF l3] readLine_less [OF l] d(1) by simp
    with less.hyps i3 ok3 obtain raw p where
      h: "r3 = raw @ rest" "chunked_body raw p" "inv w'" "out w' = out w3 @ raw" "pay w' = pay w3 @ p" by blast
    have "chunked_body (l @ d @ e @ raw) (d @ p)" using s n False d(2) s3 h(2) by (intro chunk) simp_all
    moreover have "s = (l @ d @ e @ raw) @ rest" "out w' = out w @ (l @ d @ e @ raw)" "pay w' = pay w @ (d @ p)"
      using s d h s3 i1 i3 by simp_all
    ultimately show ?thesis using h(3) by blast
  qed
qed

lemma copyBody_ok:
  assumes "inv w" and "copyBody rd wr sk kind w s = (w', rest, None)"
  shows "\<exists>raw p. s = raw @ rest \<and> framed kind raw p \<and> inv w' \<and> out w' = out w @ raw \<and> pay w' = pay w @ p"
proof (cases kind)
  case framingNone
  with assms show ?thesis by (simp add: copyBody_def framed_def)
next
  case (framingLength n)
  with assms(2) have "copyN rd wr sk n w s = (w', rest, None)" by (simp add: copyBody_def)
  from copyN_ok [OF assms(1) this] framingLength show ?thesis by (auto simp: framed_def)
next
  case framingChunked
  with copyChunked_ok assms show ?thesis by (simp add: copyBody_def framed_def)
next
  case framingUntilClose
  with assms(2) have "copyN rd wr sk (length s) w s = (w', rest, None)" by (simp add: copyBody_def)
  from copyN_ok [OF assms(1) this] framingUntilClose show ?thesis by (auto simp: framed_def)
qed

end

text \<open>A pair of writers that never fails: then every body of the grammar is accepted.\<close>

locale reliable_writer = body_writer +
  assumes wr_total: "inv w \<Longrightarrow> snd (wr w p)" and sk_total: "inv w \<Longrightarrow> snd (sk w p)"
begin

lemma copyN_accepts:
  assumes "inv w"
  shows "\<exists>w'. copyN rd wr sk (length d) w (d @ rest) = (w', rest, None)"
  using assms
proof (induction "length d" arbitrary: w d rule: less_induct)
  case less
  let ?s = "d @ rest"
  show ?case
  proof (cases "d = []")
    case True
    then show ?thesis by (simp add: copyN.simps [of rd wr sk 0])
  next
    case False
    define k where "k = pieceLen rd (length d) ?s"
    have k: "0 < k" "k \<le> length d" using False by (auto simp: k_def pieceLen_def Suc_le_eq)
    obtain w1 where w1: "sk w (take k ?s) = (w1, True)" using sk_total [OF less.prems] by (metis prod.collapse)
    then have "inv w1" using sk_ok less.prems by blast
    then obtain w2 where w2: "wr w1 (take k ?s) = (w2, True)" using wr_total by (metis prod.collapse)
    with \<open>inv w1\<close> wr_ok have "inv w2" by blast
    moreover have "length (drop k d) < length d" using k False by simp
    ultimately obtain w' where "copyN rd wr sk (length (drop k d)) w2 (drop k d @ rest) = (w', rest, None)"
      using less.hyps by blast
    then have "copyN rd wr sk (length d) w ?s = (w', rest, None)"
      using False w1 w2 k by (simp add: copyN.simps [of rd wr sk "length d" w ?s] Let_def k_def [symmetric])
    then show ?thesis by blast
  qed
qed

lemma trailer_accepts:
  assumes "is_trailer t" and "inv w"
  shows "\<exists>w'. trailer_loop wr w (t @ rest) = (w', rest, None)"
  using assms
proof (induction arbitrary: w)
  case (blank l)
  obtain w1 where "wr w l = (w1, True)" using wr_total [OF blank(2)] by (metis prod.collapse)
  with blank show ?case
    by (simp add: trailer_loop.simps [of wr w "l @ rest"] readLine_line isBlank_line)
next
  case (field l t)
  obtain w1 where w1: "wr w l = (w1, True)" using wr_total [OF field.prems] by (metis prod.collapse)
  with wr_ok field.prems have "inv w1" by blast
  with field.IH obtain w' where "trailer_loop wr w1 (t @ rest) = (w', rest, None)" by blast
  with field.hyps w1 show ?case
    by (simp add: trailer_loop.simps [of wr w "l @ t @ rest"] readLine_line)
qed

lemma copyChunked_accepts:
  assumes "chunked_body raw p" and "inv w"
  shows "\<exists>w'. copyChunked rd wr sk w (raw @ rest) = (w', rest, None)"
  using assms
proof (induction arbitrary: w)
  case (last_chunk l t)
  obtain w1 where w1: "wr w l = (w1, True)" using wr_total [OF last_chunk.prems] by (metis prod.collapse)
  with wr_ok last_chunk.prems have "inv w1" by blast
  with trailer_accepts last_chunk.hyps(3) obtain w' where "trailer_loop wr w1 (t @ rest) = (w', rest, None)" by blast
  with last_chunk.hyps w1 show ?case
    by (simp add: copyChunked.simps [of rd wr sk w "l @ t @ rest"] readLine_line)
next
  case (chunk l n d e raw p)
  let ?r = "e @ raw @ rest"
  obtain w1 where w1: "wr w l = (w1, True)" using wr_total [OF chunk.prems] by (metis prod.collapse)
  with wr_ok chunk.prems have i1: "inv w1" by blast
  from copyN_accepts [OF i1] obtain w2 where w2: "copyN rd wr sk n w1 (d @ ?r) = (w2, ?r, None)"
    using chunk.hyps(4) by blast
  with copyN_ok i1 have i2: "inv w2" by blast
  obtain w3 where w3: "wr w2 e = (w3, True)" using wr_total [OF i2] by (metis prod.collapse)
  with wr_ok i2 have "inv w3" by blast
  with chunk.IH obtain w' where "copyChunked rd wr sk w3 (raw @ rest) = (w', rest, None)" by blast
  with chunk.hyps w1 w2 w3 show ?case
    by (simp add: copyChunked.simps [of rd wr sk w "l @ d @ ?r"] readLine_line)
qed

end

subsection \<open>The two pairs of writers\<close>

lemma pipe_writes:
  "pipe_write w p = (w', ok) \<Longrightarrow> ok \<Longrightarrow>
     sent (p_conn w') = sent (p_conn w) @ p \<and> p_sink w' = p_sink w \<and> (room (p_conn w) = None \<longrightarrow> room (p_conn w') = None)"
  by (auto simp: pipe_write_def conn_write_def split: option.splits nat.splits)

interpretation pipe: reliable_writer pipe_write pipe_sink
  "\<lambda>w. room (p_conn w) = None" "\<lambda>w. sent (p_conn w)" p_sink
proof (unfold_locales, goal_cases)
  case (1 w p w')
  with pipe_writes [of w p w' True] show ?case by simp
next
  case (3 w p)
  then show ?case by (simp add: pipe_write_def conn_write_def)
qed (auto simp: pipe_sink_def)

interpretation pipe_any: body_writer pipe_write pipe_sink "\<lambda>w. True" "\<lambda>w. sent (p_conn w)" p_sink
proof (unfold_locales, goal_cases)
  case (1 w p w')
  with pipe_writes [of w p w' True] show ?case by simp
qed (auto simp: pipe_sink_def)

text \<open>
  What the receiver of a spilled message has got, or would have got after the head: the
  pending bytes count as sent. Unspilled, the destination and the recorder are untouched and
  the buffers within their limits.
\<close>

definition spill_out :: "spillBuffer \<Rightarrow> string" where
  "spill_out s = (if spilled s then sent (sp_dst s) else sent (sp_dst s) @ sp_head s @ sp_raw s)"

definition spill_pay :: "spillBuffer \<Rightarrow> string" where
  "spill_pay s = the (sp_sink s) @ sp_data s"

definition spill_inv :: "spillBuffer \<Rightarrow> spillBuffer \<Rightarrow> bool" where
  "spill_inv s0 s \<longleftrightarrow> \<not> sp_err s \<and> sp_sink s \<noteq> None \<and> limit s = limit s0 \<and> sp_head s = sp_head s0 \<and>
     (if spilled s then sp_raw s = [] \<and> sp_data s = []
      else sp_dst s = sp_dst s0 \<and> sp_sink s = sp_sink s0 \<and>
           length (sp_raw s) \<le> rawLimit s \<and> length (sp_data s) \<le> limit s)"

lemma conn_write_sent: "conn_write c p = (c', True) \<Longrightarrow> sent c' = sent c @ p"
  by (auto simp: conn_write_def split: option.splits nat.splits)

lemma spill_ok:
  assumes "spill s = (s', True)" "\<not> spilled s" "sp_sink s \<noteq> None"
  shows "spilled s' \<and> sp_raw s' = [] \<and> sp_data s' = [] \<and> sp_err s' = sp_err s \<and> sp_sink s' \<noteq> None \<and>
    limit s' = limit s \<and> sp_head s' = sp_head s \<and> spill_out s' = spill_out s \<and> spill_pay s' = spill_pay s"
  using assms
  by (auto simp: spill_def spill_out_def spill_pay_def dest!: conn_write_sent split: prod.splits if_splits)

interpretation spilling: body_writer spillRaw_Write spillData_Write "spill_inv s0" spill_out spill_pay for s0
proof (unfold_locales, goal_cases)
  case (1 w p w')
  show ?case
  proof (cases "spilled w")
    case True
    with 1 show ?thesis
      by (auto simp: spillRaw_Write_def spill_inv_def spill_out_def spill_pay_def dest!: conn_write_sent
          split: prod.splits if_splits)
  next
    case False
    show ?thesis
    proof (cases "length (sp_raw w) + length p > rawLimit w")
      case True
      with 1 False obtain s1 where s1: "spill w = (s1, True)"
        by (auto simp: spillRaw_Write_def spill_inv_def split: prod.splits if_splits)
      have k: "sp_sink w \<noteq> None" using 1(1) by (simp add: spill_inv_def)
      note s1' = spill_ok [OF s1 False k]
      with 1 s1 True False obtain c where "conn_write (sp_dst s1) p = (c, True)" "w' = s1\<lparr>sp_dst := c\<rparr>"
        by (auto simp: spillRaw_Write_def spill_inv_def split: prod.splits if_splits)
      with s1' 1(1) conn_write_sent [of "sp_dst s1" p c] show ?thesis
        by (auto simp: spill_inv_def spill_out_def spill_pay_def)
    next
      case fits: False
      with 1 False show ?thesis
        by (auto simp: spillRaw_Write_def spill_inv_def spill_out_def spill_pay_def rawLimit_def)
    qed
  qed
next
  case (2 w p w')
  show ?case
  proof (cases "spilled w")
    case True
    with 2 show ?thesis by (auto simp: spillData_Write_def spill_inv_def spill_out_def spill_pay_def)
  next
    case False
    let ?w = "w\<lparr>sp_data := sp_data w @ p\<rparr>"
    show ?thesis
    proof (cases "length (sp_data ?w) > limit ?w")
      case True
      with 2 False have "spill ?w = (w', True)" by (simp add: spillData_Write_def Let_def)
      from spill_ok [OF this] 2(1) False show ?thesis
        by (auto simp: spill_inv_def spill_out_def spill_pay_def)
    next
      case fits: False
      with 2 False show ?thesis
        by (auto simp: spillData_Write_def spill_inv_def spill_out_def spill_pay_def Let_def rawLimit_def)
    qed
  qed
qed

subsection \<open>Properties\<close>


definition demoChunks :: string where
  "demoChunks = ''5;x=1'' @ crlf @ ''hello'' @ crlf @ ''0'' @ crlf @ ''T: v'' @ crlf @ crlf"

lemma demoChunks_body: "chunked_body demoChunks ''hello''"
proof -
  have "is_line (''T: v'' @ crlf)" "\<not> isBlank (''T: v'' @ crlf)" "isBlank crlf" by code_simp+
  then have "is_trailer ((''T: v'' @ crlf) @ crlf)" by (intro is_trailer.intros)
  moreover have "is_line (''0'' @ crlf)" "chunkSize (''0'' @ crlf) = Some 0" by code_simp+
  ultimately have "chunked_body ((''0'' @ crlf) @ (''T: v'' @ crlf) @ crlf) []" by (intro last_chunk)
  moreover have "is_line (''5;x=1'' @ crlf)" "chunkSize (''5;x=1'' @ crlf) = Some 5" by code_simp+
  ultimately have "chunked_body ((''5;x=1'' @ crlf) @ ''hello'' @ crlf @ (''0'' @ crlf) @ (''T: v'' @ crlf) @ crlf) (''hello'' @ [])"
    by (intro chunk) simp_all
  then show ?thesis by (simp add: demoChunks_def)
qed


text \<open>
  a body copied through the spill buffer loses nothing. If the copy succeeds, it consumed
  one body of its framing. Unspilled, the destination and the recorder are as before and the
  two buffers hold the raw body and its payload, within 64 KiB above the limit and within the
  limit; spilled, the destination got the head and then every raw byte, the recorder the
  whole payload, and the buffers are empty.
\<close>

theorem spill_transparent:
  assumes "sp_raw s0 = []" and "sp_data s0 = []" and "\<not> spilled s0" and "\<not> sp_err s0" and "sp_sink s0 = Some k"
    and "copyBody rd spillRaw_Write spillData_Write kind s0 s = (s1, rest, None)"
  shows "\<exists>raw p. s = raw @ rest \<and> framed kind raw p \<and>
    (if spilled s1
     then sent (sp_dst s1) = sent (sp_dst s0) @ sp_head s0 @ raw \<and> sp_sink s1 = Some (k @ p) \<and>
          sp_raw s1 = [] \<and> sp_data s1 = []
     else sp_dst s1 = sp_dst s0 \<and> sp_sink s1 = Some k \<and> sp_raw s1 = raw \<and> sp_data s1 = p \<and>
          length raw \<le> limit s0 + 65536 \<and> length p \<le> limit s0)"
proof -
  have i: "spill_inv s0 s0" using assms(1-5) by (simp add: spill_inv_def)
  from spilling.copyBody_ok [OF i assms(6)] obtain raw p where
    r: "s = raw @ rest" "framed kind raw p" "spill_inv s0 s1"
      "spill_out s1 = spill_out s0 @ raw" "spill_pay s1 = spill_pay s0 @ p" by blast
  with assms(1-5) have "if spilled s1
     then sent (sp_dst s1) = sent (sp_dst s0) @ sp_head s0 @ raw \<and> sp_sink s1 = Some (k @ p) \<and>
          sp_raw s1 = [] \<and> sp_data s1 = []
     else sp_dst s1 = sp_dst s0 \<and> sp_sink s1 = Some k \<and> sp_raw s1 = raw \<and> sp_data s1 = p \<and>
          length raw \<le> limit s0 + 65536 \<and> length p \<le> limit s0"
    by (auto simp: spill_inv_def spill_out_def spill_pay_def rawLimit_def)
  with r(1,2) show ?thesis by blast
qed

definition demoSpill :: "nat \<Rightarrow> spillBuffer" where
  "demoSpill n = \<lparr> sp_raw = [], sp_data = [], limit = n, spilled = False, sp_dst = \<lparr> sent = [], room = None \<rparr>,
     sp_head = ''HEAD'', sp_sink = Some [], sp_err = False \<rparr>"

theorem spill_transparent_witness:
  "\<exists>s1 raw p. copyBody (\<lambda>_. 2) spillRaw_Write spillData_Write (framingLength 5) (demoSpill 3) ''hello!'' = (s1, ''!'', None) \<and>
     spilled s1 \<and> ''hello!'' = raw @ ''!'' \<and> sent (sp_dst s1) = ''HEAD'' @ raw \<and> sp_sink s1 = Some p \<and> p = raw"
proof -
  obtain s1 where c: "copyBody (\<lambda>_. 2) spillRaw_Write spillData_Write (framingLength 5) (demoSpill 3) ''hello!'' = (s1, ''!'', None)"
    "spilled s1"
    by (simp add: copyBody_def copyN.simps pieceLen_def spillData_Write_def spillRaw_Write_def spill_def
        demoSpill_def conn_write_def rawLimit_def Let_def)
  from spill_transparent [OF _ _ _ _ _ c(1), of "[]"] c(2) obtain raw p where
    "''hello!'' = raw @ ''!''" "framed (framingLength 5) raw p" "sent (sp_dst s1) = ''HEAD'' @ raw" "sp_sink s1 = Some p"
    by (auto simp: demoSpill_def)
  with c show ?thesis by (auto simp: framed_def)
qed

end
