(* ===== verification/Rewrite.thy ===== *)
theory Rewrite
  imports HTTP1 HostMatch
begin

text \<open>
  \<open>vpntunnel/rewrite.go\<close>: the compiled rewrite rules, the header edits (for the ordered
  HTTP/1 list and for \<open>http.Header\<close>) and the body edits. The regular-expression engine and the
  decompressors are parameters. A byte slice that may be nil is an option, nil being \<open>None\<close>:
  the proxy tells a nil body from an empty one.
\<close>

subsection \<open>Definitions: rules\<close>

definition rewriteBufferLimit :: nat where "rewriteBufferLimit = 2 ^ 20"
definition rewriteDecodeLimit :: nat where "rewriteDecodeLimit = 4 * 2 ^ 20"

record rewriteRule =
  rw_ID :: string
  rw_Enabled :: bool
  rw_Match :: string
  rw_IsRegex :: bool
  rw_Phase :: string
  rw_Action :: string
  rw_Header :: string
  rw_Value :: string
  rw_Find :: string
  rw_Replace :: string
  rw_BodyRegex :: bool

record 're compiledRewrite =
  cw_rule :: rewriteRule
  cw_glob :: string
  cw_urlRe :: "'re option"
  cw_bodyRe :: "'re option"

record 're rewriteSet =
  rs_rules :: "'re compiledRewrite list"
  rs_slots :: nat
  rs_sem :: nat

text \<open>The regular-expression package: compile, match a URL, replace all matches in a body.\<close>

record 're regexps =
  reCompile :: "string \<Rightarrow> 're option"
  reMatch :: "'re \<Rightarrow> string \<Rightarrow> bool"
  reReplace :: "'re \<Rightarrow> string \<Rightarrow> string \<Rightarrow> string option"

definition normalizeURLGlob :: "string \<Rightarrow> string" where
  "normalizeURLGlob p0 =
     (let p1 = TrimSpace p0;
          p2 = (if Contains p1 ''://'' then p1 else ''*://'' @ p1);
          rest = (case Index p2 ''://'' of Some i \<Rightarrow> drop (i + 3) p2 | None \<Rightarrow> drop 2 p2)
      in if Contains rest ''/'' then p2 else p2 @ ''/*'')"

text \<open>One rule of the loop; \<open>None\<close> is \<open>continue\<close>.\<close>

definition compileRewrite :: "'re regexps \<Rightarrow> rewriteRule \<Rightarrow> 're compiledRewrite option" where
  "compileRewrite X r =
     (if \<not> rw_Enabled r \<or> TrimSpace (rw_Match r) = [] then None
      else case (if rw_IsRegex r then map_option (\<lambda>re. ([], Some re)) (reCompile X (rw_Match r))
                 else Some (normalizeURLGlob (rw_Match r), None)) of
             None \<Rightarrow> None
           | Some (g, ure) \<Rightarrow>
               if rw_Action r = ''replaceBody'' then
                 if rw_Find r = [] then None
                 else if rw_BodyRegex r then
                   map_option (\<lambda>re. \<lparr> cw_rule = r, cw_glob = g, cw_urlRe = ure, cw_bodyRe = Some re \<rparr>)
                     (reCompile X (rw_Find r))
                 else Some \<lparr> cw_rule = r, cw_glob = g, cw_urlRe = ure, cw_bodyRe = None \<rparr>
               else Some \<lparr> cw_rule = r, cw_glob = g, cw_urlRe = ure, cw_bodyRe = None \<rparr>)"

definition compileRewriteRules :: "'re regexps \<Rightarrow> bool \<Rightarrow> rewriteRule list \<Rightarrow> 're rewriteSet" where
  "compileRewriteRules X ios rules =
     \<lparr> rs_rules = List.map_filter (compileRewrite X) rules, rs_slots = (if ios then 2 else 8), rs_sem = 0 \<rparr>"

definition cw_matches :: "'re regexps \<Rightarrow> 're compiledRewrite \<Rightarrow> string \<Rightarrow> bool" where
  "cw_matches X c url =
     (case cw_urlRe c of Some re \<Rightarrow> reMatch X re url | None \<Rightarrow> globMatch (cw_glob c) url)"

definition rs_matching ::
  "'re regexps \<Rightarrow> 're rewriteSet option \<Rightarrow> string \<Rightarrow> string \<Rightarrow> 're compiledRewrite list" where
  "rs_matching X s phase url =
     (case s of
        None \<Rightarrow> []
      | Some s \<Rightarrow> filter (\<lambda>c. rw_Phase (cw_rule c) = phase \<and> cw_matches X c url) (rs_rules s))"

definition hasBodyRule :: "'re compiledRewrite list \<Rightarrow> bool" where
  "hasBodyRule rules \<longleftrightarrow> list_ex (\<lambda>c. rw_Action (cw_rule c) = ''replaceBody'') rules"

text \<open>The semaphore: \<open>False\<close> when no slot came free within the five seconds.\<close>

definition rs_acquire :: "'re rewriteSet \<Rightarrow> 're rewriteSet \<times> bool" where
  "rs_acquire s = (if rs_sem s < rs_slots s then (s\<lparr>rs_sem := rs_sem s + 1\<rparr>, True) else (s, False))"

definition rs_release :: "'re rewriteSet \<Rightarrow> 're rewriteSet" where
  "rs_release s = s\<lparr>rs_sem := rs_sem s - 1\<rparr>"

subsection \<open>Definitions: header edits\<close>

record 'h headerEditor =
  ed_add :: "'h \<Rightarrow> string \<Rightarrow> string \<Rightarrow> 'h"
  ed_set :: "'h \<Rightarrow> string \<Rightarrow> string \<Rightarrow> 'h"
  ed_del :: "'h \<Rightarrow> string \<Rightarrow> 'h"

definition applyHeaderRewrite ::
  "'h headerEditor \<Rightarrow> 're compiledRewrite \<Rightarrow> 'h \<times> string list \<Rightarrow> 'h \<times> string list" where
  "applyHeaderRewrite E c st =
     (case st of
        (h, applied) \<Rightarrow>
          let r = cw_rule c in
          if rw_Action r = ''addHeader'' then (ed_add E h (rw_Header r) (rw_Value r), applied @ [rw_ID r])
          else if rw_Action r = ''setHeader'' then (ed_set E h (rw_Header r) (rw_Value r), applied @ [rw_ID r])
          else if rw_Action r = ''removeHeader'' then (ed_del E h (rw_Header r), applied @ [rw_ID r])
          else (h, applied))"

definition applyHeaderRewrites ::
  "'h headerEditor \<Rightarrow> 're compiledRewrite list \<Rightarrow> 'h \<Rightarrow> 'h \<times> string list" where
  "applyHeaderRewrites E rules h = foldl (\<lambda>st c. applyHeaderRewrite E c st) (h, []) rules"

definition hdrEditor :: "hdrList headerEditor" where
  "hdrEditor = \<lparr> ed_add = hdr_add, ed_set = hdr_set, ed_del = hdr_del \<rparr>"

text \<open>\<open>http.Header\<close>: canonical keys to value lists; a name with a byte no token has is its own key.\<close>

definition tokenByte :: "char \<Rightarrow> bool" where
  "tokenByte c \<longleftrightarrow> (let n = (of_char c :: nat) in
     (48 \<le> n \<and> n \<le> 57) \<or> (65 \<le> n \<and> n \<le> 90) \<or> (97 \<le> n \<and> n \<le> 122) \<or> c \<in> set ''!#$%&*+-.^_`|~'' \<or> n = 39)"

definition upper_char :: "char \<Rightarrow> char" where
  "upper_char c = (let n = (of_char c :: nat) in if 97 \<le> n \<and> n \<le> 122 then char_of (n - 32) else c)"

fun canon_loop :: "bool \<Rightarrow> string \<Rightarrow> string" where
  "canon_loop upper [] = []"
| "canon_loop upper (c # s) =
     (let d = (if upper then upper_char c else lower_char c) in d # canon_loop (d = CHR ''-'') s)"

definition CanonicalHeaderKey :: "string \<Rightarrow> string" where
  "CanonicalHeaderKey s = (if list_all tokenByte s then canon_loop True s else s)"

type_synonym httpHeader = "string \<rightharpoonup> string list"

definition http_Add :: "httpHeader \<Rightarrow> string \<Rightarrow> string \<Rightarrow> httpHeader" where
  "http_Add h name value =
     (let k = CanonicalHeaderKey name
      in h(k \<mapsto> (case h k of None \<Rightarrow> [value] | Some vs \<Rightarrow> vs @ [value])))"

definition http_Set :: "httpHeader \<Rightarrow> string \<Rightarrow> string \<Rightarrow> httpHeader" where
  "http_Set h name value = h(CanonicalHeaderKey name \<mapsto> [value])"

definition http_Del :: "httpHeader \<Rightarrow> string \<Rightarrow> httpHeader" where
  "http_Del h name = h(CanonicalHeaderKey name := None)"

definition httpHeaderEditor :: "httpHeader headerEditor" where
  "httpHeaderEditor = \<lparr> ed_add = http_Add, ed_set = http_Set, ed_del = http_Del \<rparr>"

subsection \<open>Definitions: body edits\<close>

text \<open>\<open>bytes.ReplaceAll\<close> for a non-empty \<open>old\<close>; it copies, so an empty input without a match gives nil.\<close>

function replace_loop :: "string \<Rightarrow> string \<Rightarrow> string \<Rightarrow> string" where
  "replace_loop old new s =
     (if old \<noteq> [] \<and> HasPrefix s old then new @ replace_loop old new (drop (length old) s)
      else case s of [] \<Rightarrow> [] | c # cs \<Rightarrow> c # replace_loop old new cs)"
  by pat_completeness auto
termination
  by (relation "measure (\<lambda>(old, new, s). length s)") (auto simp: HasPrefix_iff)

declare replace_loop.simps [simp del]

definition copySlice :: "string \<Rightarrow> string option" where
  "copySlice s = (if s = [] then None else Some s)"

definition bytes_ReplaceAll :: "string \<Rightarrow> string \<Rightarrow> string \<Rightarrow> string option" where
  "bytes_ReplaceAll s old new = (if Contains s old then Some (replace_loop old new s) else copySlice s)"

definition contents :: "string option \<Rightarrow> string" where
  "contents b = (case b of None \<Rightarrow> [] | Some s \<Rightarrow> s)"

definition applyBodyRewrite ::
  "'re regexps \<Rightarrow> 're compiledRewrite \<Rightarrow> string option \<times> string list \<Rightarrow> string option \<times> string list" where
  "applyBodyRewrite X c st =
     (case st of
        (body, applied) \<Rightarrow>
          let r = cw_rule c in
          if rw_Action r \<noteq> ''replaceBody'' then (body, applied)
          else let nxt = (case cw_bodyRe c of
                            Some re \<Rightarrow> reReplace X re (contents body) (rw_Replace r)
                          | None \<Rightarrow> bytes_ReplaceAll (contents body) (rw_Find r) (rw_Replace r))
               in (nxt, if contents nxt \<noteq> contents body then applied @ [rw_ID r] else applied))"

definition applyBodyRewrites ::
  "'re regexps \<Rightarrow> 're compiledRewrite list \<Rightarrow> string option \<Rightarrow> string option \<times> string list" where
  "applyBodyRewrites X rules body = foldl (\<lambda>st c. applyBodyRewrite X c st) (body, []) rules"

text \<open>
  The decompressors: \<open>None\<close> is a bad header, otherwise the bytes the stream yields and whether
  it ends cleanly.
\<close>

record decoders =
  d_gzip :: "string \<Rightarrow> (string \<times> bool) option"
  d_zlib :: "string \<Rightarrow> (string \<times> bool) option"
  d_flate :: "string \<Rightarrow> string \<times> bool"

definition readLimited :: "string \<times> bool \<Rightarrow> string option" where
  "readLimited st =
     (let out = take (rewriteDecodeLimit + 1) (fst st);
          err = (length (fst st) \<le> rewriteDecodeLimit \<and> \<not> snd st)
      in if err \<or> length out > rewriteDecodeLimit then None else Some out)"

text \<open>\<open>None\<close> is \<open>ok\<close> being false.\<close>

definition decodeBody :: "decoders \<Rightarrow> string \<Rightarrow> string \<Rightarrow> string option" where
  "decodeBody D data encoding =
     (let enc = ToLower (TrimSpace encoding) in
      if enc = [] \<or> enc = ''identity'' then Some data
      else if enc = ''gzip'' \<or> enc = ''x-gzip'' then
        (case d_gzip D data of None \<Rightarrow> None | Some st \<Rightarrow> readLimited st)
      else if enc = ''deflate'' then
        readLimited (case d_zlib D data of Some st \<Rightarrow> st | None \<Rightarrow> d_flate D data)
      else None)"

subsection \<open>The contract of a header editor\<close>

text \<open>
  What an editor promises: \<open>vals h n\<close> are the values of the fields the protocol takes for \<open>n\<close>,
  and \<open>same\<close> is when two names denote one field.
\<close>

locale header_editor =
  fixes E :: "'h headerEditor" and vals :: "'h \<Rightarrow> string \<Rightarrow> string list" and same :: "string \<Rightarrow> string \<Rightarrow> bool"
  assumes vals_add: "vals (ed_add E h n v) m = vals h m @ (if same n m then [v] else [])"
    and vals_set: "vals (ed_set E h n v) m = (if same n m then [v] else vals h m)"
    and vals_del: "vals (ed_del E h n) m = (if same n m then [] else vals h m)"
begin

definition effect :: "'re compiledRewrite \<Rightarrow> string \<Rightarrow> string list \<Rightarrow> string list" where
  "effect c m vs =
     (let r = cw_rule c in
      if \<not> same (rw_Header r) m then vs
      else if rw_Action r = ''addHeader'' then vs @ [rw_Value r]
      else if rw_Action r = ''setHeader'' then [rw_Value r]
      else if rw_Action r = ''removeHeader'' then [] else vs)"

lemma vals_rewrites: "vals (fst (applyHeaderRewrites E rules h)) m = foldl (\<lambda>vs c. effect c m vs) (vals h m) rules"
proof -
  have 1: "vals (fst (applyHeaderRewrite E c st)) m = effect c m (vals (fst st) m)"
    for c :: "'re compiledRewrite" and st
    by (cases st) (simp add: applyHeaderRewrite_def effect_def vals_add vals_set vals_del Let_def)
  have "vals (fst (foldl (\<lambda>st c. applyHeaderRewrite E c st) st rules)) m =
      foldl (\<lambda>vs c. effect c m vs) (vals (fst st) m) rules" for st
    by (induction rules arbitrary: st) (simp_all add: 1)
  then show ?thesis by (simp add: applyHeaderRewrites_def)
qed

end

definition hdr_values :: "hdrList \<Rightarrow> string \<Rightarrow> string list" where
  "hdr_values h n = map hvalue (filter (\<lambda>kv. EqualFold (hname kv) n) h)"

definition http_values :: "httpHeader \<Rightarrow> string \<Rightarrow> string list" where
  "http_values h n = (case h (CanonicalHeaderKey n) of None \<Rightarrow> [] | Some vs \<Rightarrow> vs)"

lemma EqualFold_cong: "EqualFold a n \<Longrightarrow> EqualFold a m = EqualFold n m"
  by (simp add: EqualFold_def)

lemma set_loop_found: "set_loop n v True h = (hdr_del h n, True)"
  by (induction h) (simp_all add: hdr_del_def)

lemma set_loop_values:
  "hdr_values (fst (set_loop n v False h)) m =
     (if EqualFold n m then (if hdr_has h n then [v] else []) else hdr_values h m) \<and>
   snd (set_loop n v False h) = hdr_has h n"
proof (induction h)
  case Nil
  then show ?case by (simp add: hdr_values_def hdr_has_def)
next
  case (Cons kv h)
  show ?case
  proof (cases "EqualFold (hname kv) n")
    case True
    then have e: "EqualFold (hname kv) m = EqualFold n m" by (rule EqualFold_cong)
    have "filter (\<lambda>x. EqualFold (hname x) m) (hdr_del h n) = (if EqualFold n m then [] else filter (\<lambda>x. EqualFold (hname x) m) h)"
      by (auto simp: hdr_del_def EqualFold_def filter_empty_conv intro!: filter_cong)
    with True e show ?thesis by (simp add: set_loop_found hdr_values_def hdr_has_def)
  next
    case False
    then have "\<not> (EqualFold (hname kv) m \<and> EqualFold n m)" by (auto simp: EqualFold_def)
    with False Cons show ?thesis by (auto simp: hdr_values_def hdr_has_def split: prod.splits)
  qed
qed

lemma hdr_has_values: "hdr_has h n \<longleftrightarrow> hdr_values h n \<noteq> []"
  by (auto simp: hdr_has_def hdr_values_def list_ex_iff filter_empty_conv)

lemma values_cong: "EqualFold n m \<Longrightarrow> hdr_values h n = hdr_values h m"
  by (simp add: hdr_values_def EqualFold_def)

interpretation h1: header_editor hdrEditor hdr_values EqualFold
proof (unfold_locales, goal_cases)
  case (1 h n v m)
  then show ?case by (simp add: hdrEditor_def hdr_add_def hdr_values_def)
next
  case (2 h n v m)
  obtain out f where o: "set_loop n v False h = (out, f)" by (cases "set_loop n v False h")
  with set_loop_values [of n v h m] have
    "f = hdr_has h n" "hdr_values out m = (if EqualFold n m then (if hdr_has h n then [v] else []) else hdr_values h m)"
    by simp_all
  then show ?case by (auto simp: hdrEditor_def hdr_set_def o hdr_add_def hdr_values_def)
next
  case (3 h n m)
  then show ?case
    by (auto simp: hdrEditor_def hdr_del_def hdr_values_def EqualFold_def filter_empty_conv intro!: filter_cong arg_cong [of _ _ "map hvalue"])
qed

interpretation net_http: header_editor httpHeaderEditor http_values "\<lambda>n m. CanonicalHeaderKey n = CanonicalHeaderKey m"
  by unfold_locales
    (auto simp: httpHeaderEditor_def http_Add_def http_Set_def http_Del_def http_values_def Let_def split: option.splits)

lemma applied_ids:
  "snd (applyHeaderRewrites E rules h) =
     map (\<lambda>c. rw_ID (cw_rule c)) (filter (\<lambda>c. rw_Action (cw_rule c) \<in> {''addHeader'', ''setHeader'', ''removeHeader''}) rules)"
proof -
  have "snd (foldl (\<lambda>st c. applyHeaderRewrite E c st) st rules) = snd st @
     map (\<lambda>c. rw_ID (cw_rule c)) (filter (\<lambda>c. rw_Action (cw_rule c) \<in> {''addHeader'', ''setHeader'', ''removeHeader''}) rules)" for st
    by (induction rules arbitrary: st) (auto simp: applyHeaderRewrite_def Let_def split: prod.splits)
  then show ?thesis by (simp add: applyHeaderRewrites_def)
qed

text \<open>Names of token bytes are equal under folding exactly when their canonical keys are.\<close>

lemma of_char_upper_char:
  "(of_char (upper_char c) :: nat) = (let n = of_char c in if 97 \<le> n \<and> n \<le> 122 then n - 32 else n)"
  by (auto simp: upper_char_def Let_def)

lemma lower_upper [simp]: "lower_char (upper_char c) = lower_char c"
  by (simp add: lower_char_def of_char_upper_char Let_def) (auto simp: upper_char_def Let_def)

lemma upper_lower [simp]: "upper_char (lower_char c) = upper_char c"
  by (simp add: upper_char_def of_char_lower_char Let_def) (auto simp: lower_char_def Let_def)

lemma case_eq_iff: "upper_char a = upper_char b \<longleftrightarrow> lower_char a = lower_char b"
  by (metis lower_upper upper_lower)

lemma canon_loop_iff: "canon_loop u n = canon_loop u m \<longleftrightarrow> ToLower n = ToLower m"
proof (induction n arbitrary: u m)
  case Nil
  then show ?case by (cases m) (simp_all add: ToLower_def Let_def)
next
  case (Cons c n)
  show ?case
  proof (cases m)
    case (Cons d m')
    have "canon_loop u (c # n) = canon_loop u (d # m') \<longleftrightarrow>
        (if u then upper_char c else lower_char c) = (if u then upper_char d else lower_char d) \<and> ToLower n = ToLower m'"
      using Cons.IH by (auto simp: Let_def)
    then show ?thesis using Cons case_eq_iff [of c d] by (simp add: ToLower_def)
  qed (simp add: ToLower_def Let_def)
qed

lemma canonical_iff:
  "list_all tokenByte n \<Longrightarrow> list_all tokenByte m \<Longrightarrow>
     (CanonicalHeaderKey n = CanonicalHeaderKey m) = EqualFold n m"
  by (simp add: CanonicalHeaderKey_def canon_loop_iff EqualFold_def)

subsection \<open>URL patterns\<close>

lemma Index_prefix: "Index s t = Some i \<Longrightarrow> HasPrefix (drop i s) t"
  by (induction s arbitrary: i) (auto simp: HasPrefix_def split: if_splits)

lemma Contains_set: "Contains s t \<Longrightarrow> set t \<subseteq> set s"
proof -
  assume "Contains s t"
  then obtain i where "Index s t = Some i" by (auto simp: Contains_def)
  from Index_prefix [OF this] obtain r where "drop i s = t @ r" by (auto simp: HasPrefix_iff)
  then have "set t \<subseteq> set (drop i s)" by simp
  then show ?thesis using set_drop_subset by fast
qed

lemma glob_literal_append:
  assumes "CHR ''*'' \<notin> set t" and "CHR ''?'' \<notin> set t"
  shows "glob (t @ p) s \<longleftrightarrow> (\<exists>r. s = t @ r \<and> glob p r)"
  using assms
proof (induction t arbitrary: s)
  case (Cons c t)
  then have c: "c \<noteq> CHR ''*''" "c \<noteq> CHR ''?''" by auto
  have "glob (c # t @ p) s \<longleftrightarrow> s \<noteq> [] \<and> c = hd s \<and> (\<exists>r. tl s = t @ r \<and> glob p r)"
    using glob_step_iff [OF c(1), of "t @ p" s] Cons c(2) by simp
  then show ?case by (cases s) auto
qed simp

lemma normalize_host:
  assumes "TrimSpace h = h" and "CHR ''/'' \<notin> set h"
  shows "normalizeURLGlob h = ''*'' @ ''://'' @ h @ ''/'' @ ''*''"
proof -
  have "\<not> Contains h ''://''" "\<not> Contains h ''/''" using Contains_set assms(2) by force+
  moreover have "Index (''*://'' @ h) ''://'' = Some 1" by (simp add: HasPrefix_def)
  ultimately show ?thesis using assms(1) by (simp add: normalizeURLGlob_def Let_def)
qed

subsection \<open>Properties\<close>

text \<open>
  header rules do the same to an HTTP/1 header list and to an \<open>http.Header\<close>. If both give
  the same values for a field before, they do so after any sequence of rules with token names,
  and the same rules are reported as applied.
\<close>

theorem header_rewrites_agree:
  assumes "\<forall>c \<in> set rules. list_all tokenByte (rw_Header (cw_rule c))" and "list_all tokenByte m"
    and "hdr_values h m = http_values g m"
  shows "hdr_values (fst (applyHeaderRewrites hdrEditor rules h)) m =
           http_values (fst (applyHeaderRewrites httpHeaderEditor rules g)) m \<and>
         snd (applyHeaderRewrites hdrEditor rules h) = snd (applyHeaderRewrites httpHeaderEditor rules g)"
proof -
  have "foldl (\<lambda>vs c. h1.effect c m vs) vs rules = foldl (\<lambda>vs c. net_http.effect c m vs) vs rules" for vs
    using assms(1,2)
    by (induction rules arbitrary: vs) (simp_all add: h1.effect_def net_http.effect_def canonical_iff Let_def)
  then show ?thesis by (simp add: h1.vals_rewrites net_http.vals_rewrites assms(3) applied_ids)
qed

definition demoRule :: rewriteRule where
  "demoRule = \<lparr> rw_ID = ''1'', rw_Enabled = True, rw_Match = ''example.com'', rw_IsRegex = False, rw_Phase = ''request'',
     rw_Action = ''setHeader'', rw_Header = ''x-debug'', rw_Value = ''on'', rw_Find = [], rw_Replace = [], rw_BodyRegex = False \<rparr>"

definition demoRewrite :: "rewriteRule \<Rightarrow> unit compiledRewrite" where
  "demoRewrite r = \<lparr> cw_rule = r, cw_glob = normalizeURLGlob (rw_Match r), cw_urlRe = None, cw_bodyRe = None \<rparr>"

theorem header_rewrites_agree_witness:
  "hdr_values (fst (applyHeaderRewrites hdrEditor [demoRewrite demoRule] [\<lparr> hname = ''X-DEBUG'', hvalue = ''off'' \<rparr>])) ''X-Debug'' =
     http_values (fst (applyHeaderRewrites httpHeaderEditor [demoRewrite demoRule] [''X-Debug'' \<mapsto> [''off'']])) ''X-Debug''"
proof -
  have "hdr_values [\<lparr> hname = ''X-DEBUG'', hvalue = ''off'' \<rparr>] ''X-Debug'' = [''off'']" by code_simp
  moreover have "CanonicalHeaderKey ''X-Debug'' = ''X-Debug''" "list_all tokenByte ''X-Debug''" "list_all tokenByte ''x-debug''"
    by code_simp+
  ultimately show ?thesis
    using header_rewrites_agree [of "[demoRewrite demoRule]" "''X-Debug''" "[\<lparr> hname = ''X-DEBUG'', hvalue = ''off'' \<rparr>]"
        "[''X-Debug'' \<mapsto> [''off'']]"]
    by (simp add: demoRewrite_def demoRule_def http_values_def)
qed

text \<open>
  a rule written as a bare host applies to exactly the URLs with that authority, under any
  scheme and any path, and to no other host; for URLs without an asterisk.
\<close>

theorem host_rule_matches:
  assumes "TrimSpace h = h" and "set h \<inter> {CHR ''/'', CHR ''*'', CHR ''?''} = {}" and "CHR ''*'' \<notin> set url"
    and "cw_urlRe c = None" and "cw_glob c = normalizeURLGlob h"
  shows "cw_matches X c url \<longleftrightarrow> (\<exists>scheme path. url = scheme @ ''://'' @ h @ ''/'' @ path)"
proof -
  have h: "CHR ''/'' \<notin> set h" "CHR ''*'' \<notin> set h" "CHR ''?'' \<notin> set h" using assms(2) by auto
  let ?t = "''://'' @ h @ ''/''"
  have "cw_matches X c url \<longleftrightarrow> glob (CHR ''*'' # (?t @ ''*'')) url"
    using assms(4,5) globMatch_iff [OF assms(3)] normalize_host [OF assms(1) h(1)] by (simp add: cw_matches_def)
  also have "\<dots> \<longleftrightarrow> (\<exists>j \<le> length url. \<exists>r. drop j url = ?t @ r \<and> glob ''*'' r)"
    using glob_literal_append [of ?t "''*''"] h by (simp add: glob_star_iff)
  also have "\<dots> \<longleftrightarrow> (\<exists>j \<le> length url. \<exists>r. drop j url = ?t @ r)"
    using glob_star [OF glob_Nil] by simp
  also have "\<dots> \<longleftrightarrow> (\<exists>scheme path. url = scheme @ ?t @ path)"
  proof
    assume "\<exists>j \<le> length url. \<exists>r. drop j url = ?t @ r"
    then obtain j r where "drop j url = ?t @ r" by blast
    then have "url = take j url @ ?t @ r" by (metis append_take_drop_id)
    then show "\<exists>scheme path. url = scheme @ ?t @ path" by blast
  next
    assume "\<exists>scheme path. url = scheme @ ?t @ path"
    then obtain scheme path where "url = scheme @ ?t @ path" by blast
    then have "length scheme \<le> length url \<and> drop (length scheme) url = ?t @ path" by simp
    then show "\<exists>j \<le> length url. \<exists>r. drop j url = ?t @ r" by blast
  qed
  finally show ?thesis by simp
qed

theorem host_rule_matches_witness:
  "\<forall>X. cw_matches X (demoRewrite demoRule) ''https://example.com/v1'' \<and>
   \<not> cw_matches X (demoRewrite demoRule) ''https://example.community/''"
proof
  fix X
  have t: "TrimSpace ''example.com'' = ''example.com''" by code_simp
  note m = host_rule_matches [OF t, of _ "demoRewrite demoRule" X]
  have "''https://example.com/v1'' = ''https'' @ ''://'' @ ''example.com'' @ ''/'' @ ''v1''" by simp
  then have "\<exists>scheme path. ''https://example.com/v1'' = scheme @ ''://'' @ ''example.com'' @ ''/'' @ path" by blast
  moreover have "cw_urlRe (demoRewrite demoRule) = None" "cw_glob (demoRewrite demoRule) = normalizeURLGlob ''example.com''"
    by (simp_all add: demoRewrite_def demoRule_def)
  ultimately have "cw_matches X (demoRewrite demoRule) ''https://example.com/v1''"
    using m [of "''https://example.com/v1''"] by simp
  moreover have "\<not> globMatch (normalizeURLGlob ''example.com'') ''https://example.community/''" by code_simp
  then have "\<not> cw_matches X (demoRewrite demoRule) ''https://example.community/''"
    by (simp add: cw_matches_def demoRewrite_def demoRule_def)
  ultimately show "cw_matches X (demoRewrite demoRule) ''https://example.com/v1'' \<and>
   \<not> cw_matches X (demoRewrite demoRule) ''https://example.community/''" by blast
qed

end
