(* ===== verification/ProxyH1.thy ===== *)
theory ProxyH1
  imports HTTP1Body Rewrite GoNet
begin

text \<open>
  \<open>vpntunnel/proxy_h1.go\<close>: the HTTP/1 proxy between an intercepted client and its upstream.
  Both peers are inputs: \<open>cin\<close> is what the client still sends, \<open>uin\<close> what the upstream still
  sends, and the connections collect what the proxy writes. The goroutine that streams a
  request body reads only \<open>cin\<close> and writes only the upstream, so it is run to its end where it
  is started.
\<close>

subsection \<open>Definitions: helpers\<close>

definition keepAlive :: "string \<Rightarrow> hdrList \<Rightarrow> bool" where
  "keepAlive proto hs =
     (let c = hdr_tokens hs ''Connection'' in
      if hasToken c ''close'' then False
      else if proto = ''HTTP/1.0'' then hasToken c ''keep-alive''
      else True)"

definition buildURL :: "string \<Rightarrow> string \<Rightarrow> string \<Rightarrow> string" where
  "buildURL scheme host target =
     (if HasPrefix target ''http://'' \<or> HasPrefix target ''https://'' then target
      else scheme @ ''://'' @ ToLower host @ (if target = ''*'' then [] else target))"

definition hostOnly :: "string \<Rightarrow> string" where
  "hostOnly authority =
     (case SplitHostPort authority of
        Some (h, p) \<Rightarrow> ToLower h
      | None \<Rightarrow> ToLower (Trim authority ''[]''))"

definition proxyError :: "nat \<Rightarrow> string \<Rightarrow> string" where
  "proxyError status msg =
     (let body = ''rootshell capture: '' @ msg @ [LF]
      in ''HTTP/1.1 '' @ Itoa status @ '' Bad Gateway'' @ crlf @
         ''Content-Type: text/plain; charset=utf-8'' @ crlf @
         ''Content-Length: '' @ Itoa (length body) @ crlf @ ''Connection: close'' @ crlf @ crlf @ body)"

definition writeProxyError :: "conn \<Rightarrow> nat \<Rightarrow> string \<Rightarrow> conn" where
  "writeProxyError c status msg = fst (conn_write c (proxyError status msg))"

text \<open>The header changes for a rewritten body of length \<open>n\<close>.\<close>

definition rewrittenHeaders :: "hdrList \<Rightarrow> nat \<Rightarrow> hdrList" where
  "rewrittenHeaders hs n =
     hdr_set (hdr_del (hdr_del hs ''Transfer-Encoding'') ''Content-Encoding'') ''Content-Length'' (Itoa n)"

subsection \<open>Definitions: buffered bodies\<close>

record 're proxyEnv =
  e_re :: "'re regexps"
  e_dec :: decoders
  e_rd :: "string \<Rightarrow> nat"
  e_scheme :: string
  e_defaultHost :: string
  e_dial :: "string + conn"
  e_reqTimeout :: bool

record forwarded =
  f_dst :: conn
  f_sink :: string
  f_rest :: string
  f_ids :: "string list"
  f_body :: "string option option"
  f_err :: "httpError option"

text \<open>
  \<open>forwardBufferedBody\<close>. \<open>headFor\<close> is the callback that builds the head, given the new body or
  nil. \<open>f_body\<close> is the argument of its last call, \<open>None\<close> if it was not called.
\<close>

definition newSpill :: "conn \<Rightarrow> string \<Rightarrow> string \<Rightarrow> spillBuffer" where
  "newSpill dst head sink =
     \<lparr> sp_raw = [], sp_data = [], limit = rewriteBufferLimit, spilled = False, sp_dst = dst,
       sp_head = head, sp_sink = Some sink, sp_err = False \<rparr>"

definition forwardOriginal :: "spillBuffer \<Rightarrow> string \<Rightarrow> (string option \<Rightarrow> string) \<Rightarrow> forwarded" where
  "forwardOriginal sp rest headFor =
     (case conn_write (sp_dst sp) (headFor None @ sp_raw sp) of
        (c, ok) \<Rightarrow>
          \<lparr> f_dst = c, f_sink = (if ok then the (sp_sink sp) @ sp_data sp else the (sp_sink sp)), f_rest = rest,
            f_ids = [], f_body = Some None, f_err = (if ok then None else Some writeFailed) \<rparr>)"

definition forwardRewritten ::
  "spillBuffer \<Rightarrow> string \<Rightarrow> (string option \<Rightarrow> string) \<Rightarrow> string option \<Rightarrow> string list \<Rightarrow> forwarded" where
  "forwardRewritten sp rest headFor out ids =
     (case conn_write (sp_dst sp) (headFor out @ contents out) of
        (c, ok) \<Rightarrow>
          \<lparr> f_dst = c, f_sink = (if ok then the (sp_sink sp) @ contents out else the (sp_sink sp)), f_rest = rest,
            f_ids = (if ok then ids else []), f_body = Some out, f_err = (if ok then None else Some writeFailed) \<rparr>)"

definition forwardBufferedBody ::
  "'re proxyEnv \<Rightarrow> conn \<Rightarrow> string \<Rightarrow> framing \<Rightarrow> string \<Rightarrow> 're compiledRewrite list \<Rightarrow> string \<Rightarrow>
     (string option \<Rightarrow> string) \<Rightarrow> forwarded" where
  "forwardBufferedBody V dst src kind sink rules encoding headFor =
     (case copyBody (e_rd V) spillRaw_Write spillData_Write kind (newSpill dst (headFor None) sink) src of
        (sp, rest, Some e) \<Rightarrow>
          \<lparr> f_dst = sp_dst sp, f_sink = the (sp_sink sp), f_rest = rest, f_ids = [],
            f_body = (if spilled sp \<or> sp_err sp then Some None else None), f_err = Some e \<rparr>
      | (sp, rest, None) \<Rightarrow>
          if spilled sp then
            \<lparr> f_dst = sp_dst sp, f_sink = the (sp_sink sp), f_rest = rest, f_ids = [],
              f_body = Some None, f_err = None \<rparr>
          else case decodeBody (e_dec V) (sp_data sp) encoding of
                 None \<Rightarrow> forwardOriginal sp rest headFor
               | Some decoded \<Rightarrow>
                   (case applyBodyRewrites (e_re V) rules (Some decoded) of
                      (out, ids) \<Rightarrow>
                        if ids \<noteq> [] then forwardRewritten sp rest headFor out ids
                        else forwardOriginal sp rest headFor))"

subsection \<open>Definitions: one request\<close>

datatype txEvent =
    TxStart string string string "(string \<times> string) list" "string list"
  | TxResponse int string string "(string \<times> string) list" "string list"
  | TxEnd string string "httpError option" "httpError option" bool
  | TxFail string "string + httpError"
  | TxUpgrade bool

record 're proxy =
  toClient :: conn
  toUp :: "conn option"
  served :: nat
  px_rw :: "'re rewriteSet option"
  txEvents :: "txEvent list"
  longIdle :: bool

definition px_event :: "txEvent \<Rightarrow> 're proxy \<Rightarrow> 're proxy" where
  "px_event e st = st\<lparr>txEvents := txEvents st @ [e]\<rparr>"

record 're prepared =
  pr_req :: reqHead
  pr_url :: string
  pr_host :: string
  pr_reqRules :: "'re compiledRewrite list"
  pr_resRules :: "'re compiledRewrite list"
  pr_applied :: "string list"
  pr_changed :: bool
  pr_isWS :: bool
  pr_bufferRes :: bool

text \<open>From the parsed head to the framing decision: host, URL, rules and header edits.\<close>

definition prepareRequest :: "'re proxyEnv \<Rightarrow> 're rewriteSet option \<Rightarrow> reqHead \<Rightarrow> 're prepared" where
  "prepareRequest V rw req =
     (let host0 = hdr_get (q_headers req) ''Host'';
          host = (if host0 = [] then e_defaultHost V else host0);
          url = buildURL (e_scheme V) host (q_target req);
          reqRules = rs_matching (e_re V) rw ''request'' url;
          resRules = rs_matching (e_re V) rw ''response'' url;
          (h1, ids) = applyHeaderRewrites hdrEditor reqRules (q_headers req);
          isWS = hasToken (hdr_tokens h1 ''Upgrade'') ''websocket'';
          dropExt = (isWS \<and> hdr_has h1 ''Sec-WebSocket-Extensions'');
          h2 = (if dropExt then hdr_del h1 ''Sec-WebSocket-Extensions'' else h1);
          bufferRes = (hasBodyRule resRules \<and> \<not> isWS);
          setEnc = (bufferRes \<and> \<not> EqualFold (hdr_get h2 ''Accept-Encoding'') ''gzip'' \<and> hdr_has h2 ''Accept-Encoding'');
          h3 = (if setEnc then hdr_set h2 ''Accept-Encoding'' ''gzip'' else h2)
      in \<lparr> pr_req = req\<lparr>q_headers := h3\<rparr>, pr_url = url, pr_host = host, pr_reqRules = reqRules, pr_resRules = resRules,
           pr_applied = ids, pr_changed = (ids \<noteq> [] \<or> dropExt \<or> setEnc), pr_isWS = isWS, pr_bufferRes = bufferRes \<rparr>)"

definition newReqHead :: "reqHead \<Rightarrow> bool \<Rightarrow> string \<Rightarrow> string option \<Rightarrow> string" where
  "newReqHead req changed rawHead newBody =
     (case newBody of
        Some b \<Rightarrow> req_serialize (req\<lparr>q_headers := rewrittenHeaders (q_headers req) (length b)\<rparr>)
      | None \<Rightarrow> if changed then req_serialize req else rawHead)"

definition newResHead :: "resHead \<Rightarrow> bool \<Rightarrow> string \<Rightarrow> string option \<Rightarrow> string" where
  "newResHead res changed resRaw newBody =
     (case newBody of
        Some b \<Rightarrow> res_serialize (res\<lparr>r_headers := rewrittenHeaders (r_headers res) (length b)\<rparr>)
      | None \<Rightarrow> if changed then res_serialize res else resRaw)"

record 're sentRequest =
  sr_px :: "'re proxy"
  sr_req :: reqHead
  sr_applied :: "string list"
  sr_changed :: bool
  sr_sink :: string
  sr_err :: "httpError option"
  sr_rest :: string
  sr_stop :: bool

text \<open>The slot is taken before the body is read and given back after it.\<close>

definition takeSlot :: "'re rewriteSet option \<Rightarrow> bool" where
  "takeSlot rw = (case rw of None \<Rightarrow> False | Some s \<Rightarrow> snd (rs_acquire s))"

text \<open>The request head and body to the upstream \<open>up\<close>; \<open>sr_stop\<close> is an early return.\<close>

definition sendRequest ::
  "'re proxyEnv \<Rightarrow> 're proxy \<Rightarrow> conn \<Rightarrow> 're prepared \<Rightarrow> framing \<Rightarrow> string \<Rightarrow> string \<Rightarrow> 're sentRequest" where
  "sendRequest V st up P kind rawHead cin =
     (let req = pr_req P in
      if hasBodyRule (pr_reqRules P) \<and> kind \<noteq> framingNone \<and> takeSlot (px_rw st) then
        let expect = hasToken (hdr_tokens (q_headers req) ''Expect'') ''100-continue'';
            req1 = (if expect then req\<lparr>q_headers := hdr_del (q_headers req) ''Expect''\<rparr> else req);
            changed = (pr_changed P \<or> expect);
            cl = (if expect then fst (conn_write (toClient st) (''HTTP/1.1 100 Continue'' @ crlf @ crlf)) else toClient st);
            F = forwardBufferedBody V up cin kind [] (pr_reqRules P) (hdr_get (q_headers req1) ''Content-Encoding'')
                  (newReqHead req1 changed rawHead);
            req2 = (case f_body F of
                      Some (Some b) \<Rightarrow> req1\<lparr>q_headers := rewrittenHeaders (q_headers req1) (length b)\<rparr>
                    | _ \<Rightarrow> req1)
        in \<lparr> sr_px = st\<lparr>toClient := cl, toUp := Some (f_dst F)\<rparr>, sr_req = req2,
             sr_applied = pr_applied P @ f_ids F, sr_changed = changed, sr_sink = f_sink F, sr_err = f_err F,
             sr_rest = f_rest F, sr_stop = (f_err F \<noteq> None) \<rparr>
      else
        case conn_write up (if pr_changed P then req_serialize req else rawHead) of
          (up1, ok) \<Rightarrow>
            if \<not> ok then
              \<lparr> sr_px = px_event (TxFail (pr_url P) (Inr writeFailed)) (st\<lparr>toUp := Some up1\<rparr>), sr_req = req,
                sr_applied = pr_applied P, sr_changed = pr_changed P, sr_sink = [], sr_err = Some writeFailed,
                sr_rest = cin, sr_stop = True \<rparr>
            else
              case copyBody (e_rd V) pipe_write pipe_sink kind \<lparr> p_conn = up1, p_sink = [] \<rparr> cin of
                (w, rest, e) \<Rightarrow>
                  \<lparr> sr_px = st\<lparr>toUp := Some (p_conn w)\<rparr>, sr_req = req, sr_applied = pr_applied P,
                    sr_changed = pr_changed P, sr_sink = p_sink w, sr_err = e, sr_rest = rest, sr_stop = False \<rparr>)"

definition isInterim :: "resHead \<Rightarrow> bool" where
  "isInterim res \<longleftrightarrow> 100 \<le> r_status res \<and> r_status res < 200 \<and> r_status res \<noteq> 101"

lemma readHead_shorter: "readHead s = Inr (h, rest) \<Longrightarrow> length rest < length s"
  using readHead_loop_cut [of "[]" s h rest] by (auto simp: readHead_def)

function interim_loop ::
  "conn \<Rightarrow> string \<Rightarrow> conn \<times> (httpError option \<times> bool + (string \<times> resHead \<times> string))" where
  "interim_loop client uin =
     (case readHead uin of
        Inl e \<Rightarrow> (writeProxyError client 502 ''upstream closed before responding'', Inl (Some e, True))
      | Inr (resRaw, u1) \<Rightarrow>
          (case parseResponseHead resRaw of
             Inl e \<Rightarrow> (client, Inl (Some e, True))
           | Inr res \<Rightarrow>
               if isInterim res then
                 (case conn_write client resRaw of
                    (c, ok) \<Rightarrow> if ok then interim_loop c u1 else (c, Inl (None, False)))
               else (client, Inr (resRaw, res, u1))))"
  by pat_completeness auto
termination
  by (relation "measure (\<lambda>(client, uin). length uin)") (auto dest: readHead_shorter)

declare interim_loop.simps [simp del]

text \<open>The response: upgrade, buffered rewrite or streamed copy, then the keep-alive decision.\<close>

definition wantsRelay :: "reqHead \<Rightarrow> resHead \<Rightarrow> bool" where
  "wantsRelay req res \<longleftrightarrow>
     r_status res = 101 \<or> (q_method req = ''CONNECT'' \<and> 200 \<le> r_status res \<and> r_status res < 300)"

record resSent =
  rs_client :: conn
  rs_sink :: string
  rs_rest :: string
  rs_head :: string
  rs_applied :: "string list"
  rs_err :: "httpError option"
  rs_note :: bool
  rs_hdrs :: hdrList

definition sendBufferedResponse ::
  "'re proxyEnv \<Rightarrow> conn \<Rightarrow> 're compiledRewrite list \<Rightarrow> resHead \<Rightarrow> bool \<Rightarrow> string \<Rightarrow> framing \<Rightarrow> string \<Rightarrow> resSent" where
  "sendBufferedResponse V client rules res changed resRaw kind uin =
     (let F = forwardBufferedBody V client uin kind [] rules (hdr_get (r_headers res) ''Content-Encoding'')
                (newResHead res changed resRaw)
      in \<lparr> rs_client = f_dst F, rs_sink = f_sink F, rs_rest = f_rest F,
           rs_head = (case f_body F of None \<Rightarrow> [] | Some b \<Rightarrow> newResHead res changed resRaw b),
           rs_applied = f_ids F, rs_err = f_err F, rs_note = (f_err F = None \<and> f_ids F = []),
           rs_hdrs = (case f_body F of
                        Some (Some b) \<Rightarrow> rewrittenHeaders (r_headers res) (length b)
                      | _ \<Rightarrow> r_headers res) \<rparr>)"

text \<open>\<open>None\<close>: the head could not be written.\<close>

definition sendStreamedResponse ::
  "'re proxyEnv \<Rightarrow> conn \<Rightarrow> resHead \<Rightarrow> bool \<Rightarrow> string \<Rightarrow> framing \<Rightarrow> string \<Rightarrow> resSent option" where
  "sendStreamedResponse V client res changed resRaw kind uin =
     (let head = (if changed then res_serialize res else resRaw) in
      case conn_write client head of
        (c, ok) \<Rightarrow>
          if \<not> ok then None
          else case copyBody (e_rd V) pipe_write pipe_sink kind \<lparr> p_conn = c, p_sink = [] \<rparr> uin of
                 (w, rest, e) \<Rightarrow>
                   Some \<lparr> rs_client = p_conn w, rs_sink = p_sink w, rs_rest = rest, rs_head = head, rs_applied = [],
                          rs_err = e, rs_note = False, rs_hdrs = r_headers res \<rparr>)"

definition errText :: "httpError option \<Rightarrow> httpError option" where
  "errText e = (if e = Some readEOF then None else e)"

definition sendResponse ::
  "'re proxyEnv \<Rightarrow> 're proxy \<Rightarrow> 're prepared \<Rightarrow> 're sentRequest \<Rightarrow> string \<Rightarrow> resHead \<Rightarrow> string \<Rightarrow>
     're proxy \<times> (string \<times> string) option" where
  "sendResponse V st P R resRaw res0 uin =
     (let (rh, resIds) = applyHeaderRewrites hdrEditor (pr_resRules P) (r_headers res0);
          res = res0\<lparr>r_headers := rh\<rparr>;
          changed = (resIds \<noteq> []);
          req = sr_req R
      in if wantsRelay req res then
           let head = (if changed then res_serialize res else resRaw) in
           case conn_write (toClient st) head of
             (c, ok) \<Rightarrow>
               if \<not> ok then (st\<lparr>toClient := c\<rparr>, None)
               else (px_event (TxUpgrade (pr_isWS P))
                       (px_event (TxResponse (r_status res) (r_reason res) head (hdr_pairs rh) resIds)
                         (st\<lparr>toClient := c, longIdle := True\<rparr>)), None)
         else
           let st1 = (if Contains (ToLower (hdr_get rh ''Content-Type'')) ''text/event-stream''
                      then st\<lparr>longIdle := True\<rparr> else st)
           in case responseFraming (q_method req) res of
                Inl e \<Rightarrow> (st1, None)
              | Inr kind \<Rightarrow>
                  (case (if pr_bufferRes P \<and> kind \<noteq> framingNone \<and> takeSlot (px_rw st1)
                         then Some (sendBufferedResponse V (toClient st1) (pr_resRules P) res changed resRaw kind uin)
                         else sendStreamedResponse V (toClient st1) res changed resRaw kind uin) of
                     None \<Rightarrow> (st1, None)
                   | Some S \<Rightarrow>
                       let reqErr = (if e_reqTimeout V then Some unexpectedEOF else sr_err R);
                           st2 = px_event (TxEnd (sr_sink R) (rs_sink S) (errText (rs_err S)) (errText reqErr) (rs_note S))
                                   (px_event (TxResponse (r_status res) (r_reason res) (rs_head S) (hdr_pairs (rs_hdrs S))
                                      (resIds @ rs_applied S)) (st1\<lparr>toClient := rs_client S\<rparr>))
                       in if rs_err S \<noteq> None \<or> reqErr \<noteq> None \<or> kind = framingUntilClose \<or>
                             \<not> keepAlive (q_proto req) (q_headers req) \<or> \<not> keepAlive (r_proto res) (rs_hdrs S)
                          then (st2, None)
                          else (st2, Some (sr_rest R, rs_rest S))))"

text \<open>After the request was sent: the recorded start, the response head, the response.\<close>

definition sentHead :: "'re sentRequest \<Rightarrow> string \<Rightarrow> string" where
  "sentHead R rawHead = (if sr_changed R \<or> sr_applied R \<noteq> [] then req_serialize (sr_req R) else rawHead)"

definition serveSent ::
  "'re proxyEnv \<Rightarrow> 're prepared \<Rightarrow> 're sentRequest \<Rightarrow> string \<Rightarrow> string \<Rightarrow> 're proxy \<times> (string \<times> string) option" where
  "serveSent V P R rawHead uin =
     (if sr_stop R then (sr_px R, None)
      else
        let st = px_event (TxStart (pr_url P) (hostOnly (pr_host P)) (sentHead R rawHead)
                             (hdr_pairs (q_headers (sr_req R))) (sr_applied R)) (sr_px R)
        in case interim_loop (toClient st) uin of
             (c, Inl (e, ended)) \<Rightarrow>
               ((if ended then px_event (TxEnd (sr_sink R) [] e None False) (st\<lparr>toClient := c\<rparr>)
                 else st\<lparr>toClient := c\<rparr>), None)
           | (c, Inr (resRaw, res, u1)) \<Rightarrow> sendResponse V (st\<lparr>toClient := c\<rparr>) P R resRaw res u1)"

text \<open>One turn of the loop: \<open>None\<close> is a return, otherwise what the two peers still send.\<close>

definition serveOne ::
  "'re proxyEnv \<Rightarrow> 're proxy \<Rightarrow> string \<Rightarrow> string \<Rightarrow> 're proxy \<times> (string \<times> string) option" where
  "serveOne V st cin uin =
     (case readHead cin of
        Inl e \<Rightarrow> (st, None)
      | Inr (rawHead, c1) \<Rightarrow>
          (case parseRequestHead rawHead of
             Inl e \<Rightarrow> (st, None)
           | Inr req0 \<Rightarrow>
               let P = prepareRequest V (px_rw st) req0 in
               case requestFraming (pr_req P) of
                 Inl e \<Rightarrow> (st, None)
               | Inr kind \<Rightarrow>
                   let st1 = st\<lparr>served := served st + 1\<rparr> in
                   case (case toUp st1 of Some c \<Rightarrow> Inr c | None \<Rightarrow> e_dial V) of
                     Inl err \<Rightarrow>
                       (px_event (TxFail (pr_url P) (Inl err))
                          (st1\<lparr>toClient := writeProxyError (toClient st1) 502 (''upstream connect failed: '' @ err)\<rparr>), None)
                   | Inr up \<Rightarrow> serveSent V P (sendRequest V st1 up P kind rawHead c1) rawHead uin))"

text \<open>The loop over the requests of one connection, at most \<open>n\<close> of them.\<close>

fun serveHTTP1 :: "nat \<Rightarrow> 're proxyEnv \<Rightarrow> 're proxy \<Rightarrow> string \<Rightarrow> string \<Rightarrow> 're proxy option" where
  "serveHTTP1 0 V st cin uin = None"
| "serveHTTP1 (Suc n) V st cin uin =
     (case serveOne V st cin uin of
        (st1, None) \<Rightarrow> Some st1
      | (st1, Some (cin1, uin1)) \<Rightarrow> serveHTTP1 n V st1 cin1 uin1)"

subsection \<open>Framing after a rewrite\<close>

fun value_loop :: "string list \<Rightarrow> string \<Rightarrow> httpError + string" where
  "value_loop [] v = Inr v"
| "value_loop (x # xs) v =
     (if v \<noteq> [] \<and> v \<noteq> TrimSpace x then Inl conflictingLength else value_loop xs (TrimSpace x))"

lemma length_loop_values: "length_loop hs v = value_loop (hdr_values hs ''Content-Length'') v"
  by (induction hs arbitrary: v) (simp_all add: hdr_values_def Let_def)

lemma tokens_values: "hdr_tokens hs n = concat (map split_tokens (hdr_values hs n))"
  by (simp add: hdr_tokens_def hdr_values_def comp_def)

lemma TrimSpace_Itoa: "TrimSpace (Itoa n) = Itoa n"
proof -
  have "\<not> isSpace (hd (Itoa n))" "\<not> isSpace (last (Itoa n))"
    using Itoa_digits [of "hd (Itoa n)" n] Itoa_digits [of "last (Itoa n)" n] isDigit_simps(1) by auto
  then show ?thesis unfolding TrimSpace_def by (intro TrimFunc_id) simp
qed

lemma rewritten_values:
  "hdr_values (rewrittenHeaders hs n) ''Content-Length'' = [Itoa n]"
  "hdr_values (rewrittenHeaders hs n) ''Transfer-Encoding'' = []"
proof -
  have e: "\<not> EqualFold ''Content-Length'' ''Transfer-Encoding''" "\<not> EqualFold ''Content-Encoding'' ''Transfer-Encoding''"
    by code_simp+
  show "hdr_values (rewrittenHeaders hs n) ''Content-Length'' = [Itoa n]"
    using h1.vals_set by (simp add: rewrittenHeaders_def hdrEditor_def)
  show "hdr_values (rewrittenHeaders hs n) ''Transfer-Encoding'' = []"
    using h1.vals_set h1.vals_del e by (simp add: rewrittenHeaders_def hdrEditor_def)
qed

lemma rewritten_length:
  assumes "n < 2 ^ 63"
  shows "contentLength (rewrittenHeaders hs n) = Inr (Some n)"
    and "hdr_tokens (rewrittenHeaders hs n) ''Transfer-Encoding'' = []"
proof -
  have "ParseInt (Itoa n) 10 64 = Some (int n)" using ParseInt_Itoa [of n 64] assms by simp
  then show "contentLength (rewrittenHeaders hs n) = Inr (Some n)"
    by (simp add: contentLength_def length_loop_values rewritten_values TrimSpace_Itoa)
  show "hdr_tokens (rewrittenHeaders hs n) ''Transfer-Encoding'' = []"
    by (simp add: tokens_values rewritten_values)
qed

subsection \<open>Transparency\<close>

definition blanks :: "string \<Rightarrow> bool" where
  "blanks b \<longleftrightarrow> set b \<subseteq> {CR, LF}"

text \<open>\<open>takes s x rest\<close>: the bytes \<open>x\<close> are taken from \<open>s\<close> up to \<open>rest\<close>, skipping only line ends.\<close>

inductive takes :: "string \<Rightarrow> string \<Rightarrow> string \<Rightarrow> bool" where
  takes_none: "takes s [] s"
| takes_run: "blanks b \<Longrightarrow> takes s x rest \<Longrightarrow> takes (b @ y @ s) (y @ x) rest"

lemma takes_one: "blanks b \<Longrightarrow> takes (b @ y @ s) y s"
  using takes_run [OF _ takes_none, of b y s] by simp

lemma takes_plain: "takes (y @ s) y s"
  using takes_one [of "[]"] by (simp add: blanks_def)

lemma takes_trans: "takes s x r \<Longrightarrow> takes r y t \<Longrightarrow> takes s (x @ y) t"
proof (induction rule: takes.induct)
  case (takes_run b s x rest y')
  then have "takes (b @ y' @ s) (y' @ (x @ y)) t" by (intro takes.takes_run) simp_all
  then show ?case by simp
qed simp

lemma readHead_takes: "readHead s = Inr (h, rest) \<Longrightarrow> takes s h rest"
proof -
  assume a: "readHead s = Inr (h, rest)"
  then obtain blank where "s = blank @ h @ rest" "set blank \<subseteq> {CR, LF}"
    using readHead_loop_cut [OF a [unfolded readHead_def]] by auto
  then show ?thesis using takes_one [of blank h rest] by (simp add: blanks_def)
qed

lemma interim_takes:
  assumes "interim_loop c uin = (c', Inr (resRaw, res, u1))"
  shows "\<exists>x u0. takes uin x u0 \<and> readHead u0 = Inr (resRaw, u1) \<and> parseResponseHead resRaw = Inr res \<and> \<not> isInterim res \<and>
           sent c' = sent c @ x"
  using assms
proof (induction "length uin" arbitrary: c uin rule: less_induct)
  case less
  note un = interim_loop.simps [of c uin]
  obtain raw u where u: "readHead uin = Inr (raw, u)"
    using less.prems by (cases "readHead uin") (auto simp: un)
  obtain r where r: "parseResponseHead raw = Inr r"
    using less.prems u by (cases "parseResponseHead raw") (auto simp: un)
  show ?case
  proof (cases "isInterim r")
    case True
    obtain c2 ok where c2: "conn_write c raw = (c2, ok)" by (cases "conn_write c raw")
    with less.prems u r True have ok: "ok" "interim_loop c2 u = (c', Inr (resRaw, res, u1))"
      by (auto simp: un split: if_splits)
    from less.hyps [OF readHead_shorter [OF u] ok(2)] obtain x u0 where
      h: "takes u x u0" "readHead u0 = Inr (resRaw, u1)" "parseResponseHead resRaw = Inr res" "\<not> isInterim res" "sent c' = sent c2 @ x"
      by blast
    have "takes uin (raw @ x) u0" using readHead_takes [OF u] h(1) by (rule takes_trans)
    moreover have "sent c' = sent c @ (raw @ x)" using h(5) conn_write_sent [of c raw c2] c2 ok(1) by simp
    ultimately show ?thesis using h by blast
  next
    case False
    with less.prems u r have "c' = c" "resRaw = raw" "res = r" "u1 = u" by (simp_all add: un)
    with u r False takes_none show ?thesis by force
  qed
qed

lemma copy_takes:
  assumes "copyBody rd pipe_write pipe_sink kind w s = (w', rest, None)"
  shows "\<exists>x. takes s x rest \<and> sent (p_conn w') = sent (p_conn w) @ x"
proof -
  from pipe_any.copyBody_ok [OF _ assms] obtain raw where "s = raw @ rest" "sent (p_conn w') = sent (p_conn w) @ raw" by blast
  with takes_plain [of raw rest] show ?thesis by blast
qed

lemma prepare_plain:
  assumes "\<not> (hasToken (hdr_tokens (q_headers req) ''Upgrade'') ''websocket'' \<and> hdr_has (q_headers req) ''Sec-WebSocket-Extensions'')"
  shows "pr_req (prepareRequest V None req) = req" "pr_reqRules (prepareRequest V None req) = []"
    "pr_resRules (prepareRequest V None req) = []" "\<not> pr_changed (prepareRequest V None req)"
    "\<not> pr_bufferRes (prepareRequest V None req)"
  using assms by (auto simp: prepareRequest_def rs_matching_def applyHeaderRewrites_def hasBodyRule_def Let_def)

lemma send_plain:
  assumes "pr_reqRules P = []" and "\<not> pr_changed P"
    and "R = sendRequest V st up P kind rawHead cin" and "\<not> sr_stop R" and "sr_err R = None"
  shows "\<exists>up' x. sr_px R = st\<lparr>toUp := Some up'\<rparr> \<and> takes cin x (sr_rest R) \<and> sent up' = sent up @ rawHead @ x"
proof -
  obtain up1 ok where u: "conn_write up rawHead = (up1, ok)" by (cases "conn_write up rawHead")
  obtain w rest e where w: "copyBody (e_rd V) pipe_write pipe_sink kind \<lparr> p_conn = up1, p_sink = [] \<rparr> cin = (w, rest, e)"
    by (cases "copyBody (e_rd V) pipe_write pipe_sink kind \<lparr> p_conn = up1, p_sink = [] \<rparr> cin")
  note R = assms(3) [unfolded sendRequest_def Let_def]
  have ok: "ok" using assms(1,2,4) R u by (auto simp: hasBodyRule_def split: if_splits)
  with assms(1,2) R u w have r: "sr_px R = st\<lparr>toUp := Some (p_conn w)\<rparr>" "sr_rest R = rest" "sr_err R = e"
    by (simp_all add: hasBodyRule_def)
  with assms(5) copy_takes [of "e_rd V" kind "\<lparr> p_conn = up1, p_sink = [] \<rparr>" cin w rest] w obtain x where
    "takes cin x rest" "sent (p_conn w) = sent up1 @ x" by auto
  with r ok u conn_write_sent [of up rawHead up1] show ?thesis by auto
qed

lemma respond_plain:
  assumes "pr_resRules P = []" and "\<not> pr_bufferRes P"
    and "sendResponse V st P R resRaw res uin = (st', Some (cin', uin'))"
  shows "toUp st' = toUp st \<and> px_rw st' = px_rw st \<and> cin' = sr_rest R \<and> sr_err R = None \<and>
    (\<exists>x. takes uin x uin' \<and> sent (toClient st') = sent (toClient st) @ resRaw @ x)"
proof -
  let ?st1 = "if Contains (ToLower (hdr_get (r_headers res) ''Content-Type'')) ''text/event-stream''
              then st\<lparr>longIdle := True\<rparr> else st"
  note un = assms(3) [unfolded sendResponse_def assms(1) applyHeaderRewrites_def]
  have nr: "\<not> wantsRelay (sr_req R) res"
    using un by (auto simp: Let_def split: prod.splits if_splits)
  obtain kind where k: "responseFraming (q_method (sr_req R)) res = Inr kind"
    using un nr by (cases "responseFraming (q_method (sr_req R)) res") (auto simp: Let_def)
  obtain c ok where c: "conn_write (toClient st) resRaw = (c, ok)" by (cases "conn_write (toClient st) resRaw")
  obtain w rest e where w: "copyBody (e_rd V) pipe_write pipe_sink kind \<lparr> p_conn = c, p_sink = [] \<rparr> uin = (w, rest, e)"
    by (cases "copyBody (e_rd V) pipe_write pipe_sink kind \<lparr> p_conn = c, p_sink = [] \<rparr> uin")
  have c1: "conn_write (toClient ?st1) resRaw = (c, ok)" using c by simp
  have ok: "ok" using un nr k assms(2) c1 by (auto simp: Let_def sendStreamedResponse_def split: if_splits)
  with un nr k assms(2) c1 w have f: "e = None" "uin' = rest" "cin' = sr_rest R" "sr_err R = None"
    "toClient st' = p_conn w" "toUp st' = toUp st" "px_rw st' = px_rw st"
    by (auto simp: Let_def sendStreamedResponse_def px_event_def split: if_splits)
  with copy_takes [of "e_rd V" kind "\<lparr> p_conn = c, p_sink = [] \<rparr>" uin w rest] w obtain x where
    "takes uin x rest" "sent (p_conn w) = sent c @ x" by auto
  with f ok c conn_write_sent [of "toClient st" resRaw c] show ?thesis by auto
qed

subsection \<open>Progress\<close>

lemma trailer_rest: "trailer_loop wr w s = (w', rest, e) \<Longrightarrow> length rest \<le> length s"
proof (induction "length s" arbitrary: w s rule: less_induct)
  case less
  obtain x r where x: "readLine s = (x, r)" by (cases "readLine s")
  then have r: "length r \<le> length s"
    by (cases "readSlice s") (auto simp: readLine_def dest: readSlice_cut(1))
  show ?case
  proof (cases x)
    case (Inl e')
    with less.prems x r show ?thesis by (simp add: trailer_loop.simps [of wr w s])
  next
    case (Inr l)
    obtain w1 ok where w1: "wr w l = (w1, ok)" by (cases "wr w l")
    show ?thesis
    proof (cases "ok \<and> \<not> isBlank l")
      case True
      with less.prems x Inr w1 have "trailer_loop wr w1 r = (w', rest, e)" by (simp add: trailer_loop.simps [of wr w s])
      from less.hyps [OF _ this] readLine_less [of s l r] x Inr show ?thesis by simp
    next
      case False
      with less.prems x Inr w1 r show ?thesis by (auto simp: trailer_loop.simps [of wr w s] split: if_splits)
    qed
  qed
qed

lemma copyChunked_rest: "copyChunked rd wr sk w s = (w', rest, e) \<Longrightarrow> length rest \<le> length s"
proof (induction "length s" arbitrary: w s rule: less_induct)
  case less
  note un = copyChunked.simps [of rd wr sk w s]
  have rl: "length r \<le> length t" if "readLine t = (x, r)" for t x r
    using that by (cases "readSlice t") (auto simp: readLine_def dest: readSlice_cut(1))
  obtain x r where x: "readLine s = (x, r)" by (cases "readLine s")
  show ?case
  proof (cases x)
    case (Inl e')
    with less.prems x rl [OF x] show ?thesis by (simp add: un)
  next
    case (Inr l)
    have r: "length r < length s" using readLine_less x Inr by simp
    obtain w1 ok where w1: "wr w l = (w1, ok)" by (cases "wr w l")
    show ?thesis
    proof (cases "\<exists>n. chunkSize l = Some n \<and> n \<noteq> 0 \<and> ok")
      case False
      with less.prems x Inr w1 r trailer_rest [of wr w1 r w' rest e] show ?thesis
        by (auto simp: un split: option.splits if_splits)
    next
      case True
      then obtain n where n: "chunkSize l = Some n" "n \<noteq> 0" "ok" by blast
      obtain w2 r2 e2 where c: "copyN rd wr sk n w1 r = (w2, r2, e2)" by (cases "copyN rd wr sk n w1 r")
      note r2 = copyN_rest [OF c]
      obtain y r3 where y: "readLine r2 = (y, r3)" by (cases "readLine r2")
      note r3 = rl [OF y]
      show ?thesis
      proof (cases "e2 = None \<and> (\<exists>l3. y = Inr l3 \<and> snd (wr w2 l3))")
        case False
        with less.prems x Inr w1 n c y r r2 r3 show ?thesis
          by (cases e2; cases y) (auto simp: un split: prod.splits if_splits)
      next
        case True
        then obtain l3 w3 where l3: "y = Inr l3" "wr w2 l3 = (w3, True)" "e2 = None" by (metis prod.collapse)
        with less.prems x Inr w1 n c y have "copyChunked rd wr sk w3 r3 = (w', rest, e)" by (simp add: un)
        with less.hyps [of r3 w3] r r2 r3 show ?thesis by simp
      qed
    qed
  qed
qed

lemma copyBody_rest: "copyBody rd wr sk kind w s = (w', rest, e) \<Longrightarrow> length rest \<le> length s"
  by (cases kind) (auto simp: copyBody_def dest: copyN_rest copyChunked_rest)

lemma buffered_rest: "length (f_rest (forwardBufferedBody V dst src kind sink rules enc headFor)) \<le> length src"
  unfolding forwardBufferedBody_def
  by (auto simp: forwardOriginal_def forwardRewritten_def dest: copyBody_rest split: prod.splits option.splits)

lemma sendRequest_rest: "length (sr_rest (sendRequest V st up P kind rawHead cin)) \<le> length cin"
  unfolding sendRequest_def
  by (auto simp: Let_def buffered_rest dest: copyBody_rest split: prod.splits)

lemma sendResponse_rest: "sendResponse V st P R resRaw res uin = (st', Some (cin', uin')) \<Longrightarrow> cin' = sr_rest R"
  unfolding sendResponse_def by (auto simp: Let_def split: prod.splits if_splits sum.splits option.splits)

lemma serveOne_shorter: "serveOne V st cin uin = (st', Some (cin', uin')) \<Longrightarrow> length cin' < length cin"
proof -
  assume a: "serveOne V st cin uin = (st', Some (cin', uin'))"
  note un = a [unfolded serveOne_def]
  obtain rawHead c1 where c1: "readHead cin = Inr (rawHead, c1)" using un by (cases "readHead cin") auto
  obtain R P where sv: "serveSent V P R rawHead uin = (st', Some (cin', uin'))" "length (sr_rest R) \<le> length c1"
    using un c1 sendRequest_rest by (fastforce simp: Let_def split: sum.splits)
  from sv(1) have "cin' = sr_rest R"
    by (auto simp: serveSent_def Let_def dest: sendResponse_rest split: if_splits prod.splits sum.splits)
  with sv(2) readHead_shorter [OF c1] show ?thesis by simp
qed

subsection \<open>Properties\<close>


definition demoEnv :: "unit proxyEnv" where
  "demoEnv = \<lparr> e_re = \<lparr> reCompile = (\<lambda>_. None), reMatch = (\<lambda>_ _. False), reReplace = (\<lambda>_ b _. Some b) \<rparr>,
     e_dec = \<lparr> d_gzip = (\<lambda>_. None), d_zlib = (\<lambda>_. None), d_flate = (\<lambda>_. ([], False)) \<rparr>,
     e_rd = (\<lambda>_. 3), e_scheme = ''http'', e_defaultHost = ''h'', e_dial = Inl ''refused'', e_reqTimeout = False \<rparr>"

definition demoProxy :: "unit rewriteSet option \<Rightarrow> unit proxy" where
  "demoProxy rw = \<lparr> toClient = \<lparr> sent = [], room = None \<rparr>, toUp = Some \<lparr> sent = [], room = None \<rparr>, served = 0,
     px_rw = rw, txEvents = [], longIdle = False \<rparr>"

definition demoCin :: string where
  "demoCin = crlf @ ''POST /a HTTP/1.1'' @ crlf @ ''Content-Length: 5'' @ crlf @ crlf @ ''hello''"

definition demoUin :: string where
  "demoUin = ''HTTP/1.1 100 Continue'' @ crlf @ crlf @ ''HTTP/1.1 200 OK'' @ crlf @ ''Transfer-Encoding: chunked'' @ crlf @ crlf @ demoChunks"


text \<open>
  C32: the request loop ends on every finite client input: each turn that goes on has consumed
  at least one byte of it, so as many turns as it has bytes, and one more, are enough.
\<close>

theorem serveHTTP1_terminates:
  assumes "length cin < n"
  shows "\<exists>st'. serveHTTP1 n V st cin uin = Some st'"
  using assms
proof (induction n arbitrary: st cin uin)
  case (Suc n)
  obtain st1 o1 where o: "serveOne V st cin uin = (st1, o1)" by (cases "serveOne V st cin uin")
  show ?case
  proof (cases o1)
    case None
    with o show ?thesis by simp
  next
    case (Some p)
    obtain cin1 uin1 where p: "p = (cin1, uin1)" by (cases p)
    with o Some serveOne_shorter Suc.prems have "length cin1 < n" by fastforce
    with Suc.IH o Some p show ?thesis by simp
  qed
qed simp

theorem serveHTTP1_terminates_witness:
  "\<exists>st'. serveHTTP1 100 demoEnv (demoProxy None) demoCin demoUin = Some st'"
  by (rule serveHTTP1_terminates) (simp add: demoCin_def)

text \<open>
  C7: buffering a body for a rewrite never loses or mixes bytes. If it succeeds, one body of
  its framing was consumed. Either no rule applied, and the destination got the unchanged-body
  head and the raw body, the recorder the payload; or the decoded payload was rewritten, and
  the destination got the head for the new body followed by it, the recorder the new body.
\<close>

theorem forwardBufferedBody_message:
  assumes "F = forwardBufferedBody V dst src kind sink rules enc headFor" and "f_err F = None"
  shows "\<exists>raw p. src = raw @ f_rest F \<and> framed kind raw p \<and>
    (f_ids F = [] \<and> sent (f_dst F) = sent dst @ headFor None @ raw \<and> f_sink F = sink @ p \<or>
     (\<exists>d out. f_ids F \<noteq> [] \<and> length p \<le> rewriteBufferLimit \<and> decodeBody (e_dec V) p enc = Some d \<and>
        applyBodyRewrites (e_re V) rules (Some d) = (out, f_ids F) \<and>
        sent (f_dst F) = sent dst @ headFor out @ contents out \<and> f_sink F = sink @ contents out))"
proof -
  let ?s0 = "newSpill dst (headFor None) sink"
  obtain sp rest e where c: "copyBody (e_rd V) spillRaw_Write spillData_Write kind ?s0 src = (sp, rest, e)"
    by (cases "copyBody (e_rd V) spillRaw_Write spillData_Write kind ?s0 src")
  note F = assms(1) [unfolded forwardBufferedBody_def c]
  have e: "e = None" using F assms(2) by (cases e) auto
  have i: "spill_inv ?s0 ?s0" by (simp add: spill_inv_def newSpill_def)
  from spilling.copyBody_ok [OF i] c e obtain raw p where
    r: "src = raw @ rest" "framed kind raw p" "spill_inv ?s0 sp" "spill_out sp = spill_out ?s0 @ raw"
      "spill_pay sp = spill_pay ?s0 @ p" by metis
  show ?thesis
  proof (cases "spilled sp")
    case True
    with F e have "f_rest F = rest" "f_ids F = []" "f_dst F = sp_dst sp" "f_sink F = the (sp_sink sp)" by simp_all
    moreover have "sent (sp_dst sp) = sent dst @ headFor None @ raw" "the (sp_sink sp) = sink @ p"
      using r(3-5) True by (auto simp: spill_inv_def spill_out_def spill_pay_def newSpill_def)
    ultimately show ?thesis using r(1,2) by auto
  next
    case False
    with r(3-5) have b: "sp_dst sp = dst" "the (sp_sink sp) = sink" "sp_raw sp = raw" "sp_data sp = p" "length p \<le> rewriteBufferLimit"
      by (auto simp: spill_inv_def spill_out_def spill_pay_def newSpill_def)
    show ?thesis
    proof (cases "f_ids F = []")
      case True
      have "F = forwardOriginal sp rest headFor"
        using F e False True assms(2)
        by (auto simp: forwardRewritten_def split: option.splits prod.splits if_splits)
      with assms(2) b conn_write_sent [of dst "headFor None @ raw"] True
      have "f_rest F = rest" "sent (f_dst F) = sent dst @ headFor None @ raw" "f_sink F = sink @ p"
        by (auto simp: forwardOriginal_def split: prod.splits if_splits)
      with True r(1,2) show ?thesis by auto
    next
      case ids: False
      then obtain d out ids where d: "decodeBody (e_dec V) p enc = Some d"
        "applyBodyRewrites (e_re V) rules (Some d) = (out, ids)" "F = forwardRewritten sp rest headFor out ids"
        using F e False b by (auto simp: forwardOriginal_def split: option.splits prod.splits if_splits)
      with assms(2) b conn_write_sent [of dst "headFor out @ contents out"]
      have "f_rest F = rest" "f_ids F = ids" "sent (f_dst F) = sent dst @ headFor out @ contents out"
        "f_sink F = sink @ contents out"
        by (auto simp: forwardRewritten_def split: prod.splits if_splits)
      moreover from this r(1) d(2) have "src = raw @ f_rest F" "applyBodyRewrites (e_re V) rules (Some d) = (out, f_ids F)"
        by simp_all
      ultimately show ?thesis using ids d(1) b(5) r(2) by blast
    qed
  qed
qed

definition bodyRule :: "string \<Rightarrow> string \<Rightarrow> string \<Rightarrow> unit compiledRewrite" where
  "bodyRule i old new = demoRewrite (demoRule\<lparr>rw_ID := i, rw_Phase := ''response'', rw_Action := ''replaceBody'',
     rw_Find := old, rw_Replace := new\<rparr>)"

theorem forwardBufferedBody_message_witness:
  "\<exists>raw p. ''hello!'' = raw @ ''!'' \<and> framed (framingLength 5) raw p \<and>
     sent (f_dst (forwardBufferedBody demoEnv \<lparr> sent = [], room = None \<rparr> ''hello!'' (framingLength 5) []
       [bodyRule ''7'' ''ll'' ''LL''] [] (\<lambda>b. case b of None \<Rightarrow> ''old '' | Some x \<Rightarrow> ''new ''))) = ''new heLLo''"
proof -
  let ?F = "forwardBufferedBody demoEnv \<lparr> sent = [], room = None \<rparr> ''hello!'' (framingLength 5) []
       [bodyRule ''7'' ''ll'' ''LL''] [] (\<lambda>b. case b of None \<Rightarrow> ''old '' | Some x \<Rightarrow> ''new '')"
  have "f_err ?F = None" "f_rest ?F = ''!''" "sent (f_dst ?F) = ''new heLLo''" by code_simp+
  with forwardBufferedBody_message [OF refl, of demoEnv "\<lparr> sent = [], room = None \<rparr>" "''hello!''" "framingLength 5" "[]"
      "[bodyRule ''7'' ''ll'' ''LL'']" "[]" "\<lambda>b. case b of None \<Rightarrow> ''old '' | Some x \<Rightarrow> ''new ''"]
  show ?thesis by metis
qed




end
