(* ===== verification/WebSocket.thy ===== *)
theory WebSocket
  imports GoNetip
begin

text \<open>
  \<open>vpntunnel/websocket.go\<close>: the passive frame parser on an upgraded connection. The record
  \<open>wsTap\<close> has the fields of the Go struct; the frames it wrote to its file are the list
  \<open>ws_events\<close>. Lengths are natural numbers: the parser refuses lengths of 2^63 and more, so
  none of its 64-bit counters wraps.
\<close>

unbundle bit_operations_syntax

subsection \<open>Definitions\<close>

definition wsFramePayloadCap :: nat where "wsFramePayloadCap = 65536"

text \<open>\<open>wsFrameEvent\<close>: \<open>fe_text\<close> tells a text record from a base64 one.\<close>

record wsFrameEvent =
  fe_op :: u8
  fe_fin :: bool
  fe_len :: nat
  fe_text :: bool
  fe_payload :: bytes
  fe_truncated :: bool
  fe_compressed :: bool

record wsTap =
  ws_hdr :: bytes
  ws_need :: nat
  ws_remaining :: nat
  ws_offset :: nat
  ws_mask :: bytes
  ws_masked :: bool
  ws_op :: u8
  ws_fin :: bool
  ws_rsv1 :: bool
  ws_length :: nat
  ws_payload :: bytes
  ws_msgOp :: u8
  ws_broken :: bool
  ws_events :: "wsFrameEvent list"

definition newWSTap :: wsTap where
  "newWSTap = \<lparr> ws_hdr = [], ws_need = 2, ws_remaining = 0, ws_offset = 0, ws_mask = [0, 0, 0, 0], ws_masked = False,
     ws_op = 0, ws_fin = False, ws_rsv1 = False, ws_length = 0, ws_payload = [], ws_msgOp = 0, ws_broken = False,
     ws_events = [] \<rparr>"

definition cont :: "nat \<Rightarrow> nat \<Rightarrow> u8 \<Rightarrow> bool" where
  "cont lo hi b \<longleftrightarrow> lo \<le> unat b \<and> unat b \<le> hi"

text \<open>\<open>utf8.Valid\<close>, with the accept ranges of the Unicode standard.\<close>

fun utf8_valid :: "bytes \<Rightarrow> bool" where
  "utf8_valid [] = True"
| "utf8_valid (b # s) =
     (let n = unat b in
      if n < 0x80 then utf8_valid s
      else if n < 0xC2 \<or> n > 0xF4 then False
      else if n < 0xE0 then (case s of c # r \<Rightarrow> cont 0x80 0xBF c \<and> utf8_valid r | _ \<Rightarrow> False)
      else if n < 0xF0 then
        (case s of
           c # d # r \<Rightarrow>
             cont (if n = 0xE0 then 0xA0 else 0x80) (if n = 0xED then 0x9F else 0xBF) c \<and>
             cont 0x80 0xBF d \<and> utf8_valid r
         | _ \<Rightarrow> False)
      else
        (case s of
           c # d # e # r \<Rightarrow>
             cont (if n = 0xF0 then 0x90 else 0x80) (if n = 0xF4 then 0x8F else 0xBF) c \<and>
             cont 0x80 0xBF d \<and> cont 0x80 0xBF e \<and> utf8_valid r
         | _ \<Rightarrow> False))"

definition headerLen :: "u8 \<Rightarrow> nat" where
  "headerLen b1 =
     (let l7 = unat (b1 AND 0x7f)
      in 2 + (if l7 = 126 then 2 else if l7 = 127 then 8 else 0) + (if b1 AND 0x80 \<noteq> 0 then 4 else 0))"

definition parseHeader :: "wsTap \<Rightarrow> wsTap \<times> bool" where
  "parseHeader t0 =
     (let b0 = ws_hdr t0 ! 0; b1 = ws_hdr t0 ! 1;
          t = t0\<lparr>ws_fin := (b0 AND 0x80 \<noteq> 0), ws_rsv1 := (b0 AND 0x40 \<noteq> 0), ws_op := b0 AND 0x0f,
                 ws_masked := (b1 AND 0x80 \<noteq> 0)\<rparr>;
          l7 = unat (b1 AND 0x7f); want = headerLen b1
      in if length (ws_hdr t) < want then (t\<lparr>ws_need := want\<rparr>, False)
         else
           let len = (if l7 = 126 then be_nat (take 2 (drop 2 (ws_hdr t)))
                      else if l7 = 127 then be_nat (take 8 (drop 2 (ws_hdr t))) else l7);
               pos = (if l7 = 126 then 4 else if l7 = 127 then 10 else 2);
               t1 = t\<lparr>ws_length := len\<rparr>
           in if l7 = 127 \<and> len \<ge> 2 ^ 63 then (t1\<lparr>ws_broken := True\<rparr>, False)
              else ((if ws_masked t1 then t1\<lparr>ws_mask := take 4 (drop pos (ws_hdr t1))\<rparr> else t1)
                      \<lparr>ws_remaining := len, ws_offset := 0, ws_payload := [], ws_need := 0\<rparr>, True))"

definition ws_emit :: "wsTap \<Rightarrow> wsTap" where
  "ws_emit t0 =
     (let op = ws_op t0;
          t = (if op = 1 \<or> op = 2 then t0\<lparr>ws_msgOp := op\<rparr> else t0);
          effective = (if op = 0 then ws_msgOp t else op)
      in t\<lparr>ws_events := ws_events t @
             [\<lparr> fe_op = op, fe_fin = ws_fin t, fe_len = ws_length t,
                fe_text = (effective = 1 \<and> \<not> ws_rsv1 t \<and> utf8_valid (ws_payload t)), fe_payload = ws_payload t,
                fe_truncated = (ws_length t > length (ws_payload t)), fe_compressed = ws_rsv1 t \<rparr>],
           ws_hdr := [], ws_need := 2, ws_payload := []\<rparr>)"

text \<open>The mask of the payload bytes from offset \<open>off\<close> on.\<close>

definition unmask :: "bytes \<Rightarrow> nat \<Rightarrow> bytes \<Rightarrow> bytes" where
  "unmask key off bs = map (\<lambda>i. bs ! i XOR key ! ((off + i) mod 4)) [0..<length bs]"

definition takePayload :: "wsTap \<Rightarrow> bytes \<Rightarrow> wsTap" where
  "takePayload t chunk =
     (let part = take (wsFramePayloadCap - length (ws_payload t)) chunk
      in t\<lparr>ws_payload := ws_payload t @ (if ws_masked t then unmask (ws_mask t) (ws_offset t) part else part),
            ws_offset := ws_offset t + length chunk, ws_remaining := ws_remaining t - length chunk\<rparr>)"

definition emitDone :: "wsTap \<Rightarrow> wsTap" where
  "emitDone t = (if ws_remaining t = 0 then ws_emit t else t)"

text \<open>The loop of \<open>Write\<close>; the second component of the measure is 0 in every reachable state.\<close>

function ws_loop :: "wsTap \<Rightarrow> bytes \<Rightarrow> wsTap" where
  "ws_loop t p =
     (if p = [] then t
      else if ws_need t > 0 then
        let k = min (ws_need t - length (ws_hdr t)) (length p);
            t1 = t\<lparr>ws_hdr := ws_hdr t @ take k p\<rparr>
        in if length (ws_hdr t1) < ws_need t1 then t1
           else (case parseHeader t1 of
                   (t2, True) \<Rightarrow> ws_loop (emitDone t2) (drop k p)
                 | (t2, False) \<Rightarrow> if ws_broken t2 then t2 else ws_loop t2 (drop k p))
      else
        let k = min (length p) (ws_remaining t)
        in ws_loop (emitDone (takePayload t (take k p))) (drop k p))"
  by pat_completeness auto
termination
  by (relation "measures [\<lambda>(t, p). length p,
        \<lambda>(t, p). if ws_need t > 0 \<and> length (ws_hdr t) < ws_need t \<or> ws_need t = 0 \<and> ws_remaining t > 0 then 0 else 1]")
    (auto simp: parseHeader_def emitDone_def ws_emit_def takePayload_def Let_def min_def split: if_splits)

declare ws_loop.simps [simp del]

definition ws_Write :: "wsTap \<Rightarrow> bytes \<Rightarrow> wsTap" where
  "ws_Write t p = (if ws_broken t then t else ws_loop t p)"

subsection \<open>Feeding the tap in pieces\<close>

text \<open>Between calls the tap waits for header bytes or for payload; a broken one does nothing.\<close>

definition ws_inv :: "wsTap \<Rightarrow> bool" where
  "ws_inv t \<longleftrightarrow> ws_broken t \<or> (if ws_need t = 0 then ws_remaining t > 0 else length (ws_hdr t) < ws_need t)"

lemma length_unmask [simp]: "length (unmask k off bs) = length bs"
  by (simp add: unmask_def)

lemma nth_unmask: "i < length bs \<Longrightarrow> unmask k off bs ! i = bs ! i XOR k ! ((off + i) mod 4)"
  by (simp add: unmask_def)

lemma unmask_append: "unmask k off (x @ y) = unmask k off x @ unmask k (off + length x) y"
proof (rule nth_equalityI)
  fix i
  assume "i < length (unmask k off (x @ y))"
  then show "unmask k off (x @ y) ! i = (unmask k off x @ unmask k (off + length x) y) ! i"
    by (cases "i < length x") (simp_all add: nth_unmask nth_append)
qed simp

lemma unmask_unmask: "unmask k off (unmask k off bs) = bs"
  by (rule nth_equalityI) (simp_all add: nth_unmask xor.assoc)

lemma takePayload_append: "takePayload t (x @ y) = takePayload (takePayload t x) y"
proof -
  let ?r = "wsFramePayloadCap - length (ws_payload t)"
  have "take ?r (x @ y) = take ?r x @ take (?r - length x) y" by simp
  moreover have "unmask k (off + length (take ?r x)) (take (?r - length x) y) = unmask k (off + length x) (take (?r - length x) y)" for k off
    by (cases "?r \<le> length x") (simp_all add: unmask_def)
  ultimately show ?thesis
    by (simp add: takePayload_def Let_def unmask_append min_def)
qed

lemma takePayload_simps [simp]:
  "ws_remaining (takePayload t c) = ws_remaining t - length c" "ws_need (takePayload t c) = ws_need t"
  "ws_broken (takePayload t c) = ws_broken t"
  by (simp_all add: takePayload_def Let_def)

lemma ws_emit_simps [simp]:
  "ws_need (ws_emit t) = 2" "ws_hdr (ws_emit t) = []" "ws_broken (ws_emit t) = ws_broken t"
  by (simp_all add: ws_emit_def Let_def)

lemma parseHeader_cases:
  assumes "parseHeader t = (t2, f)" and "\<not> ws_broken t"
  shows "if f then \<not> ws_broken t2 \<and> ws_need t2 = 0 else ws_broken t2 \<or> length (ws_hdr t2) < ws_need t2"
  using assms by (auto simp: parseHeader_def Let_def split: if_splits)

lemma ws_loop_Nil [simp]: "ws_loop t [] = t"
  by (simp add: ws_loop.simps)

lemma emitDone_inv: "\<not> ws_broken t \<Longrightarrow> ws_need t = 0 \<Longrightarrow> ws_inv (emitDone t) \<and> \<not> ws_broken (emitDone t)"
  by (auto simp: emitDone_def ws_inv_def)

lemma ws_byte_header:
  assumes "\<not> ws_broken t" and "ws_need t > 0" and "length (ws_hdr t) < ws_need t"
  shows "ws_loop t (b # p) = ws_Write (ws_loop t [b]) p" and "ws_inv (ws_loop t [b])"
proof -
  let ?t1 = "t\<lparr>ws_hdr := ws_hdr t @ [b]\<rparr>"
  have k1: "min (ws_need t - length (ws_hdr t)) (length [b]) = 1" using assms(3) by simp
  have "ws_loop t (b # p) = ws_Write (ws_loop t [b]) p \<and> ws_inv (ws_loop t [b])"
  proof (cases "length (ws_hdr t) + 1 < ws_need t")
    case True
    have one: "ws_loop t [b] = ?t1"
      using assms True by (simp add: ws_loop.simps [of t "[b]"] Let_def)
    have "ws_loop t (b # p) = ws_loop ?t1 p"
    proof (cases "p = []")
      case False
      obtain j where j: "ws_need t - length (ws_hdr t) = Suc j" using assms(3) by (metis Suc_diff_Suc)
      then have "ws_need t - length (ws_hdr ?t1) = j" by simp
      with j False assms show ?thesis
        by (auto simp: ws_loop.simps [of t "b # p"] ws_loop.simps [of ?t1 p] Let_def split: prod.split bool.split)
    qed (simp add: one)
    moreover have "ws_inv ?t1" using True assms by (simp add: ws_inv_def)
    ultimately show ?thesis using one assms(1) by (simp add: ws_Write_def)
  next
    case False
    then have n: "ws_need t = Suc (length (ws_hdr t))" using assms(3) by simp
    obtain t2 f where t2: "parseHeader ?t1 = (t2, f)" by (cases "parseHeader ?t1")
    have c: "if f then \<not> ws_broken t2 \<and> ws_need t2 = 0 else ws_broken t2 \<or> length (ws_hdr t2) < ws_need t2"
      using parseHeader_cases [OF t2] assms(1) by simp
    have e: "ws_loop t (b # q) = (if f then ws_loop (emitDone t2) q else if ws_broken t2 then t2 else ws_loop t2 q)" for q
      using n t2 by (cases f) (simp_all add: ws_loop.simps [of t "b # q"] Let_def)
    show ?thesis
    proof (cases f)
      case True
      with c emitDone_inv [of t2] show ?thesis by (simp add: e ws_Write_def)
    next
      case False
      with c show ?thesis by (auto simp: e ws_Write_def ws_inv_def)
    qed
  qed
  then show "ws_loop t (b # p) = ws_Write (ws_loop t [b]) p" and "ws_inv (ws_loop t [b])" by blast+
qed

lemma ws_byte_payload:
  assumes "\<not> ws_broken t" and "ws_need t = 0" and "ws_remaining t > 0"
  shows "ws_loop t (b # p) = ws_Write (ws_loop t [b]) p" and "ws_inv (ws_loop t [b])"
proof -
  let ?t1 = "takePayload t [b]"
  obtain r where r: "ws_remaining t = Suc r" using assms(3) by (cases "ws_remaining t") auto
  have one: "ws_loop t [b] = emitDone ?t1" using assms r by (simp add: ws_loop.simps [of t "[b]"] Let_def)
  have i: "ws_inv (emitDone ?t1) \<and> \<not> ws_broken (emitDone ?t1)" using assms by (intro emitDone_inv) simp_all
  have a: "takePayload t (b # q) = takePayload ?t1 q" for q using takePayload_append [of t "[b]" q] by simp
  have full: "ws_loop t (b # p) = ws_loop (emitDone (takePayload t (b # take r p))) (drop r p)"
    using assms(2) r by (simp add: ws_loop.simps [of t "b # p"] Let_def min_def)
  have "ws_loop t (b # p) = ws_loop (emitDone ?t1) p"
  proof (cases "p = [] \<or> r = 0")
    case True
    then have "take r p = []" "drop r p = p" by auto
    with full show ?thesis by (simp only:)
  next
    case False
    then have d: "emitDone ?t1 = ?t1" using r by (simp add: emitDone_def)
    have "ws_loop ?t1 p = ws_loop (emitDone (takePayload ?t1 (take r p))) (drop r p)"
      using assms(2) r False by (simp add: ws_loop.simps [of ?t1 p] Let_def min_def)
    with full a [of "take r p"] d show ?thesis by (simp only:)
  qed
  with i one show "ws_loop t (b # p) = ws_Write (ws_loop t [b]) p" and "ws_inv (ws_loop t [b])"
    by (simp_all add: ws_Write_def)
qed

lemma ws_Write_append:
  assumes "ws_inv t"
  shows "ws_Write t (p @ q) = ws_Write (ws_Write t p) q \<and> ws_inv (ws_Write t p)"
  using assms
proof (induction p arbitrary: t)
  case Nil
  then show ?case by (simp add: ws_Write_def)
next
  case (Cons b p)
  show ?case
  proof (cases "ws_broken t")
    case True
    with Cons.prems show ?thesis by (simp add: ws_Write_def)
  next
    case False
    have s: "ws_loop t (b # x) = ws_Write (ws_loop t [b]) x \<and> ws_inv (ws_loop t [b])" for x
    proof (cases "ws_need t = 0")
      case True
      then have "ws_remaining t > 0" using Cons.prems False by (simp add: ws_inv_def)
      from ws_byte_payload [OF False True this] show ?thesis by blast
    next
      case need: False
      then have "length (ws_hdr t) < ws_need t" "ws_need t > 0" using Cons.prems False by (simp_all add: ws_inv_def)
      from ws_byte_header [OF False this(2,1)] show ?thesis by blast
    qed
    then have "ws_inv (ws_loop t [b])" by blast
    note ih = Cons.IH [OF this]
    have w: "ws_Write t (b # x) = ws_Write (ws_loop t [b]) x" for x
      using s [of x] False unfolding ws_Write_def by (simp only: if_False)
    have "ws_Write t ((b # p) @ q) = ws_Write (ws_loop t [b]) (p @ q)" using w [of "p @ q"] by (simp only: append_Cons)
    with ih w [of p] show ?thesis by (simp only:)
  qed
qed

lemma ws_Write_pieces:
  "ws_inv t \<Longrightarrow> foldl ws_Write t segs = ws_Write t (concat segs) \<and> ws_inv (ws_Write t (concat segs))"
proof (induction segs arbitrary: t)
  case Nil
  then show ?case by (simp add: ws_Write_def)
next
  case (Cons p segs)
  with ws_Write_append [of t p "concat segs"] show ?case by simp
qed

subsection \<open>Recording frames\<close>

text \<open>One frame on the wire, with its shortest length field; the key masks the payload.\<close>

definition lenByte :: "nat \<Rightarrow> nat" where
  "lenByte n = (if n < 126 then n else if n < 65536 then 126 else 127)"

definition ws_frame :: "u8 \<Rightarrow> bytes option \<Rightarrow> bytes \<Rightarrow> bytes" where
  "ws_frame b0 key payload =
     (let n = length payload
      in [b0, of_nat (lenByte n + (if key = None then 0 else 128))] @
         (if n < 126 then [] else if n < 65536 then be_bytes 2 n else be_bytes 8 n) @
         (case key of None \<Rightarrow> payload | Some k \<Rightarrow> k @ unmask k 0 payload))"

text \<open>What is recorded for a frame, given the opcode \<open>m\<close> of the message it may continue.\<close>

definition frame_event :: "u8 \<Rightarrow> u8 \<Rightarrow> bytes \<Rightarrow> wsFrameEvent" where
  "frame_event m b0 payload =
     (let op = b0 AND 0x0f; shown = take wsFramePayloadCap payload
      in \<lparr> fe_op = op, fe_fin = (b0 AND 0x80 \<noteq> 0), fe_len = length payload,
           fe_text = ((if op = 0 then m else op) = 1 \<and> b0 AND 0x40 = 0 \<and> utf8_valid shown), fe_payload = shown,
           fe_truncated = (length payload > wsFramePayloadCap), fe_compressed = (b0 AND 0x40 \<noteq> 0) \<rparr>)"

definition next_op :: "u8 \<Rightarrow> u8 \<Rightarrow> u8" where
  "next_op m b0 = (let op = b0 AND 0x0f in if op = 1 \<or> op = 2 then op else m)"

fun frame_events :: "u8 \<Rightarrow> (u8 \<times> bytes option \<times> bytes) list \<Rightarrow> wsFrameEvent list" where
  "frame_events m [] = []"
| "frame_events m ((b0, key, payload) # fs) = frame_event m b0 payload # frame_events (next_op m b0) fs"

definition idle :: "wsTap \<Rightarrow> bool" where
  "idle t \<longleftrightarrow> \<not> ws_broken t \<and> ws_hdr t = [] \<and> ws_need t = 2"

lemma and_7f: "unat ((b :: u8) AND 0x7f) = unat b mod 128"
proof -
  have "(0x7f :: u8) = mask 7" by (simp add: mask_eq_exp_minus_1)
  then have "b AND 0x7f = take_bit 7 b" by (simp add: take_bit_eq_mask)
  moreover have "unat (take_bit 7 b) = take_bit 7 (unat b)" by (rule unsigned_take_bit_eq)
  ultimately show ?thesis by (simp only: take_bit_eq_mod) simp
qed

lemma and_80: "((b :: u8) AND 0x80 \<noteq> 0) \<longleftrightarrow> 128 \<le> unat b"
proof -
  have "(0x80 :: u8) = 2 ^ 7" by simp
  then have "(b AND 0x80 \<noteq> 0) \<longleftrightarrow> bit b 7" by (metis and_exp_eq_0_iff_not_bit)
  also have "\<dots> \<longleftrightarrow> bit (unat b) 7" by (simp add: bit_unsigned_iff)
  also have "\<dots> \<longleftrightarrow> odd (unat b div 128)" by (simp add: bit_iff_odd)
  also have "\<dots> \<longleftrightarrow> 128 \<le> unat b"
  proof (cases "128 \<le> unat b")
    case True
    then obtain x where x: "unat b = 128 + x" using le_Suc_ex by blast
    have "unat b < 256" by simp
    with x have "x < 128" by linarith
    with x show ?thesis by (simp add: div_add_self1)
  qed simp
  finally show ?thesis .
qed

lemma frame_header:
  assumes "length payload < 2 ^ 63" and "key = None \<or> (\<exists>k. key = Some k \<and> length k = 4)"
  shows "\<exists>b1 ext body. ws_frame b0 key payload = b0 # b1 # ext @ body \<and> headerLen b1 = 2 + length ext \<and>
    length body = length payload \<and> body = (case key of None \<Rightarrow> payload | Some k \<Rightarrow> unmask k 0 payload) \<and>
    (b1 AND 0x80 \<noteq> 0) = (key \<noteq> None) \<and>
    (case unat (b1 AND 0x7f) of l7 \<Rightarrow>
       (if l7 = 126 then be_nat (take 2 ext) else if l7 = 127 then be_nat (take 8 ext) else l7) = length payload \<and>
       (key \<noteq> None \<longrightarrow> drop (if l7 = 126 then 2 else if l7 = 127 then 8 else 0) ext = the key))"
proof -
  let ?n = "length payload"
  let ?b1 = "of_nat (lenByte ?n + (if key = None then 0 else 128)) :: u8"
  have l: "lenByte ?n < 128" by (simp add: lenByte_def)
  then have u: "unat ?b1 = lenByte ?n + (if key = None then 0 else 128)" by (intro unat_of_nat_less) simp
  have m: "(?b1 AND 0x80 \<noteq> 0) = (key \<noteq> None)" unfolding and_80 u using l by auto
  have l7: "unat (?b1 AND 0x7f) = lenByte ?n" unfolding and_7f u using l by auto
  let ?len = "if ?n < 126 then [] else if ?n < 65536 then be_bytes 2 ?n else be_bytes 8 ?n"
  let ?ext = "?len @ (case key of None \<Rightarrow> [] | Some k \<Rightarrow> k)"
  let ?body = "case key of None \<Rightarrow> payload | Some k \<Rightarrow> unmask k 0 payload"
  have f: "ws_frame b0 key payload = b0 # ?b1 # ?ext @ ?body" by (cases key) (simp_all add: ws_frame_def Let_def)
  have h: "headerLen ?b1 = 2 + length ?ext"
    unfolding headerLen_def Let_def m l7 using assms(2) by (auto simp: lenByte_def)
  have n2: "?n < 65536 \<Longrightarrow> be_nat (be_bytes 2 ?n) = ?n" by (simp add: be_nat_be_bytes del: be_bytes.simps)
  have n8: "be_nat (be_bytes 8 ?n) = ?n"
  proof -
    have "?n < 256 ^ 8" using assms(1) by simp
    then show ?thesis by (simp only: be_nat_be_bytes mod_less)
  qed
  have "case unat (?b1 AND 0x7f) of l7 \<Rightarrow>
       (if l7 = 126 then be_nat (take 2 ?ext) else if l7 = 127 then be_nat (take 8 ?ext) else l7) = ?n \<and>
       (key \<noteq> None \<longrightarrow> drop (if l7 = 126 then 2 else if l7 = 127 then 8 else 0) ?ext = the key)"
    unfolding l7 using n2 n8 by (auto simp: lenByte_def simp del: be_bytes.simps)
  with f h m show ?thesis by (intro exI [of _ ?b1] exI [of _ ?ext] exI [of _ ?body] conjI) (auto split: option.splits)
qed

lemma take_unmask: "take j (unmask k off bs) = unmask k off (take j bs)"
  by (rule nth_equalityI) (simp_all add: nth_unmask)

text \<open>The tap once a whole header is in: the fields of the frame, and its payload still to come.\<close>

definition started :: "wsTap \<Rightarrow> u8 \<Rightarrow> u8 \<Rightarrow> bytes \<Rightarrow> bytes option \<Rightarrow> nat \<Rightarrow> wsTap" where
  "started t b0 b1 ext key n =
     t\<lparr>ws_hdr := b0 # b1 # ext, ws_need := 0, ws_remaining := n, ws_offset := 0,
       ws_mask := (case key of None \<Rightarrow> ws_mask t | Some k \<Rightarrow> k), ws_masked := (key \<noteq> None), ws_op := b0 AND 0x0f,
       ws_fin := (b0 AND 0x80 \<noteq> 0), ws_rsv1 := (b0 AND 0x40 \<noteq> 0), ws_length := n, ws_payload := []\<rparr>"

lemma takePayload_Nil: "takePayload t [] = t"
  by (cases t) (simp add: takePayload_def unmask_def Let_def)

lemma started_fields [simp]:
  "ws_need (started t b0 b1 ext key n) = 0" "ws_remaining (started t b0 b1 ext key n) = n"
  "started (t\<lparr>ws_hdr := h\<rparr>) b0 b1 ext key n = started t b0 b1 ext key n"
  by (cases key; simp add: started_def)+

lemma record_payload:
  assumes "length body = n"
  shows "ws_loop (emitDone (started t b0 b1 ext key n)) body = ws_emit (takePayload (started t b0 b1 ext key n) body)"
proof (cases "n = 0")
  case True
  with assms show ?thesis by (simp add: emitDone_def takePayload_Nil)
next
  case False
  let ?s = "started t b0 b1 ext key n"
  have "emitDone ?s = ?s" "ws_need ?s = 0" "ws_remaining ?s = n" using False by (simp_all add: emitDone_def)
  moreover have "body \<noteq> []" using False assms by auto
  ultimately show ?thesis using assms by (simp add: ws_loop.simps [of ?s body] Let_def emitDone_def)
qed

lemma emit_event:
  assumes "body = (case key of None \<Rightarrow> payload | Some k \<Rightarrow> unmask k 0 payload)"
  shows "let t' = ws_emit (takePayload (started t b0 b1 ext key (length payload)) body)
         in ws_events t' = ws_events t @ [frame_event (ws_msgOp t) b0 payload] \<and> ws_msgOp t' = next_op (ws_msgOp t) b0 \<and>
            ws_broken t' = ws_broken t"
proof -
  let ?s = "takePayload (started t b0 b1 ext key (length payload)) body"
  have "ws_payload ?s = take wsFramePayloadCap payload"
    using assms by (cases key) (simp_all add: takePayload_def started_def Let_def take_unmask unmask_unmask)
  moreover have "ws_op ?s = b0 AND 0x0f" "ws_fin ?s = (b0 AND 0x80 \<noteq> 0)" "ws_rsv1 ?s = (b0 AND 0x40 \<noteq> 0)"
    "ws_length ?s = length payload" "ws_events ?s = ws_events t" "ws_msgOp ?s = ws_msgOp t" "ws_broken ?s = ws_broken t"
    by (simp_all add: takePayload_def started_def Let_def)
  moreover have "(length payload > length (take wsFramePayloadCap payload)) = (length payload > wsFramePayloadCap)"
    by auto
  ultimately show ?thesis by (auto simp: ws_emit_def frame_event_def next_op_def Let_def)
qed

lemma ws_record_frame:
  assumes "idle t" and "length payload < 2 ^ 63" and "key = None \<or> (\<exists>k. key = Some k \<and> length k = 4)"
  shows "let t' = ws_Write t (ws_frame b0 key payload)
         in idle t' \<and> ws_events t' = ws_events t @ [frame_event (ws_msgOp t) b0 payload] \<and>
            ws_msgOp t' = next_op (ws_msgOp t) b0"
proof -
  let ?n = "length payload"
  from frame_header [OF assms(2,3), of b0] obtain b1 ext body where
    f: "ws_frame b0 key payload = b0 # b1 # ext @ body" and h: "headerLen b1 = 2 + length ext"
    and lb: "length body = ?n" and body: "body = (case key of None \<Rightarrow> payload | Some k \<Rightarrow> unmask k 0 payload)"
    and m: "(b1 AND 0x80 \<noteq> 0) = (key \<noteq> None)"
    and len: "(if unat (b1 AND 0x7f) = 126 then be_nat (take 2 ext)
               else if unat (b1 AND 0x7f) = 127 then be_nat (take 8 ext) else unat (b1 AND 0x7f)) = ?n"
    and k: "key \<noteq> None \<longrightarrow> drop (if unat (b1 AND 0x7f) = 126 then 2 else if unat (b1 AND 0x7f) = 127 then 8 else 0) ext = the key"
    by auto
  let ?s = "started t b0 b1 ext key ?n"
  have parsed: "parseHeader s = (?s, True)" if "ws_hdr s = b0 # b1 # ext" "started s b0 b1 ext key ?n = ?s" for s
  proof -
    have k4: "take 4 (drop (if unat (b1 AND 0x7f) = 126 then 4 else if unat (b1 AND 0x7f) = 127 then 10 else 2) (b0 # b1 # ext)) = the key"
      if "key \<noteq> None"
      using k that assms(3) by (auto simp: numeral_eq_Suc split: if_splits)
    have "parseHeader s = (started s b0 b1 ext key ?n, True)"
      using that(1) h m len assms(2) k4
      by (auto simp: parseHeader_def started_def Let_def split: option.splits)
    with that(2) show ?thesis by simp
  qed
  have "ws_loop t (b0 # b1 # ext @ body) = ws_loop (emitDone ?s) body"
  proof (cases "ext = []")
    case True
    let ?t1 = "t\<lparr>ws_hdr := [b0, b1]\<rparr>"
    have "parseHeader ?t1 = (?s, True)" using True by (intro parsed) simp_all
    with True assms(1) show ?thesis by (simp add: ws_loop.simps [of t "b0 # b1 # body"] idle_def Let_def)
  next
    case False
    let ?t1 = "t\<lparr>ws_hdr := [b0, b1]\<rparr>"
    obtain t2 where t2: "parseHeader ?t1 = (t2, False)" "ws_hdr t2 = [b0, b1]" "ws_need t2 = 2 + length ext" "\<not> ws_broken t2"
      "started t2 b0 b1 ext key ?n = ?s"
      using False h assms(1) by (cases key) (auto simp: parseHeader_def Let_def idle_def started_def)
    let ?t3 = "t2\<lparr>ws_hdr := b0 # b1 # ext\<rparr>"
    have "parseHeader ?t3 = (?s, True)" using t2(5) by (intro parsed) simp_all
    then have "ws_loop t2 (ext @ body) = ws_loop (emitDone ?s) body"
      using t2 False by (simp add: ws_loop.simps [of t2 "ext @ body"] Let_def)
    moreover have "ws_loop t (b0 # b1 # ext @ body) = ws_loop t2 (ext @ body)"
      using t2 assms(1) by (simp add: ws_loop.simps [of t "b0 # b1 # ext @ body"] idle_def Let_def)
    ultimately show ?thesis by simp
  qed
  then have "ws_Write t (ws_frame b0 key payload) = ws_emit (takePayload ?s body)"
    using assms(1) record_payload [OF lb] by (simp add: f ws_Write_def idle_def)
  with emit_event [OF body, of t b0 b1 ext] assms(1) show ?thesis by (simp add: Let_def idle_def)
qed

lemma idle_inv: "idle t \<Longrightarrow> ws_inv t"
  by (simp add: idle_def ws_inv_def)

definition frame_ok :: "u8 \<times> bytes option \<times> bytes \<Rightarrow> bool" where
  "frame_ok f = (case f of (b0, key, payload) \<Rightarrow>
     length payload < 2 ^ 63 \<and> (case key of None \<Rightarrow> True | Some k \<Rightarrow> length k = 4))"

definition wire :: "(u8 \<times> bytes option \<times> bytes) list \<Rightarrow> bytes" where
  "wire fs = concat (map (\<lambda>(b0, key, payload). ws_frame b0 key payload) fs)"

lemma ws_record_frames:
  assumes "idle t" and "list_all frame_ok fs"
  shows "ws_events (ws_Write t (wire fs)) = ws_events t @ frame_events (ws_msgOp t) fs"
  using assms
proof (induction fs arbitrary: t)
  case Nil
  then show ?case by (simp add: wire_def ws_Write_def)
next
  case (Cons f fs)
  obtain b0 key payload where f: "f = (b0, key, payload)" by (cases f)
  let ?t1 = "ws_Write t (ws_frame b0 key payload)"
  have "idle ?t1 \<and> ws_events ?t1 = ws_events t @ [frame_event (ws_msgOp t) b0 payload] \<and>
      ws_msgOp ?t1 = next_op (ws_msgOp t) b0"
    using ws_record_frame [OF Cons.prems(1), of payload key b0] Cons.prems(2) f
    by (auto simp: frame_ok_def Let_def split: option.splits)
  moreover have "ws_Write t (wire (f # fs)) = ws_Write ?t1 (wire fs)"
    using ws_Write_append [OF idle_inv [OF Cons.prems(1)], of "ws_frame b0 key payload" "wire fs"] f by (simp add: wire_def)
  ultimately show ?case using Cons f by simp
qed

subsection \<open>Properties\<close>

text \<open>
  C9: however the stream is cut into writes, the tap records exactly its frames, in order,
  masked or not, with every length field: opcode, final bit, length, the unmasked payload cut
  at 64 KiB, and the kind a continuation frame inherits from the message it continues.
\<close>

theorem tap_records_frames:
  assumes "list_all frame_ok fs" and "concat segs = wire fs"
  shows "ws_events (foldl ws_Write newWSTap segs) = frame_events 0 fs"
proof -
  have i: "idle newWSTap" by (simp add: idle_def newWSTap_def)
  from ws_Write_pieces [OF idle_inv [OF i]] assms(2) have "foldl ws_Write newWSTap segs = ws_Write newWSTap (wire fs)" by simp
  with ws_record_frames [OF i assms(1)] show ?thesis by (simp add: newWSTap_def)
qed

theorem tap_records_frames_witness:
  "ws_events (foldl ws_Write newWSTap [[0x01, 0x82, 1], [2, 3, 4, 0x69], [0x6b, 0x80, 0], []]) =
     [\<lparr> fe_op = 1, fe_fin = False, fe_len = 2, fe_text = True, fe_payload = [0x68, 0x69], fe_truncated = False, fe_compressed = False \<rparr>,
      \<lparr> fe_op = 0, fe_fin = True, fe_len = 0, fe_text = True, fe_payload = [], fe_truncated = False, fe_compressed = False \<rparr>]"
proof -
  let ?fs = "[(0x01, Some [1, 2, 3, 4], [0x68, 0x69]), (0x80, None, [])] :: (u8 \<times> bytes option \<times> bytes) list"
  have "list_all frame_ok ?fs" by (simp add: frame_ok_def)
  moreover have "concat [[0x01, 0x82, 1], [2, 3, 4, 0x69], [0x6b, 0x80, 0], []] = wire ?fs"
    by (simp add: wire_def ws_frame_def lenByte_def unmask_def Let_def upt_rec)
  ultimately have "ws_events (foldl ws_Write newWSTap [[0x01, 0x82, 1], [2, 3, 4, 0x69], [0x6b, 0x80, 0], []]) = frame_events 0 ?fs"
    by (rule tap_records_frames)
  then show ?thesis by (simp add: frame_event_def next_op_def wsFramePayloadCap_def Let_def)
qed

end
