(* ===== verification/Recorder.thy ===== *)
theory Recorder
  imports GoStrings
begin

text \<open>
  \<open>vpntunnel/recorder.go\<close>: the capture recorder. The state has the fields of the Go struct except
  the statistics that other files count. The spool directory is a map from paths to the data
  written, a body sink lives in a store under its path, and an index event stands for its JSON
  line, whose text \<open>json\<close> gives. The disk says which paths can be opened and written. Each
  definition is a whole function; the step relation at the end splits the writer and the closer
  where they give up a lock.
\<close>

subsection \<open>Definitions: state\<close>

definition recorderQueueLimit :: nat where "recorderQueueLimit = 2 * 2 ^ 20"
definition recorderMaxQueuedOps :: nat where "recorderMaxQueuedOps = 8192"
definition recorderMaxOpenFiles :: nat where "recorderMaxOpenFiles = 64"
definition indexFileName :: string where "indexFileName = ''index.jsonl''"
definition packetsFileName :: string where "packetsFileName = ''packets.bin''"
definition keylogFileName :: string where "keylogFileName = ''keylog.txt''"

record txEnd =
  te_id :: string
  te_ws :: bool
  te_note :: string
  te_reqFile :: string
  te_reqBytes :: nat
  te_reqTruncated :: bool
  te_resFile :: string
  te_resBytes :: nat
  te_resTruncated :: bool

datatype recEvent =
    EvSegment string string string
  | EvStop string string
  | EvTxEnd txEnd
  | EvOther bytes

text \<open>Data is an index event or raw bytes; nil data is a file to close.\<close>

datatype recData = Event recEvent | Raw bytes

record recOp =
  op_path :: string
  op_data :: "recData option"
  op_close :: bool
  op_droppable :: bool

record bodySink =
  bs_max :: int
  bs_stored :: nat
  bs_total :: nat
  bs_truncated :: bool

record pendingTx =
  pt_req :: bool
  pt_res :: bool
  pt_ws :: bool

record recorder =
  rc_sessionID :: string
  rc_nonce :: string
  rc_maxBody :: int
  rc_maxSession :: int
  rc_queue :: "recOp list"
  rc_qBytes :: nat
  rc_closing :: bool
  rc_done :: bool
  rc_active :: bool
  rc_halted :: bool
  rc_stopReason :: string
  rc_txSeq :: nat
  rc_connSeq :: nat
  rc_written :: nat
  rc_dropped :: nat
  rc_pending :: "(string \<times> pendingTx) list"
  rc_swept :: "string list"
  rc_sinks :: "string \<Rightarrow> bodySink option"
  rc_files :: "string list"
  rc_order :: "string list"
  rc_disk :: "string \<Rightarrow> recData list"

type_synonym json = "recEvent \<Rightarrow> bytes"

record disk =
  can_open :: "string \<Rightarrow> bool"
  can_write :: "string \<Rightarrow> bool"

definition dataLen :: "json \<Rightarrow> recData option \<Rightarrow> nat" where
  "dataLen json d = (case d of None \<Rightarrow> 0 | Some (Event e) \<Rightarrow> length (json e) + 1 | Some (Raw b) \<Rightarrow> length b)"

subsection \<open>Definitions: the queue\<close>

definition enqueue :: "json \<Rightarrow> recOp \<Rightarrow> recorder \<Rightarrow> recorder" where
  "enqueue json p r =
     (if rc_closing r \<or> (op_data p \<noteq> None \<and> \<not> rc_active r \<and> op_path p \<noteq> indexFileName) then r
      else if recorderMaxQueuedOps \<le> length (rc_queue r) \<or>
              (op_droppable p \<and> rc_qBytes r + dataLen json (op_data p) > recorderQueueLimit)
      then r\<lparr>rc_dropped := rc_dropped r + dataLen json (op_data p)\<rparr>
      else r\<lparr>rc_queue := rc_queue r @ [p],
             rc_qBytes := (if op_droppable p then rc_qBytes r + dataLen json (op_data p) else rc_qBytes r)\<rparr>)"

definition rec_event :: "json \<Rightarrow> recEvent \<Rightarrow> recorder \<Rightarrow> recorder" where
  "rec_event json e r =
     enqueue json \<lparr> op_path = indexFileName, op_data = Some (Event e), op_close = False, op_droppable = False \<rparr> r"

definition appendFile :: "json \<Rightarrow> string \<Rightarrow> bytes \<Rightarrow> bool \<Rightarrow> recorder \<Rightarrow> recorder" where
  "appendFile json rel b droppable r =
     enqueue json \<lparr> op_path = rel, op_data = Some (Raw b), op_close = False, op_droppable = droppable \<rparr> r"

definition closeFile :: "json \<Rightarrow> string \<Rightarrow> recorder \<Rightarrow> recorder" where
  "closeFile json rel r =
     enqueue json \<lparr> op_path = rel, op_data = None, op_close = True, op_droppable = False \<rparr> r"

definition newRecorder :: "json \<Rightarrow> nat \<Rightarrow> string \<Rightarrow> string \<Rightarrow> int \<Rightarrow> int \<Rightarrow> string \<Rightarrow> recorder" where
  "newRecorder json used sessionID nonce maxBody maxSession transport =
     rec_event json (EvSegment nonce sessionID transport)
       \<lparr> rc_sessionID = sessionID, rc_nonce = nonce, rc_maxBody = maxBody, rc_maxSession = maxSession, rc_queue = [],
         rc_qBytes = 0, rc_closing = False, rc_done = False, rc_active = True, rc_halted = False, rc_stopReason = [],
         rc_txSeq = 0, rc_connSeq = 0, rc_written = used, rc_dropped = 0, rc_pending = [], rc_swept = [],
         rc_sinks = (\<lambda>_. None), rc_files = [], rc_order = [], rc_disk = (\<lambda>_. []) \<rparr>"

definition nextTxID :: "recorder \<Rightarrow> string \<times> recorder" where
  "nextTxID r = (rc_nonce r @ ''-'' @ Itoa (rc_txSeq r + 1), r\<lparr>rc_txSeq := rc_txSeq r + 1\<rparr>)"

definition nextConnID :: "recorder \<Rightarrow> string \<times> recorder" where
  "nextConnID r = (rc_nonce r @ ''-c'' @ Itoa (rc_connSeq r + 1), r\<lparr>rc_connSeq := rc_connSeq r + 1\<rparr>)"

subsection \<open>Definitions: the writer\<close>

text \<open>The search for the oldest open body file; the popped names are gone from the order.\<close>

fun evictOldest :: "string list \<Rightarrow> string list \<Rightarrow> string list \<times> string list" where
  "evictOldest files [] = (files, [])"
| "evictOldest files (victim # order) =
     (if victim \<in> set files \<and> victim \<noteq> indexFileName then (filter (\<lambda>f. f \<noteq> victim) files, order)
      else evictOldest files order)"

definition openFile :: "disk \<Rightarrow> string \<Rightarrow> recorder \<Rightarrow> recorder \<times> bool" where
  "openFile io rel r =
     (if rel \<in> set (rc_files r) then (r, True)
      else
        let (files, order) = (if recorderMaxOpenFiles \<le> length (rc_files r) then evictOldest (rc_files r) (rc_order r)
                              else (rc_files r, rc_order r));
            r1 = r\<lparr>rc_files := files, rc_order := order\<rparr>
        in if \<not> can_open io rel then (r1, False)
           else
             let files2 = files @ [rel]; order2 = order @ [rel]
             in (r1\<lparr>rc_files := files2,
                    rc_order := (if length order2 > 4 * recorderMaxOpenFiles
                                 then filter (\<lambda>p. p \<in> set files2) order2 else order2)\<rparr>, True))"

definition writeFile :: "string \<Rightarrow> recData \<Rightarrow> recorder \<Rightarrow> recorder" where
  "writeFile rel d r = r\<lparr>rc_disk := (rc_disk r)(rel := rc_disk r rel @ [d])\<rparr>"

definition autoStop :: "disk \<Rightarrow> string \<Rightarrow> recorder \<Rightarrow> recorder" where
  "autoStop io reason r =
     (if rc_halted r then r
      else
        let r1 = r\<lparr>rc_halted := True, rc_active := False, rc_stopReason := reason\<rparr>
        in case openFile io indexFileName r1 of
             (r2, ok) \<Rightarrow>
               if ok \<and> can_write io indexFileName then writeFile indexFileName (Event (EvStop ''stop'' reason)) r2
               else r2)"

definition applyOp :: "json \<Rightarrow> disk \<Rightarrow> recorder \<Rightarrow> recOp \<Rightarrow> recorder" where
  "applyOp json io r p =
     (if op_close p then r\<lparr>rc_files := filter (\<lambda>f. f \<noteq> op_path p) (rc_files r)\<rparr>
      else case op_data p of
             None \<Rightarrow> r
           | Some d \<Rightarrow>
               if dataLen json (Some d) = 0 then r
               else if op_path p \<noteq> indexFileName \<and> rc_halted r then r
               else case openFile io (op_path p) r of
                      (r1, ok) \<Rightarrow>
                        if \<not> (ok \<and> can_write io (op_path p)) then autoStop io ''writeError'' r1
                        else
                          let r2 = (writeFile (op_path p) d r1)\<lparr>rc_written := rc_written r1 + dataLen json (Some d)\<rparr>
                          in if 0 < rc_maxSession r2 \<and> rc_maxSession r2 < int (rc_written r2)
                             then autoStop io ''sizeLimit'' r2 else r2)"

text \<open>
  One turn of \<open>run\<close>: the queue is taken and applied; when closing, what was queued meanwhile is
  applied too, the files are closed and the writer ends.
\<close>

definition runTurn :: "json \<Rightarrow> disk \<Rightarrow> recorder \<Rightarrow> recorder" where
  "runTurn json io r =
     (if rc_done r then r
      else
        let r1 = foldl (applyOp json io) (r\<lparr>rc_queue := [], rc_qBytes := 0\<rparr>) (rc_queue r)
        in if rc_closing r
           then (foldl (applyOp json io) (r1\<lparr>rc_queue := []\<rparr>) (rc_queue r1))\<lparr>rc_files := [], rc_done := True\<rparr>
           else r1)"

subsection \<open>Definitions: body sinks and transactions\<close>

definition sinkPath :: "string \<Rightarrow> bool \<Rightarrow> string" where
  "sinkPath tx req = ''bodies/'' @ tx @ ''.'' @ (if req then ''req'' else ''res'')"

definition openTx :: "string \<Rightarrow> (pendingTx \<Rightarrow> pendingTx) \<Rightarrow> recorder \<Rightarrow> recorder" where
  "openTx tx f r =
     (case map_of (rc_pending r) tx of
        None \<Rightarrow> r\<lparr>rc_pending := rc_pending r @ [(tx, f \<lparr> pt_req = False, pt_res = False, pt_ws = False \<rparr>)]\<rparr>
      | Some _ \<Rightarrow> r\<lparr>rc_pending := map (\<lambda>(k, t). (k, if k = tx then f t else t)) (rc_pending r)\<rparr>)"

definition newBodySink :: "string \<Rightarrow> bool \<Rightarrow> recorder \<Rightarrow> recorder" where
  "newBodySink tx req r =
     openTx tx (if req then (\<lambda>t. t\<lparr>pt_req := True\<rparr>) else (\<lambda>t. t\<lparr>pt_res := True\<rparr>))
       (r\<lparr>rc_sinks := (rc_sinks r)(sinkPath tx req \<mapsto>
            \<lparr> bs_max = rc_maxBody r, bs_stored = 0, bs_total = 0, bs_truncated = False \<rparr>)\<rparr>)"

text \<open>\<open>bodySink.Write\<close> on the sink itself: its new counters and the bytes it hands to the recorder.\<close>

definition sink_put :: "bodySink \<Rightarrow> bytes \<Rightarrow> bodySink \<times> bytes option" where
  "sink_put s p =
     (let s1 = s\<lparr>bs_total := bs_total s + length p\<rparr> in
      if bs_max s - int (bs_stored s) \<le> 0 then (if p \<noteq> [] then s1\<lparr>bs_truncated := True\<rparr> else s1, None)
      else
        let room = nat (bs_max s - int (bs_stored s));
            k = (if room < length p then room else length p)
        in (s1\<lparr>bs_stored := bs_stored s + k, bs_truncated := (bs_truncated s \<or> room < length p)\<rparr>, Some (take k p)))"

definition sink_Write :: "json \<Rightarrow> string \<Rightarrow> bytes \<Rightarrow> recorder \<Rightarrow> recorder" where
  "sink_Write json rel p r =
     (case rc_sinks r rel of
        None \<Rightarrow> r
      | Some s \<Rightarrow>
          (case sink_put s p of
             (s1, None) \<Rightarrow> r\<lparr>rc_sinks := (rc_sinks r)(rel \<mapsto> s1)\<rparr>
           | (s1, Some b) \<Rightarrow> (appendFile json rel b True r)\<lparr>rc_sinks := (rc_sinks r)(rel \<mapsto> s1)\<rparr>))"

definition sink_finish :: "json \<Rightarrow> string \<Rightarrow> recorder \<Rightarrow> (string \<times> nat \<times> nat \<times> bool) \<times> recorder" where
  "sink_finish json rel r =
     (case rc_sinks r rel of
        None \<Rightarrow> (([], 0, 0, False), r)
      | Some s \<Rightarrow>
          if 0 < bs_stored s then ((rel, bs_stored s, bs_total s, bs_truncated s), closeFile json rel r)
          else (([], bs_stored s, bs_total s, bs_truncated s), r))"

definition sink_snapshot :: "recorder \<Rightarrow> string \<Rightarrow> string \<times> nat \<times> nat" where
  "sink_snapshot r rel =
     (case rc_sinks r rel of
        None \<Rightarrow> ([], 0, 0)
      | Some s \<Rightarrow> ((if 0 < bs_stored s then rel else []), bs_stored s, bs_total s))"

definition markWebSocket :: "string \<Rightarrow> recorder \<Rightarrow> recorder" where
  "markWebSocket tx r = openTx tx (\<lambda>t. t\<lparr>pt_ws := True\<rparr>) r"

definition endTxOnce :: "json \<Rightarrow> string \<Rightarrow> txEnd \<Rightarrow> recorder \<Rightarrow> recorder" where
  "endTxOnce json tx ev r =
     (if tx \<in> set (rc_swept r) then r
      else rec_event json (EvTxEnd ev) (r\<lparr>rc_pending := filter (\<lambda>(k, t). k \<noteq> tx) (rc_pending r)\<rparr>))"

definition sweptEnd :: "recorder \<Rightarrow> string \<times> pendingTx \<Rightarrow> txEnd" where
  "sweptEnd r p =
     (case p of
        (tx, t) \<Rightarrow>
          let (qf, qs, qt) = (if pt_req t then sink_snapshot r (sinkPath tx True) else ([], 0, 0));
              (sf, ss, st) = (if pt_res t then sink_snapshot r (sinkPath tx False) else ([], 0, 0))
          in \<lparr> te_id = tx, te_ws = pt_ws t, te_note = ''recording stopped before this finished'',
               te_reqFile = qf, te_reqBytes = qt, te_reqTruncated = True,
               te_resFile = sf, te_resBytes = st, te_resTruncated = True \<rparr>)"

text \<open>\<open>endPendingTx\<close> claims the pending transactions under the lock and then writes their ends.\<close>

definition sweepPending :: "recorder \<Rightarrow> recorder" where
  "sweepPending r = r\<lparr>rc_pending := [], rc_swept := rc_swept r @ map fst (rc_pending r)\<rparr>"

definition emitSwept :: "json \<Rightarrow> recorder \<Rightarrow> string \<times> pendingTx \<Rightarrow> recorder" where
  "emitSwept json r p = rec_event json (EvTxEnd (sweptEnd r p)) r"

definition endPendingTx :: "json \<Rightarrow> recorder \<Rightarrow> recorder" where
  "endPendingTx json r = foldl (emitSwept json) (sweepPending r) (rc_pending r)"

definition finishClose :: "json \<Rightarrow> string \<Rightarrow> string \<Rightarrow> recorder \<Rightarrow> recorder" where
  "finishClose json kind reason r =
     (let r1 = (if rc_active r then rec_event json (EvStop kind reason) r else r)
      in r1\<lparr>rc_active := False, rc_closing := True\<rparr>)"

definition rec_close :: "json \<Rightarrow> string \<Rightarrow> string \<Rightarrow> recorder \<Rightarrow> recorder" where
  "rec_close json kind reason r = finishClose json kind reason (endPendingTx json r)"

definition packet :: "json \<Rightarrow> nat \<Rightarrow> u8 \<Rightarrow> bytes \<Rightarrow> recorder \<Rightarrow> recorder" where
  "packet json now dir data r =
     appendFile json packetsFileName
       (map (\<lambda>i. of_nat (now div 256 ^ (7 - i) mod 256)) [0..<8] @
        map (\<lambda>i. of_nat (length data div 256 ^ (3 - i) mod 256)) [0..<4] @ [dir] @ data) True r"

definition keylog_Write :: "json \<Rightarrow> bytes \<Rightarrow> recorder \<Rightarrow> recorder" where
  "keylog_Write json p r = appendFile json keylogFileName p False r"

subsection \<open>Definitions: the goroutines together\<close>

text \<open>
  The flows, the writer and the closer interleaved. The writer keeps the operations it took, the
  closer the transactions it swept; closers are serialised by \<open>captureMu\<close>. A flow ends each of its
  transactions once and opens nothing for it afterwards (\<open>sy_ended\<close>).
\<close>

record recSys =
  sy_rec :: recorder
  sy_ops :: "recOp list"
  sy_last :: bool
  sy_todo :: "(string \<times> pendingTx) list"
  sy_sweeping :: bool
  sy_ended :: "string list"

definition recSysStart :: "recorder \<Rightarrow> recSys" where
  "recSysStart r = \<lparr> sy_rec = r, sy_ops = [], sy_last = False, sy_todo = [], sy_sweeping = False, sy_ended = [] \<rparr>"

fun isTxEnd :: "recEvent \<Rightarrow> bool" where
  "isTxEnd (EvTxEnd e) = True"
| "isTxEnd _ = False"

inductive rec_step :: "json \<Rightarrow> disk \<Rightarrow> recSys \<Rightarrow> recSys \<Rightarrow> bool" for json io where
  open_sink: "tx \<notin> set (sy_ended s) \<Longrightarrow> rec_step json io s (s\<lparr>sy_rec := newBodySink tx req (sy_rec s)\<rparr>)"
| mark_ws: "tx \<notin> set (sy_ended s) \<Longrightarrow> rec_step json io s (s\<lparr>sy_rec := markWebSocket tx (sy_rec s)\<rparr>)"
| sink_write: "rec_step json io s (s\<lparr>sy_rec := sink_Write json (sinkPath tx req) p (sy_rec s)\<rparr>)"
| sink_done: "rec_step json io s (s\<lparr>sy_rec := snd (sink_finish json (sinkPath tx req) (sy_rec s))\<rparr>)"
| end_tx: "tx \<notin> set (sy_ended s) \<Longrightarrow> te_id ev = tx \<Longrightarrow>
     rec_step json io s (s\<lparr>sy_rec := endTxOnce json tx ev (sy_rec s), sy_ended := tx # sy_ended s\<rparr>)"
| other_event: "\<not> isTxEnd e \<Longrightarrow> rec_step json io s (s\<lparr>sy_rec := rec_event json e (sy_rec s)\<rparr>)"
| append_data: "rel \<noteq> indexFileName \<Longrightarrow> rec_step json io s (s\<lparr>sy_rec := appendFile json rel b d (sy_rec s)\<rparr>)"
| sweep: "\<not> sy_sweeping s \<Longrightarrow>
     rec_step json io s
       (s\<lparr>sy_rec := sweepPending (sy_rec s), sy_todo := rc_pending (sy_rec s), sy_sweeping := True\<rparr>)"
| emit_swept: "sy_todo s = p # ps \<Longrightarrow>
     rec_step json io s (s\<lparr>sy_rec := emitSwept json (sy_rec s) p, sy_todo := ps\<rparr>)"
| close_end: "sy_sweeping s \<Longrightarrow> sy_todo s = [] \<Longrightarrow>
     rec_step json io s (s\<lparr>sy_rec := finishClose json kind reason (sy_rec s), sy_sweeping := False\<rparr>)"
| writer_take: "sy_ops s = [] \<Longrightarrow> \<not> rc_done (sy_rec s) \<Longrightarrow>
     rec_step json io s
       (s\<lparr>sy_rec := (sy_rec s)\<lparr>rc_queue := [], rc_qBytes := 0\<rparr>, sy_ops := rc_queue (sy_rec s),
          sy_last := rc_closing (sy_rec s)\<rparr>)"
| writer_apply: "sy_ops s = p # ps \<Longrightarrow>
     rec_step json io s (s\<lparr>sy_rec := applyOp json io (sy_rec s) p, sy_ops := ps\<rparr>)"
| writer_end: "sy_last s \<Longrightarrow> sy_ops s = [] \<Longrightarrow> rc_queue (sy_rec s) = [] \<Longrightarrow>
     rec_step json io s (s\<lparr>sy_rec := (sy_rec s)\<lparr>rc_files := [], rc_done := True\<rparr>\<rparr>)"

subsection \<open>The queue\<close>

definition queue_ok :: "json \<Rightarrow> recorder \<Rightarrow> bool" where
  "queue_ok json r \<longleftrightarrow>
     length (rc_queue r) \<le> recorderMaxQueuedOps \<and> rc_qBytes r \<le> recorderQueueLimit \<and>
     sum_list (map (\<lambda>p. dataLen json (op_data p)) (filter op_droppable (rc_queue r))) = rc_qBytes r"

lemma enqueue_queue_ok: "queue_ok json r \<Longrightarrow> queue_ok json (enqueue json p r)"
  by (auto simp: queue_ok_def enqueue_def)

lemma enqueue_same:
  "rc_files (enqueue json p r) = rc_files r" "rc_order (enqueue json p r) = rc_order r"
  "rc_disk (enqueue json p r) = rc_disk r" "rc_pending (enqueue json p r) = rc_pending r"
  "rc_swept (enqueue json p r) = rc_swept r" "rc_closing (enqueue json p r) = rc_closing r"
  "rc_halted (enqueue json p r) = rc_halted r" "rc_active (enqueue json p r) = rc_active r"
  "rc_sinks (enqueue json p r) = rc_sinks r" "rc_done (enqueue json p r) = rc_done r"
  "rc_written (enqueue json p r) = rc_written r" "rc_maxSession (enqueue json p r) = rc_maxSession r"
  by (simp_all add: enqueue_def)

lemmas queued_defs = rec_event_def appendFile_def closeFile_def

lemma openTx_same:
  "rc_files (openTx tx f r) = rc_files r" "rc_order (openTx tx f r) = rc_order r"
  "rc_disk (openTx tx f r) = rc_disk r" "rc_queue (openTx tx f r) = rc_queue r"
  "rc_qBytes (openTx tx f r) = rc_qBytes r" "rc_swept (openTx tx f r) = rc_swept r"
  "rc_closing (openTx tx f r) = rc_closing r" "rc_done (openTx tx f r) = rc_done r"
  by (simp_all add: openTx_def split: option.split)

lemma openFile_frame: "\<exists>fs os. fst (openFile io rel r) = r\<lparr>rc_files := fs, rc_order := os\<rparr>"
proof (cases "rel \<in> set (rc_files r)")
  case True
  then have "fst (openFile io rel r) = r\<lparr>rc_files := rc_files r, rc_order := rc_order r\<rparr>" by (simp add: openFile_def)
  then show ?thesis by blast
next
  case False
  obtain fs os where
    "(if recorderMaxOpenFiles \<le> length (rc_files r) then evictOldest (rc_files r) (rc_order r)
      else (rc_files r, rc_order r)) = (fs, os)" by (meson surj_pair)
  with False show ?thesis by (cases "can_open io rel") (auto simp: openFile_def Let_def)
qed

lemma openFile_cases:
  obtains fs os ok where "openFile io rel r = (r\<lparr>rc_files := fs, rc_order := os\<rparr>, ok)"
  using openFile_frame [of io rel r] by (metis surj_pair fst_conv)

lemma autoStop_cases:
  obtains (halted) "autoStop io m r = r" "rc_halted r"
  | (stops) fs os and k :: nat where "\<not> rc_halted r"
      "autoStop io m r = r\<lparr>rc_halted := True, rc_active := False, rc_stopReason := m, rc_files := fs, rc_order := os,
         rc_disk := (rc_disk r)(indexFileName := rc_disk r indexFileName @ take k [Event (EvStop ''stop'' m)])\<rparr>"
proof (cases "rc_halted r")
  case True
  then show ?thesis using halted by (simp add: autoStop_def)
next
  case False
  define r1 where "r1 = r\<lparr>rc_halted := True, rc_active := False, rc_stopReason := m\<rparr>"
  obtain fs os ok where o: "openFile io indexFileName r1 = (r1\<lparr>rc_files := fs, rc_order := os\<rparr>, ok)"
    by (rule openFile_cases)
  have a: "autoStop io m r =
      (if ok \<and> can_write io indexFileName
       then writeFile indexFileName (Event (EvStop ''stop'' m)) (r1\<lparr>rc_files := fs, rc_order := os\<rparr>)
       else r1\<lparr>rc_files := fs, rc_order := os\<rparr>)"
    using False o by (simp add: autoStop_def r1_def)
  show ?thesis
  proof (cases "ok \<and> can_write io indexFileName")
    case True
    then show ?thesis using stops [of "Suc 0" os fs] False a by (simp add: r1_def writeFile_def)
  next
    case F: False
    then show ?thesis using stops [of "0" os fs] False a by (auto simp: r1_def)
  qed
qed

lemma autoStop_frame:
  obtains fs os d h a m' where
    "autoStop io m r = r\<lparr>rc_active := a, rc_halted := h, rc_stopReason := m', rc_files := fs, rc_order := os, rc_disk := d\<rparr>"
proof (cases rule: autoStop_cases [of io m r])
  case halted
  then have "autoStop io m r = r\<lparr>rc_active := rc_active r, rc_halted := rc_halted r, rc_stopReason := rc_stopReason r,
      rc_files := rc_files r, rc_order := rc_order r, rc_disk := rc_disk r\<rparr>" by simp
  then show ?thesis by (rule that)
next
  case (stops fs os k)
  have "autoStop io m r = r\<lparr>rc_active := False, rc_halted := True, rc_stopReason := m, rc_files := fs, rc_order := os,
         rc_disk := (rc_disk r)(indexFileName := rc_disk r indexFileName @ take k [Event (EvStop ''stop'' m)])\<rparr>"
    by (simp add: stops(2))
  then show ?thesis by (rule that)
qed

text \<open>What the writer does with one operation: nothing, a close, a failure or a write.\<close>

lemma applyOp_cases:
  obtains (skip) "applyOp json io r p = r" "op_close p \<or> op_data p = None \<or> dataLen json (op_data p) = 0 \<or>
        (op_path p \<noteq> indexFileName \<and> rc_halted r)"
  | (closes) "applyOp json io r p = r\<lparr>rc_files := filter (\<lambda>f. f \<noteq> op_path p) (rc_files r)\<rparr>" "op_close p"
  | (fails) r1 ok where "openFile io (op_path p) r = (r1, ok)" "applyOp json io r p = autoStop io ''writeError'' r1"
      "\<not> (ok \<and> can_write io (op_path p))" "op_path p = indexFileName \<or> \<not> rc_halted r"
  | (writes) r1 d r2 where "openFile io (op_path p) r = (r1, True)" "can_write io (op_path p)"
      "op_data p = Some d" "op_path p = indexFileName \<or> \<not> rc_halted r" "\<not> op_close p"
      "r2 = (writeFile (op_path p) d r1)\<lparr>rc_written := rc_written r1 + dataLen json (Some d)\<rparr>"
      "applyOp json io r p =
         (if 0 < rc_maxSession r2 \<and> rc_maxSession r2 < int (rc_written r2) then autoStop io ''sizeLimit'' r2 else r2)"
proof (cases "op_close p \<or> op_data p = None \<or> dataLen json (op_data p) = 0 \<or> (op_path p \<noteq> indexFileName \<and> rc_halted r)")
  case True
  show ?thesis
  proof (cases "op_close p")
    case True
    then show ?thesis using closes by (simp add: applyOp_def)
  next
    case False
    with True have "applyOp json io r p = r" by (cases "op_data p") (auto simp: applyOp_def)
    with True show ?thesis using skip by blast
  qed
next
  case F: False
  then obtain d where d: "op_data p = Some d" by auto
  obtain r1 ok where o: "openFile io (op_path p) r = (r1, ok)" by fastforce
  show ?thesis
  proof (cases "ok \<and> can_write io (op_path p)")
    case True
    define r2 where "r2 = (writeFile (op_path p) d r1)\<lparr>rc_written := rc_written r1 + dataLen json (Some d)\<rparr>"
    have n: "op_close p = False" "(dataLen json (Some d) = 0) = False"
      "(op_path p \<noteq> indexFileName \<and> rc_halted r) = False" "(ok \<and> can_write io (op_path p)) = True"
      using F d True by auto
    have "applyOp json io r p =
         (if 0 < rc_maxSession r2 \<and> rc_maxSession r2 < int (rc_written r2) then autoStop io ''sizeLimit'' r2 else r2)"
      by (simp only: applyOp_def Let_def r2_def [symmetric] d o n option.case prod.case if_False if_True not_True_eq_False)
    moreover have "openFile io (op_path p) r = (r1, True)" "can_write io (op_path p)"
      "op_path p = indexFileName \<or> \<not> rc_halted r" "\<not> op_close p" using F o True by auto
    ultimately show ?thesis using writes d r2_def by blast
  next
    case False
    then have "applyOp json io r p = autoStop io ''writeError'' r1" using F d o by (auto simp: applyOp_def)
    then show ?thesis using fails [OF o] False F by blast
  qed
qed

lemma applyOp_frame:
  obtains fs os d h a m w where
    "applyOp json io r p =
       r\<lparr>rc_active := a, rc_halted := h, rc_stopReason := m, rc_written := w, rc_files := fs, rc_order := os, rc_disk := d\<rparr>"
proof (cases rule: applyOp_cases [of json io r p])
  case skip
  show ?thesis
    by (rule that [of "rc_disk r" "rc_order r" "rc_files r" "rc_written r" "rc_stopReason r" "rc_halted r" "rc_active r"])
      (simp add: skip)
next
  case closes
  show ?thesis
    by (rule that [of "rc_disk r" "rc_order r" _ "rc_written r" "rc_stopReason r" "rc_halted r" "rc_active r"])
      (simp add: closes)
next
  case (fails r1 ok)
  obtain fs os where "r1 = r\<lparr>rc_files := fs, rc_order := os\<rparr>" using openFile_frame [of io "op_path p" r] fails(1) by auto
  then show ?thesis
    by (cases rule: autoStop_frame [of io "''writeError''" r1])
      (rule that [where w = "rc_written r"], simp add: fails(2))
next
  case (writes r1 d r2)
  obtain fs os where "r1 = r\<lparr>rc_files := fs, rc_order := os\<rparr>"
    using openFile_frame [of io "op_path p" r] writes(1) by auto
  then obtain w dk where r2: "r2 = r\<lparr>rc_files := fs, rc_order := os, rc_disk := dk, rc_written := w\<rparr>"
    using writes(6) by (simp add: writeFile_def)
  then have r2': "r2 = r\<lparr>rc_active := rc_active r, rc_halted := rc_halted r, rc_stopReason := rc_stopReason r,
     rc_written := w, rc_files := fs, rc_order := os, rc_disk := dk\<rparr>" by simp
  show ?thesis
  proof (cases "applyOp json io r p = r2")
    case True
    show ?thesis by (rule that) (rule trans [OF True r2'])
  next
    case False
    then have a: "applyOp json io r p = autoStop io ''sizeLimit'' r2" using writes(7) by (auto split: if_splits)
    obtain fs' os' d' h a' m' where "autoStop io ''sizeLimit'' r2 =
        r2\<lparr>rc_active := a', rc_halted := h, rc_stopReason := m', rc_files := fs', rc_order := os', rc_disk := d'\<rparr>"
      by (rule autoStop_frame)
    then have "applyOp json io r p =
        r\<lparr>rc_active := a', rc_halted := h, rc_stopReason := m', rc_written := w, rc_files := fs', rc_order := os', rc_disk := d'\<rparr>"
      by (simp add: a r2)
    then show ?thesis by (rule that)
  qed
qed

lemma applyOp_queue:
  "rc_queue (applyOp json io r p) = rc_queue r" "rc_qBytes (applyOp json io r p) = rc_qBytes r"
  "rc_pending (applyOp json io r p) = rc_pending r" "rc_swept (applyOp json io r p) = rc_swept r"
  "rc_closing (applyOp json io r p) = rc_closing r" "rc_done (applyOp json io r p) = rc_done r"
  "rc_sinks (applyOp json io r p) = rc_sinks r" "rc_maxSession (applyOp json io r p) = rc_maxSession r"
  by (cases rule: applyOp_frame [of json io r p], simp)+

subsection \<open>Open files\<close>

definition files_ok :: "recorder \<Rightarrow> bool" where
  "files_ok r \<longleftrightarrow> distinct (rc_files r) \<and> length (rc_files r) \<le> recorderMaxOpenFiles \<and>
     set (rc_files r) \<subseteq> insert indexFileName (set (rc_order r))"

lemma evictOldest_keeps:
  "set files \<subseteq> insert indexFileName (set order) \<Longrightarrow> evictOldest files order = (fs, os) \<Longrightarrow>
     set fs \<subseteq> insert indexFileName (set os)"
proof (induction files order rule: evictOldest.induct)
  case (2 files victim order)
  show ?case
  proof (cases "victim \<in> set files \<and> victim \<noteq> indexFileName")
    case True
    with 2(2,3) show ?thesis by auto
  next
    case False
    with 2(2) have "set files \<subseteq> insert indexFileName (set order)" by auto
    with 2 False show ?thesis by simp
  qed
qed auto

lemma evictOldest_removes:
  "f \<in> set files \<Longrightarrow> f \<noteq> indexFileName \<Longrightarrow> f \<in> set order \<Longrightarrow> evictOldest files order = (fs, os) \<Longrightarrow>
     \<exists>v \<in> set files. fs = filter (\<lambda>x. x \<noteq> v) files"
  by (induction files order rule: evictOldest.induct) (auto split: if_splits)

lemma distinct_long_other:
  assumes "distinct xs" "2 \<le> length xs"
  shows "\<exists>x \<in> set xs. x \<noteq> y"
proof (rule ccontr)
  assume "\<not> ?thesis"
  then have "set xs \<subseteq> {y}" by auto
  then have "card (set xs) \<le> 1" using card_mono [of "{y}" "set xs"] by simp
  with assms show False by (simp add: distinct_card)
qed

lemma length_remove_distinct: "distinct xs \<Longrightarrow> v \<in> set xs \<Longrightarrow> Suc (length (filter (\<lambda>x. x \<noteq> v) xs)) = length xs"
proof (induction xs)
  case (Cons x xs)
  have "x = v \<Longrightarrow> filter (\<lambda>y. y \<noteq> v) xs = xs" using Cons.prems by (auto simp: filter_id_conv)
  with Cons show ?case by auto
qed simp

lemma evicted_room:
  assumes ok: "files_ok r"
    and ev: "(if recorderMaxOpenFiles \<le> length (rc_files r) then evictOldest (rc_files r) (rc_order r)
              else (rc_files r, rc_order r)) = (fs, os)"
  shows "distinct fs \<and> length fs < recorderMaxOpenFiles \<and> set fs \<subseteq> insert indexFileName (set os) \<and> set fs \<subseteq> set (rc_files r)"
proof (cases "recorderMaxOpenFiles \<le> length (rc_files r)")
  case False
  with ok ev show ?thesis by (auto simp: files_ok_def)
next
  case True
  have e: "evictOldest (rc_files r) (rc_order r) = (fs, os)" using ev True by simp
  have l: "2 \<le> length (rc_files r)" using True by (simp add: recorderMaxOpenFiles_def)
  have dist: "distinct (rc_files r)" using ok by (simp add: files_ok_def)
  obtain f where f: "f \<in> set (rc_files r)" "f \<noteq> indexFileName"
    using distinct_long_other [OF dist l] by blast
  have "f \<in> set (rc_order r)" using f ok by (auto simp: files_ok_def)
  then obtain v where v: "v \<in> set (rc_files r)" "fs = filter (\<lambda>x. x \<noteq> v) (rc_files r)"
    using evictOldest_removes [OF f _ e] by blast
  have "Suc (length fs) = length (rc_files r)" using length_remove_distinct [OF dist v(1)] v(2) by simp
  then have "length fs < recorderMaxOpenFiles" using ok by (simp add: files_ok_def)
  moreover have "set fs \<subseteq> insert indexFileName (set os)" using evictOldest_keeps [OF _ e] ok by (simp add: files_ok_def)
  ultimately show ?thesis using v(2) dist by auto
qed

lemma openFile_files_ok:
  assumes ok: "files_ok r" and o: "openFile io rel r = (r1, b)"
  shows "files_ok r1"
proof (cases "rel \<in> set (rc_files r)")
  case True
  with assms show ?thesis by (simp add: openFile_def)
next
  case False
  obtain fs os where ev: "(if recorderMaxOpenFiles \<le> length (rc_files r) then evictOldest (rc_files r) (rc_order r)
              else (rc_files r, rc_order r)) = (fs, os)" by (meson surj_pair)
  have r: "distinct fs" "length fs < recorderMaxOpenFiles" "set fs \<subseteq> insert indexFileName (set os)" "rel \<notin> set fs"
    using evicted_room [OF ok ev] False by auto
  have r1: "r1 = (if \<not> can_open io rel then r\<lparr>rc_files := fs, rc_order := os\<rparr>
      else r\<lparr>rc_files := fs @ [rel], rc_order := (if length (os @ [rel]) > 4 * recorderMaxOpenFiles
               then filter (\<lambda>p. p \<in> set (fs @ [rel])) (os @ [rel]) else os @ [rel])\<rparr>)"
    using o False by (auto simp: openFile_def ev Let_def split: if_splits)
  show ?thesis unfolding files_ok_def r1 using r by auto
qed

lemma autoStop_files_ok:
  assumes "files_ok r"
  shows "files_ok (autoStop io m r)"
proof (cases "rc_halted r")
  case True
  then show ?thesis using assms by (simp add: autoStop_def)
next
  case False
  define r1 where "r1 = r\<lparr>rc_halted := True, rc_active := False, rc_stopReason := m\<rparr>"
  obtain r2 ok where o: "openFile io indexFileName r1 = (r2, ok)" by fastforce
  have "files_ok r1" using assms by (simp add: files_ok_def r1_def)
  then have "files_ok r2" using o openFile_files_ok by blast
  moreover have "autoStop io m r = (if ok \<and> can_write io indexFileName
      then writeFile indexFileName (Event (EvStop ''stop'' m)) r2 else r2)"
    using False o by (simp add: autoStop_def r1_def)
  ultimately show ?thesis by (simp add: files_ok_def writeFile_def)
qed

lemma applyOp_files_ok:
  assumes "files_ok r"
  shows "files_ok (applyOp json io r p)"
proof (cases rule: applyOp_cases [of json io r p])
  case closes
  have "length (filter (\<lambda>f. f \<noteq> op_path p) (rc_files r)) \<le> recorderMaxOpenFiles"
    using assms length_filter_le [of _ "rc_files r"] unfolding files_ok_def by (meson le_trans)
  then show ?thesis using assms unfolding files_ok_def closes(1) by auto
next
  case (fails r1 ok)
  then show ?thesis using autoStop_files_ok openFile_files_ok [OF assms] by simp
next
  case (writes r1 d r2)
  have "files_ok r1" using openFile_files_ok [OF assms writes(1)] .
  then have "files_ok r2" by (simp add: writes(6) files_ok_def writeFile_def)
  then show ?thesis using writes(7) autoStop_files_ok by auto
qed (use assms in simp)

subsection \<open>Body sinks\<close>

text \<open>All that a sink hands on over a sequence of writes.\<close>

fun sink_puts :: "bodySink \<Rightarrow> bytes list \<Rightarrow> bodySink \<times> bytes" where
  "sink_puts s [] = (s, [])"
| "sink_puts s (p # ps) =
     (case sink_put s p of (s1, out) \<Rightarrow>
        case sink_puts s1 ps of (s2, rest) \<Rightarrow> (s2, (case out of None \<Rightarrow> [] | Some b \<Rightarrow> b) @ rest))"

lemma sink_put_step:
  "sink_put s p = (s1, out) \<Longrightarrow>
     bs_max s1 = bs_max s \<and> bs_total s1 = bs_total s + length p \<and>
     bs_stored s1 = bs_stored s + length (case out of None \<Rightarrow> [] | Some b \<Rightarrow> b) \<and>
     (case out of None \<Rightarrow> [] | Some b \<Rightarrow> b) = take (nat (bs_max s) - bs_stored s) p \<and>
     (bs_truncated s1 \<longleftrightarrow> bs_truncated s \<or> nat (bs_max s) - bs_stored s < length p)"
  by (auto simp: sink_put_def Let_def nat_diff_distrib' split: if_splits)

lemma sink_puts_spec:
  "sink_puts s ps = (s2, out) \<Longrightarrow>
     bs_max s2 = bs_max s \<and> bs_total s2 = bs_total s + length (concat ps) \<and> bs_stored s2 = bs_stored s + length out \<and>
     out = take (nat (bs_max s) - bs_stored s) (concat ps) \<and>
     (bs_truncated s2 \<longleftrightarrow> bs_truncated s \<or> nat (bs_max s) - bs_stored s < length (concat ps))"
proof (induction ps arbitrary: s out)
  case (Cons p ps)
  obtain s1 o1 where p: "sink_put s p = (s1, o1)" by fastforce
  obtain rest where q: "sink_puts s1 ps = (s2, rest)" and out: "out = (case o1 of None \<Rightarrow> [] | Some b \<Rightarrow> b) @ rest"
    using Cons.prems p by (auto split: prod.splits)
  note A = sink_put_step [OF p] and B = Cons.IH [OF q]
  have room: "nat (bs_max s1) - bs_stored s1 = nat (bs_max s) - bs_stored s - length p"
    using A by auto
  show ?case using A B room out by auto
qed auto

subsection \<open>One end per transaction\<close>

fun endsTx :: "string \<Rightarrow> recData \<Rightarrow> bool" where
  "endsTx tx (Event (EvTxEnd e)) \<longleftrightarrow> te_id e = tx"
| "endsTx tx _ \<longleftrightarrow> False"

definition endsIn :: "string \<Rightarrow> recData list \<Rightarrow> nat" where
  "endsIn tx ds = length (filter (endsTx tx) ds)"

definition opEnds :: "string \<Rightarrow> recOp list \<Rightarrow> nat" where
  "opEnds tx ps = endsIn tx (List.map_filter op_data ps)"

definition todoEnds :: "string \<Rightarrow> (string \<times> pendingTx) list \<Rightarrow> nat" where
  "todoEnds tx ps = length (filter (\<lambda>p. fst p = tx) ps)"

definition txEnds :: "recSys \<Rightarrow> string \<Rightarrow> nat" where
  "txEnds s tx = endsIn tx (rc_disk (sy_rec s) indexFileName) + opEnds tx (sy_ops s) + opEnds tx (rc_queue (sy_rec s)) +
     (if rc_closing (sy_rec s) then 0 else todoEnds tx (sy_todo s))"

definition sys_ok :: "recSys \<Rightarrow> bool" where
  "sys_ok s \<longleftrightarrow>
     (\<forall>tx. txEnds s tx \<le> 1) \<and>
     (\<forall>tx. 0 < txEnds s tx \<longrightarrow> tx \<in> set (rc_swept (sy_rec s)) \<or> tx \<in> set (sy_ended s)) \<and>
     distinct (map fst (rc_pending (sy_rec s))) \<and>
     (\<not> sy_sweeping s \<longrightarrow> sy_todo s = []) \<and>
     (\<not> sy_sweeping s \<and> \<not> rc_closing (sy_rec s) \<longrightarrow>
        rc_swept (sy_rec s) = [] \<and> set (map fst (rc_pending (sy_rec s))) \<inter> set (sy_ended s) = {})"

lemma endsIn_simps:
  "endsIn tx [] = 0" "endsIn tx (d # ds) = (if endsTx tx d then 1 else 0) + endsIn tx ds"
  "endsIn tx (ds @ es) = endsIn tx ds + endsIn tx es"
  by (simp_all add: endsIn_def)

lemma opEnds_simps:
  "opEnds tx [] = 0" "opEnds tx (p # ps) = (case op_data p of None \<Rightarrow> 0 | Some d \<Rightarrow> if endsTx tx d then 1 else 0) + opEnds tx ps"
  "opEnds tx (ps @ qs) = opEnds tx ps + opEnds tx qs"
  by (simp_all add: opEnds_def endsIn_simps List.map_filter_def split: option.split)

lemma todoEnds_simps:
  "todoEnds tx [] = 0" "todoEnds tx (p # ps) = (if fst p = tx then 1 else 0) + todoEnds tx ps"
  by (simp_all add: todoEnds_def)

lemmas ends_simps = endsIn_simps opEnds_simps todoEnds_simps

lemma todoEnds_distinct: "distinct (map fst ps) \<Longrightarrow> todoEnds tx ps = (if tx \<in> set (map fst ps) then 1 else 0)"
  by (induction ps) (auto simp: ends_simps image_iff split: if_splits)

text \<open>An operation that is not a transaction's end adds none.\<close>

lemma enqueue_ends: "opEnds tx (rc_queue (enqueue json p r)) \<le> opEnds tx (rc_queue r) + opEnds tx [p]"
  by (simp add: enqueue_def ends_simps)

lemma enqueue_ends_closing: "rc_closing r \<Longrightarrow> enqueue json p r = r"
  by (simp add: enqueue_def)

lemma autoStop_ends: "endsIn tx (rc_disk (autoStop io m r) indexFileName) = endsIn tx (rc_disk r indexFileName)"
proof (cases rule: autoStop_cases [of io m r])
  case (stops fs os k)
  then show ?thesis by (cases k) (simp_all add: ends_simps)
qed simp

lemma applyOp_ends:
  "endsIn tx (rc_disk (applyOp json io r p) indexFileName) \<le> endsIn tx (rc_disk r indexFileName) + opEnds tx [p]"
proof (cases rule: applyOp_cases [of json io r p])
  case (fails r1 ok)
  have "rc_disk r1 = rc_disk r" using openFile_frame [of io "op_path p" r] fails(1) by auto
  then show ?thesis by (simp add: fails(2) autoStop_ends)
next
  case (writes r1 d r2)
  have "rc_disk r1 = rc_disk r" using openFile_frame [of io "op_path p" r] writes(1) by auto
  then have "endsIn tx (rc_disk r2 indexFileName) \<le> endsIn tx (rc_disk r indexFileName) + opEnds tx [p]"
    by (simp add: writes(3,6) writeFile_def ends_simps)
  then show ?thesis by (simp add: writes(7) autoStop_ends)
qed simp_all

lemma sys_okI:
  assumes "\<And>tx. txEnds s tx \<le> 1"
    "\<And>tx. 0 < txEnds s tx \<Longrightarrow> tx \<in> set (rc_swept (sy_rec s)) \<or> tx \<in> set (sy_ended s)"
    "distinct (map fst (rc_pending (sy_rec s)))"
    "\<not> sy_sweeping s \<Longrightarrow> sy_todo s = []"
    "\<not> sy_sweeping s \<Longrightarrow> \<not> rc_closing (sy_rec s) \<Longrightarrow> rc_swept (sy_rec s) = []"
    "\<And>tx. \<not> sy_sweeping s \<Longrightarrow> \<not> rc_closing (sy_rec s) \<Longrightarrow> tx \<in> set (map fst (rc_pending (sy_rec s))) \<Longrightarrow> tx \<notin> set (sy_ended s)"
  shows "sys_ok s"
  using assms unfolding sys_ok_def disjoint_iff by blast

lemma sys_okD:
  assumes "sys_ok s"
  shows "txEnds s tx \<le> 1"
    "0 < txEnds s tx \<Longrightarrow> tx \<in> set (rc_swept (sy_rec s)) \<or> tx \<in> set (sy_ended s)"
    "distinct (map fst (rc_pending (sy_rec s)))"
    "\<not> sy_sweeping s \<Longrightarrow> sy_todo s = []"
    "\<not> sy_sweeping s \<Longrightarrow> \<not> rc_closing (sy_rec s) \<Longrightarrow> rc_swept (sy_rec s) = []"
    "\<not> sy_sweeping s \<Longrightarrow> \<not> rc_closing (sy_rec s) \<Longrightarrow> tx \<in> set (map fst (rc_pending (sy_rec s))) \<Longrightarrow> tx \<notin> set (sy_ended s)"
  using assms unfolding sys_ok_def disjoint_iff by blast+

lemma sys_ok_keep:
  assumes ok: "sys_ok s" and le: "\<And>tx. txEnds t tx \<le> txEnds s tx"
    and eq: "rc_swept (sy_rec t) = rc_swept (sy_rec s)" "rc_pending (sy_rec t) = rc_pending (sy_rec s)"
    "rc_closing (sy_rec t) = rc_closing (sy_rec s)" "sy_ended t = sy_ended s" "sy_todo t = sy_todo s"
    "sy_sweeping t = sy_sweeping s"
  shows "sys_ok t"
proof (rule sys_okI, unfold eq)
  show "txEnds t tx \<le> 1" for tx using le [of tx] sys_okD(1) [OF ok, of tx] by (rule le_trans)
  show "tx \<in> set (rc_swept (sy_rec s)) \<or> tx \<in> set (sy_ended s)" if "0 < txEnds t tx" for tx
    using le [of tx] that sys_okD(2) [OF ok, of tx] by simp
qed (use sys_okD [OF ok] in blast)+

lemma step_enqueue_ok:
  assumes ok: "sys_ok s" and p: "\<And>tx. opEnds tx [p] = 0"
  shows "sys_ok (s\<lparr>sy_rec := enqueue json p (sy_rec s)\<rparr>)"
proof (rule sys_ok_keep [OF ok])
  show "txEnds (s\<lparr>sy_rec := enqueue json p (sy_rec s)\<rparr>) tx \<le> txEnds s tx" for tx
    using enqueue_ends [of tx json p "sy_rec s"] p [of tx] by (simp add: txEnds_def enqueue_same)
qed (simp_all add: enqueue_same)

lemma openTx_pending:
  "distinct (map fst (rc_pending r)) \<Longrightarrow> distinct (map fst (rc_pending (openTx tx f r)))"
  "set (map fst (rc_pending (openTx tx f r))) \<subseteq> insert tx (set (map fst (rc_pending r)))"
proof -
  have "map fst (map (\<lambda>(k, t). (k, if k = tx then f t else t)) xs) = map fst xs" for xs :: "(string \<times> pendingTx) list"
    by (induction xs) auto
  then show "distinct (map fst (rc_pending r)) \<Longrightarrow> distinct (map fst (rc_pending (openTx tx f r)))"
    "set (map fst (rc_pending (openTx tx f r))) \<subseteq> insert tx (set (map fst (rc_pending r)))"
    by (auto simp: openTx_def map_of_eq_None_iff split: option.split simp del: map_map)
qed

lemma step_openTx_ok:
  assumes ok: "sys_ok s" and tx: "tx \<notin> set (sy_ended s)"
    and r: "rc_disk r = rc_disk (sy_rec s)" "rc_queue r = rc_queue (sy_rec s)" "rc_closing r = rc_closing (sy_rec s)"
      "rc_swept r = rc_swept (sy_rec s)" "rc_pending r = rc_pending (sy_rec s)"
  shows "sys_ok (s\<lparr>sy_rec := openTx tx f r\<rparr>)"
proof -
  define t where "t = s\<lparr>sy_rec := openTx tx f r\<rparr>"
  have e: "txEnds t x = txEnds s x" for x by (simp add: txEnds_def openTx_same r t_def)
  have f: "sy_ended t = sy_ended s" "sy_todo t = sy_todo s" "sy_sweeping t = sy_sweeping s"
    "rc_swept (sy_rec t) = rc_swept (sy_rec s)" "rc_closing (sy_rec t) = rc_closing (sy_rec s)"
    by (simp_all add: t_def openTx_same r)
  have "sys_ok t"
  proof (rule sys_okI, unfold e f)
    show "distinct (map fst (rc_pending (sy_rec t)))"
      using openTx_pending(1) [where r = r] sys_okD(3) [OF ok] r(5) by (simp add: t_def)
    show "x \<notin> set (sy_ended s)" if "\<not> sy_sweeping s" "\<not> rc_closing (sy_rec s)" "x \<in> set (map fst (rc_pending (sy_rec t)))" for x
    proof (cases "x = tx")
      case False
      then have "x \<in> set (map fst (rc_pending (sy_rec s)))"
        using that(3) openTx_pending(2) [where r = r and tx = tx and f = f] r(5) unfolding t_def by auto
      then show ?thesis using sys_okD(6) [OF ok that(1,2)] by blast
    qed (use tx in simp)
  qed (use sys_okD [OF ok] in blast)+
  then show ?thesis by (simp only: t_def)
qed

lemma step_end_ok:
  assumes ok: "sys_ok s" and tx: "tx \<notin> set (sy_ended s)" "te_id ev = tx"
  shows "sys_ok (s\<lparr>sy_rec := endTxOnce json tx ev (sy_rec s), sy_ended := tx # sy_ended s\<rparr>)"
proof (cases "tx \<in> set (rc_swept (sy_rec s))")
  case True
  define t where "t = s\<lparr>sy_rec := sy_rec s, sy_ended := tx # sy_ended s\<rparr>"
  have f: "sy_ended t = tx # sy_ended s" "sy_todo t = sy_todo s" "sy_sweeping t = sy_sweeping s" "sy_rec t = sy_rec s"
    by (simp_all add: t_def)
  have e: "txEnds t x = txEnds s x" for x by (simp add: txEnds_def t_def)
  have "sys_ok t"
  proof (rule sys_okI, unfold e f)
    show "x \<notin> set (tx # sy_ended s)" if "\<not> sy_sweeping s" "\<not> rc_closing (sy_rec s)" for x
      using sys_okD(5) [OF ok that] True by simp
  qed (use sys_okD [OF ok] in auto)
  moreover have "endTxOnce json tx ev (sy_rec s) = sy_rec s" using True by (simp add: endTxOnce_def)
  ultimately show ?thesis by (simp add: t_def)
next
  case False
  define r where "r = (sy_rec s)\<lparr>rc_pending := filter (\<lambda>(k, t). k \<noteq> tx) (rc_pending (sy_rec s))\<rparr>"
  define p where "p = \<lparr> op_path = indexFileName, op_data = Some (Event (EvTxEnd ev)), op_close = False, op_droppable = False \<rparr>"
  define t where "t = s\<lparr>sy_rec := enqueue json p r, sy_ended := tx # sy_ended s\<rparr>"
  have f: "sy_ended t = tx # sy_ended s" "sy_todo t = sy_todo s" "sy_sweeping t = sy_sweeping s"
    "rc_swept (sy_rec t) = rc_swept (sy_rec s)" "rc_closing (sy_rec t) = rc_closing (sy_rec s)"
    "rc_pending (sy_rec t) = filter (\<lambda>(k, t). k \<noteq> tx) (rc_pending (sy_rec s))"
    by (simp_all add: t_def enqueue_same r_def)
  have none: "txEnds s tx = 0" using sys_okD(2) [OF ok, of tx] False tx(1) by blast
  have le: "txEnds t x \<le> txEnds s x + (if x = tx then 1 else 0)" for x
    using enqueue_ends [of x json p r] tx(2)
    by (simp add: txEnds_def enqueue_same t_def r_def p_def ends_simps split: if_splits)
  have "sys_ok t"
  proof (rule sys_okI, unfold f)
    show "txEnds t x \<le> 1" for x using le [of x] none sys_okD(1) [OF ok, of x] by (cases "x = tx") auto
    show "x \<in> set (rc_swept (sy_rec s)) \<or> x \<in> set (tx # sy_ended s)" if "0 < txEnds t x" for x
      using le [of x] that sys_okD(2) [OF ok, of x] by (cases "x = tx") auto
    show "distinct (map fst (filter (\<lambda>(k, t). k \<noteq> tx) (rc_pending (sy_rec s))))"
      using sys_okD(3) [OF ok] by (rule distinct_map_filter)
    show "x \<notin> set (tx # sy_ended s)" if "\<not> sy_sweeping s" "\<not> rc_closing (sy_rec s)"
      "x \<in> set (map fst (filter (\<lambda>(k, t). k \<noteq> tx) (rc_pending (sy_rec s))))" for x
      using sys_okD(6) [OF ok that(1,2), of x] that(3) by auto
  qed (use sys_okD(4,5) [OF ok] in blast)+
  then show ?thesis using False by (simp add: endTxOnce_def rec_event_def r_def p_def t_def)
qed

lemma step_sweep_ok:
  assumes ok: "sys_ok s" and sw: "\<not> sy_sweeping s"
  shows "sys_ok (s\<lparr>sy_rec := sweepPending (sy_rec s), sy_todo := rc_pending (sy_rec s), sy_sweeping := True\<rparr>)"
proof -
  define P where "P = rc_pending (sy_rec s)"
  define t where "t = s\<lparr>sy_rec := sweepPending (sy_rec s), sy_todo := P, sy_sweeping := True\<rparr>"
  have d: "distinct (map fst P)" and todo: "sy_todo s = []" using sys_okD(3,4) [OF ok] sw by (auto simp: P_def)
  have f: "sy_ended t = sy_ended s" "sy_sweeping t" "rc_pending (sy_rec t) = []"
    "set (rc_swept (sy_rec t)) = set (rc_swept (sy_rec s)) \<union> set (map fst P)"
    by (simp_all add: t_def sweepPending_def P_def)
  have e: "txEnds t x = txEnds s x + (if rc_closing (sy_rec s) \<or> x \<notin> set (map fst P) then 0 else 1)" for x
    by (simp add: txEnds_def t_def sweepPending_def todo ends_simps todoEnds_distinct [OF d])
  have fresh: "txEnds s x = 0" if "\<not> rc_closing (sy_rec s)" "x \<in> set (map fst P)" for x
  proof -
    have "x \<notin> set (sy_ended s)" "rc_swept (sy_rec s) = []"
      using sys_okD(5,6) [OF ok sw that(1)] that(2) by (auto simp: P_def)
    then show ?thesis using sys_okD(2) [OF ok, of x] by auto
  qed
  have "sys_ok t"
  proof (rule sys_okI)
    show "txEnds t x \<le> 1" for x
      using fresh [of x] sys_okD(1) [OF ok, of x] unfolding e by (cases "rc_closing (sy_rec s) \<or> x \<notin> set (map fst P)") auto
    show "x \<in> set (rc_swept (sy_rec t)) \<or> x \<in> set (sy_ended t)" if "0 < txEnds t x" for x
      using that sys_okD(2) [OF ok, of x] unfolding e f by (cases "x \<in> set (map fst P)") auto
  qed (simp_all add: f)
  then show ?thesis by (simp add: t_def P_def)
qed

lemma step_emit_ok:
  assumes ok: "sys_ok s" and todo: "sy_todo s = p # ps"
  shows "sys_ok (s\<lparr>sy_rec := emitSwept json (sy_rec s) p, sy_todo := ps\<rparr>)"
proof -
  define q where "q = \<lparr> op_path = indexFileName, op_data = Some (Event (EvTxEnd (sweptEnd (sy_rec s) p))), op_close = False, op_droppable = False \<rparr>"
  define t where "t = s\<lparr>sy_rec := enqueue json q (sy_rec s), sy_todo := ps\<rparr>"
  have i: "te_id (sweptEnd (sy_rec s) p) = fst p" by (simp add: sweptEnd_def split: prod.split)
  have le: "txEnds t x \<le> txEnds s x" for x
  proof (cases "rc_closing (sy_rec s)")
    case True
    then show ?thesis by (simp add: txEnds_def t_def enqueue_ends_closing)
  next
    case False
    have "opEnds x (rc_queue (enqueue json q (sy_rec s))) \<le> opEnds x (rc_queue (sy_rec s)) + (if fst p = x then 1 else 0)"
      using enqueue_ends [of x json q "sy_rec s"] by (simp add: ends_simps q_def i)
    with False show ?thesis by (simp add: txEnds_def t_def enqueue_same todo ends_simps)
  qed
  have f: "sy_ended t = sy_ended s" "sy_sweeping t = sy_sweeping s" "rc_pending (sy_rec t) = rc_pending (sy_rec s)"
    "rc_swept (sy_rec t) = rc_swept (sy_rec s)" by (simp_all add: t_def enqueue_same)
  have sw: "sy_sweeping s" using sys_okD(4) [OF ok] todo by auto
  have "sys_ok t"
  proof (rule sys_okI, unfold f)
    show "txEnds t x \<le> 1" for x using le [of x] sys_okD(1) [OF ok, of x] by (rule le_trans)
    show "x \<in> set (rc_swept (sy_rec s)) \<or> x \<in> set (sy_ended s)" if "0 < txEnds t x" for x
      using le [of x] that sys_okD(2) [OF ok, of x] by simp
  qed (use sw sys_okD(3) [OF ok] in simp_all)
  then show ?thesis by (simp add: t_def emitSwept_def rec_event_def q_def)
qed

lemma step_close_ok:
  assumes ok: "sys_ok s" and todo: "sy_todo s = []"
  shows "sys_ok (s\<lparr>sy_rec := finishClose json kind reason (sy_rec s), sy_sweeping := False\<rparr>)"
proof -
  let ?r = "if rc_active (sy_rec s) then rec_event json (EvStop kind reason) (sy_rec s) else sy_rec s"
  have k: "sys_ok (s\<lparr>sy_rec := ?r\<rparr>)"
    using ok step_enqueue_ok [OF ok] by (simp add: rec_event_def ends_simps)
  have "txEnds (s\<lparr>sy_rec := finishClose json kind reason (sy_rec s), sy_sweeping := False\<rparr>) x = txEnds (s\<lparr>sy_rec := ?r\<rparr>) x" for x
    by (simp add: txEnds_def finishClose_def Let_def todo ends_simps)
  then show ?thesis using k todo unfolding sys_ok_def by (simp add: finishClose_def Let_def)
qed

lemma step_apply_ok:
  assumes ok: "sys_ok s" and ops: "sy_ops s = p # ps"
  shows "sys_ok (s\<lparr>sy_rec := applyOp json io (sy_rec s) p, sy_ops := ps\<rparr>)"
proof (rule sys_ok_keep [OF ok])
  show "txEnds (s\<lparr>sy_rec := applyOp json io (sy_rec s) p, sy_ops := ps\<rparr>) tx \<le> txEnds s tx" for tx
    using applyOp_ends [of tx json io "sy_rec s" p] by (simp add: txEnds_def applyOp_queue ops ends_simps)
qed (simp_all add: applyOp_queue)

lemma sys_ok_sinks: "sys_ok (s\<lparr>sy_rec := r\<lparr>rc_sinks := x\<rparr>\<rparr>) = sys_ok (s\<lparr>sy_rec := r\<rparr>)"
  by (simp add: sys_ok_def txEnds_def)

lemma sink_Write_cases:
  obtains (counted) x where "sink_Write json rel p r = r\<lparr>rc_sinks := x\<rparr>"
  | (queued) x b where "sink_Write json rel p r = (appendFile json rel b True r)\<lparr>rc_sinks := x\<rparr>"
proof (cases "rc_sinks r rel")
  case None
  then have "sink_Write json rel p r = r\<lparr>rc_sinks := rc_sinks r\<rparr>" by (simp add: sink_Write_def)
  then show ?thesis by (rule counted)
next
  case (Some k)
  obtain k1 out where "sink_put k p = (k1, out)" by fastforce
  then have "sink_Write json rel p r =
      (case out of None \<Rightarrow> r | Some b \<Rightarrow> appendFile json rel b True r)\<lparr>rc_sinks := (rc_sinks r)(rel \<mapsto> k1)\<rparr>"
    using Some by (simp add: sink_Write_def split: option.split)
  then show ?thesis using counted queued by (cases out) auto
qed

lemma sink_finish_cases: "snd (sink_finish json rel r) = r \<or> snd (sink_finish json rel r) = closeFile json rel r"
  by (simp add: sink_finish_def split: option.split)

lemma rec_step_sys_ok: "rec_step json io s t \<Longrightarrow> sys_ok s \<Longrightarrow> sys_ok t"
proof (induction rule: rec_step.induct)
  case (open_sink tx s req)
  then show ?case unfolding newBodySink_def by (intro step_openTx_ok) simp_all
next
  case (mark_ws tx s)
  then show ?case unfolding markWebSocket_def by (intro step_openTx_ok) simp_all
next
  case (sink_write s tx req p)
  then show ?case
    by (cases rule: sink_Write_cases [of json "sinkPath tx req" p "sy_rec s"])
      (simp_all add: sys_ok_sinks appendFile_def step_enqueue_ok ends_simps)
next
  case (sink_done s tx req)
  then show ?case
    using sink_finish_cases [of json "sinkPath tx req" "sy_rec s"] step_enqueue_ok [OF sink_done]
    by (auto simp: closeFile_def ends_simps)
next
  case (end_tx tx s ev)
  then show ?case by (intro step_end_ok)
next
  case (other_event e s)
  then show ?case by (cases e) (simp_all add: rec_event_def step_enqueue_ok ends_simps)
next
  case (append_data rel s b d)
  then show ?case by (simp add: appendFile_def step_enqueue_ok ends_simps)
next
  case (sweep s)
  then show ?case by (intro step_sweep_ok)
next
  case (emit_swept s p ps)
  then show ?case by (intro step_emit_ok)
next
  case (close_end s kind reason)
  then show ?case by (intro step_close_ok)
next
  case (writer_take s)
  show ?case by (rule sys_ok_keep [OF writer_take(3)]) (simp_all add: txEnds_def writer_take(1) ends_simps)
next
  case (writer_apply s p ps)
  then show ?case by (intro step_apply_ok)
next
  case (writer_end s)
  show ?case by (rule sys_ok_keep [OF writer_end(4)]) (simp_all add: txEnds_def)
qed

definition bounds_ok :: "json \<Rightarrow> recorder \<Rightarrow> bool" where
  "bounds_ok json r \<longleftrightarrow> queue_ok json r \<and> files_ok r"

lemma bounds_ok_frame:
  "rc_queue q = rc_queue r \<Longrightarrow> rc_qBytes q = rc_qBytes r \<Longrightarrow> rc_files q = rc_files r \<Longrightarrow> rc_order q = rc_order r \<Longrightarrow>
     bounds_ok json q = bounds_ok json r"
  by (simp add: bounds_ok_def queue_ok_def files_ok_def)

lemma bounds_ok_enqueue: "bounds_ok json r \<Longrightarrow> bounds_ok json (enqueue json p r)"
  using enqueue_queue_ok [of json r p] by (simp add: bounds_ok_def files_ok_def enqueue_same)

lemma rec_step_bounds: "rec_step json io s t \<Longrightarrow> bounds_ok json (sy_rec s) \<Longrightarrow> bounds_ok json (sy_rec t)"
proof (induction rule: rec_step.induct)
  case (open_sink tx s req)
  then show ?case using bounds_ok_frame [of "newBodySink tx req (sy_rec s)" "sy_rec s"] by (simp add: newBodySink_def openTx_same)
next
  case (mark_ws tx s)
  then show ?case using bounds_ok_frame [of "markWebSocket tx (sy_rec s)" "sy_rec s"] by (simp add: markWebSocket_def openTx_same)
next
  case (sink_write s tx req p)
  have f: "bounds_ok json (r\<lparr>rc_sinks := x\<rparr>) = bounds_ok json r" for r x by (rule bounds_ok_frame) simp_all
  show ?case
    by (cases rule: sink_Write_cases [of json "sinkPath tx req" p "sy_rec s"])
      (simp_all add: f sink_write appendFile_def bounds_ok_enqueue)
next
  case (sink_done s tx req)
  then show ?case
    using sink_finish_cases [of json "sinkPath tx req" "sy_rec s"] by (auto simp: closeFile_def bounds_ok_enqueue)
next
  case (end_tx tx s ev)
  have "bounds_ok json ((sy_rec s)\<lparr>rc_pending := x\<rparr>) = bounds_ok json (sy_rec s)" for x by (rule bounds_ok_frame) simp_all
  with end_tx show ?case by (simp add: endTxOnce_def rec_event_def bounds_ok_enqueue)
next
  case (sweep s)
  then show ?case using bounds_ok_frame [of "sweepPending (sy_rec s)" "sy_rec s"] by (simp add: sweepPending_def)
next
  case (close_end s kind reason)
  have f: "bounds_ok json (r\<lparr>rc_active := a, rc_closing := c\<rparr>) = bounds_ok json r" for r a c by (rule bounds_ok_frame) simp_all
  show ?case using close_end by (simp add: finishClose_def Let_def f rec_event_def bounds_ok_enqueue)
next
  case (writer_apply s p ps)
  then show ?case
    using applyOp_files_ok [of "sy_rec s" json io p] by (simp add: bounds_ok_def queue_ok_def applyOp_queue)
qed (simp_all add: queued_defs bounds_ok_enqueue emitSwept_def, simp_all add: bounds_ok_def queue_ok_def files_ok_def)

lemma newRecorder_ok: "sys_ok (recSysStart (newRecorder json used sid nonce mb ms tr))" "bounds_ok json (newRecorder json used sid nonce mb ms tr)"
  by (simp_all add: sys_ok_def recSysStart_def newRecorder_def rec_event_def enqueue_def txEnds_def ends_simps bounds_ok_def
      queue_ok_def files_ok_def recorderMaxQueuedOps_def)

interpretation recording_sys: kept_invariant "rec_step json io" "recSysStart (newRecorder json used sid nonce mb ms tr)"
    "\<lambda>s. sys_ok s \<and> bounds_ok json (sy_rec s)"
  for json io used sid nonce mb ms tr
proof unfold_locales
  show "sys_ok (recSysStart (newRecorder json used sid nonce mb ms tr)) \<and>
      bounds_ok json (sy_rec (recSysStart (newRecorder json used sid nonce mb ms tr)))"
    using newRecorder_ok by (simp add: recSysStart_def)
qed (use rec_step_sys_ok rec_step_bounds in blast)

lemmas reachable_ok = recording_sys.always

subsection \<open>Stopping\<close>

lemma rec_event_accepts:
  "\<not> rc_closing r \<Longrightarrow> length (rc_queue r) < recorderMaxQueuedOps \<Longrightarrow>
     rc_queue (rec_event json e r) =
       rc_queue r @ [\<lparr> op_path = indexFileName, op_data = Some (Event e), op_close = False, op_droppable = False \<rparr>]"
  by (simp add: rec_event_def enqueue_def)

text \<open>With room in the queue, every swept transaction's end is queued.\<close>

lemma emitSwept_all:
  assumes "\<not> rc_closing r" "length (rc_queue r) + length ps \<le> recorderMaxQueuedOps"
  shows "length (rc_queue (foldl (emitSwept json) r ps)) = length (rc_queue r) + length ps \<and>
    set (rc_queue r) \<subseteq> set (rc_queue (foldl (emitSwept json) r ps)) \<and>
    (\<forall>p \<in> set ps. \<lparr> op_path = indexFileName, op_data = Some (Event (EvTxEnd (sweptEnd r p))), op_close = False, op_droppable = False \<rparr>
        \<in> set (rc_queue (foldl (emitSwept json) r ps))) \<and>
    rc_closing (foldl (emitSwept json) r ps) = rc_closing r"
  using assms
proof (induction ps arbitrary: r)
  case (Cons p ps)
  let ?r = "emitSwept json r p"
  have q: "rc_queue ?r = rc_queue r @ [\<lparr> op_path = indexFileName, op_data = Some (Event (EvTxEnd (sweptEnd r p))),
      op_close = False, op_droppable = False \<rparr>]"
    using Cons.prems by (simp add: emitSwept_def rec_event_accepts)
  have sk: "rc_sinks ?r = rc_sinks r" "rc_closing ?r = rc_closing r" by (simp_all add: emitSwept_def rec_event_def enqueue_same)
  then have sw: "sweptEnd ?r = sweptEnd r" by (simp add: fun_eq_iff sweptEnd_def sink_snapshot_def)
  have "\<not> rc_closing ?r" "length (rc_queue ?r) + length ps \<le> recorderMaxQueuedOps" using Cons.prems q sk by simp_all
  note IH = Cons.IH [OF this, unfolded sw q]
  show ?case using IH sk by auto
qed simp

lemma openFile_disk: "openFile io rel r = (r1, b) \<Longrightarrow> rc_disk r1 = rc_disk r \<and> rc_written r1 = rc_written r \<and> rc_halted r1 = rc_halted r \<and>
    rc_maxSession r1 = rc_maxSession r"
  using openFile_frame [of io rel r] by auto

lemma autoStop_disk_mono: "set (rc_disk r rel) \<subseteq> set (rc_disk (autoStop io m r) rel)"
  by (cases rule: autoStop_cases [of io m r]) auto

lemma applyOp_disk_mono: "set (rc_disk r rel) \<subseteq> set (rc_disk (applyOp json io r p) rel)"
proof (cases rule: applyOp_cases [of json io r p])
  case (fails r1 ok)
  then show ?thesis using openFile_disk [OF fails(1)] autoStop_disk_mono [of r1 rel] by simp
next
  case (writes r1 d r2)
  have "set (rc_disk r rel) \<subseteq> set (rc_disk r2 rel)" using openFile_disk [OF writes(1)] by (auto simp: writes(6) writeFile_def)
  then show ?thesis using autoStop_disk_mono [of r2 rel io "''sizeLimit''"] unfolding writes(7) by auto
qed simp_all

lemma foldl_disk_mono: "set (rc_disk r rel) \<subseteq> set (rc_disk (foldl (applyOp json io) r ps) rel)"
proof (induction ps arbitrary: r)
  case (Cons p ps)
  then show ?case using applyOp_disk_mono [of r rel json io p] by (metis foldl_Cons order_trans)
qed simp

lemma openFile_opens: "can_open io rel \<Longrightarrow> snd (openFile io rel r)"
  by (auto simp: openFile_def Let_def split: prod.split)

lemma applyOp_indexes:
  assumes io: "can_open io indexFileName" "can_write io indexFileName"
    and p: "op_path p = indexFileName" "op_data p = Some (Event e)" "\<not> op_close p"
  shows "Event e \<in> set (rc_disk (applyOp json io r p) indexFileName)"
proof (cases rule: applyOp_cases [of json io r p])
  case (writes r1 d r2)
  have "Event e \<in> set (rc_disk r2 indexFileName)" using writes(3) p by (simp add: writes(6) writeFile_def)
  then show ?thesis using autoStop_disk_mono [of r2 indexFileName io "''sizeLimit''"] unfolding writes(7) by auto
next
  case (fails r1 ok)
  then show ?thesis using openFile_opens [OF io(1), of r] io p by simp
qed (use p in \<open>simp_all add: dataLen_def\<close>)

lemma foldl_indexes:
  assumes io: "can_open io indexFileName" "can_write io indexFileName"
    and p: "p \<in> set ps" "op_path p = indexFileName" "op_data p = Some (Event e)" "\<not> op_close p"
  shows "Event e \<in> set (rc_disk (foldl (applyOp json io) r ps) indexFileName)"
  using p(1)
proof (induction ps arbitrary: r)
  case (Cons q ps)
  show ?case
  proof (cases "p = q")
    case True
    then have "Event e \<in> set (rc_disk (applyOp json io r q) indexFileName)" using applyOp_indexes [OF io p(2-4)] by simp
    then show ?thesis using foldl_disk_mono [of "applyOp json io r q" indexFileName json io ps] by auto
  next
    case False
    then show ?thesis using Cons by simp
  qed
qed simp

subsection \<open>The session limit\<close>

text \<open>Bytes kept under the paths of \<open>P\<close>.\<close>

definition bytesIn :: "json \<Rightarrow> string list \<Rightarrow> recorder \<Rightarrow> nat" where
  "bytesIn json P r = sum_list (map (\<lambda>f. sum_list (map (\<lambda>d. dataLen json (Some d)) (rc_disk r f))) P)"

lemma bytesIn_append:
  assumes "distinct P"
  shows "bytesIn json P (writeFile rel d r) \<le> bytesIn json P r + dataLen json (Some d)"
    and "rel \<notin> set P \<Longrightarrow> bytesIn json P (writeFile rel d r) = bytesIn json P r"
proof -
  show e: "bytesIn json P (writeFile rel d r) = bytesIn json P r" if "rel \<notin> set P" for P
    using that by (induction P) (auto simp: bytesIn_def writeFile_def)
  show "bytesIn json P (writeFile rel d r) \<le> bytesIn json P r + dataLen json (Some d)"
    using assms
  proof (induction P)
    case (Cons f P)
    have c: "bytesIn json (f # P) q = sum_list (map (\<lambda>d. dataLen json (Some d)) (rc_disk q f)) + bytesIn json P q" for q
      by (simp add: bytesIn_def)
    show ?case using Cons e [of P] unfolding c by (cases "f = rel") (auto simp: writeFile_def)
  qed (simp add: bytesIn_def)
qed

lemma autoStop_bytes: "indexFileName \<notin> set P \<Longrightarrow> bytesIn json P (autoStop io m r) = bytesIn json P r"
proof (cases rule: autoStop_cases [of io m r])
  case (stops fs os k)
  assume "indexFileName \<notin> set P"
  then have "map (rc_disk (autoStop io m r)) P = map (rc_disk r) P" by (auto simp: stops(2))
  then show ?thesis unfolding bytesIn_def by (metis (mono_tags, lifting) map_eq_conv)
qed simp

lemma autoStop_halts: "rc_halted (autoStop io m r)"
  by (cases rule: autoStop_cases [of io m r]) simp_all

text \<open>What the limit allows so far: before the halt, the bytes written are within it.\<close>

definition limit_ok :: "json \<Rightarrow> string list \<Rightarrow> nat \<Rightarrow> recorder \<Rightarrow> recorder \<Rightarrow> bool" where
  "limit_ok json P M r0 r \<longleftrightarrow>
     (if rc_halted r then int (bytesIn json P r + rc_written r0) \<le> int (bytesIn json P r0) + rc_maxSession r0 + int M
      else bytesIn json P r + rc_written r0 \<le> bytesIn json P r0 + rc_written r \<and> int (rc_written r) \<le> rc_maxSession r)
     \<and> rc_maxSession r = rc_maxSession r0"

lemma applyOp_limit:
  assumes ok: "limit_ok json P M r0 r" and P: "distinct P" "indexFileName \<notin> set P"
    and pos: "0 < rc_maxSession r0" and M: "dataLen json (op_data p) \<le> M"
  shows "limit_ok json P M r0 (applyOp json io r p)"
proof (cases rule: applyOp_cases [of json io r p])
  case (fails r1 ok')
  note o = openFile_disk [OF fails(1)]
  have b: "bytesIn json P r1 = bytesIn json P r" using o by (simp add: bytesIn_def)
  have ms: "rc_maxSession (applyOp json io r p) = rc_maxSession r" by (rule applyOp_queue)
  show ?thesis
    using ok unfolding limit_ok_def ms unfolding fails(2) autoStop_bytes [OF P(2)] b
    by (cases "rc_halted r") (simp_all add: autoStop_halts)
next
  case (writes r1 d r2)
  note o = openFile_disk [OF writes(1)]
  have b1: "bytesIn json P r1 = bytesIn json P r" using o by (simp add: bytesIn_def)
  have b2: "bytesIn json P r2 = bytesIn json P (writeFile (op_path p) d r1)" by (simp add: writes(6) bytesIn_def)
  have le: "bytesIn json P r2 \<le> bytesIn json P r + dataLen json (Some d)"
    using bytesIn_append(1) [OF P(1)] b1 b2 by metis
  have idx: "op_path p = indexFileName \<Longrightarrow> bytesIn json P r2 = bytesIn json P r"
    using bytesIn_append(2) [OF P(1)] b1 b2 P(2) by metis
  have r2: "rc_halted r2 = rc_halted r" "rc_maxSession r2 = rc_maxSession r" "rc_written r2 = rc_written r + dataLen json (Some d)"
    using o by (simp_all add: writes(6) writeFile_def)
  have dM: "dataLen json (Some d) \<le> M" using M writes(3) by simp
  have ms: "rc_maxSession (applyOp json io r p) = rc_maxSession r" by (rule applyOp_queue)
  have bt: "bytesIn json P (applyOp json io r p) = bytesIn json P r2" using writes(7) autoStop_bytes [OF P(2)] by auto
  show ?thesis
  proof (cases "rc_halted r")
    case True
    then have i: "bytesIn json P r2 = bytesIn json P r" using writes(4) idx by blast
    have "rc_halted (applyOp json io r p)" using writes(7) True r2(1) autoStop_halts by auto
    then show ?thesis using ok True unfolding limit_ok_def ms bt i by simp
  next
    case False
    then have n: "bytesIn json P r + rc_written r0 \<le> bytesIn json P r0 + rc_written r" "int (rc_written r) \<le> rc_maxSession r0"
      "rc_maxSession r = rc_maxSession r0" using ok by (auto simp: limit_ok_def)
    show ?thesis
    proof (cases "rc_maxSession r2 < int (rc_written r2)")
      case True
      then have "rc_halted (applyOp json io r p)" using writes(7) r2(2) n(3) pos autoStop_halts by auto
      then show ?thesis using n le dM unfolding limit_ok_def ms bt by simp
    next
      case F: False
      then have "applyOp json io r p = r2" using writes(7) by auto
      then show ?thesis using n le F r2 False unfolding limit_ok_def by simp
    qed
  qed
next
  case closes
  then have "bytesIn json P (applyOp json io r p) = bytesIn json P r" by (simp add: bytesIn_def)
  then show ?thesis using ok unfolding limit_ok_def by (cases "rc_halted r") (simp_all add: closes(1))
qed (use ok in simp)

lemma foldl_limit:
  assumes "distinct P" "indexFileName \<notin> set P" "0 < rc_maxSession r0" "\<forall>p \<in> set ps. dataLen json (op_data p) \<le> M"
    "limit_ok json P M r0 r"
  shows "limit_ok json P M r0 (foldl (applyOp json io) r ps)"
  using assms(4,5)
proof (induction ps arbitrary: r)
  case (Cons p ps)
  then show ?case using applyOp_limit [OF _ assms(1-3)] by simp
qed simp

subsection \<open>Properties\<close>

definition demoJson :: json where "demoJson e = []"
definition demoDisk :: disk where "demoDisk = \<lparr> can_open = (\<lambda>_. True), can_write = (\<lambda>_. True) \<rparr>"
definition demoRec :: recorder where "demoRec = newRecorder demoJson 0 ''s'' ''n'' 3 10 ''ssh''"
definition demoEnd :: "string \<Rightarrow> txEnd" where
  "demoEnd tx = \<lparr> te_id = tx, te_ws = False, te_note = [], te_reqFile = [], te_reqBytes = 0, te_reqTruncated = False,
     te_resFile = [], te_resBytes = 0, te_resTruncated = False \<rparr>"

text \<open>
  C5: exactly one end of a transaction is ever written. However the flows, the writer and
  a shutdown interleave, the index never holds two ends of the same transaction.
\<close>

theorem recorder_one_end:
  assumes "(rec_step json io)\<^sup>*\<^sup>* (recSysStart (newRecorder json used sid nonce mb ms tr)) s"
  shows "endsIn tx (rc_disk (sy_rec s) indexFileName) \<le> 1"
proof -
  have "txEnds s tx \<le> 1" using sys_okD(1) reachable_ok [OF assms] by blast
  then show ?thesis by (simp add: txEnds_def)
qed

lemma demo_end_run:
  "(rec_step demoJson demoDisk)\<^sup>*\<^sup>* (recSysStart demoRec)
     \<lparr> sy_rec = applyOp demoJson demoDisk (applyOp demoJson demoDisk
         ((endTxOnce demoJson ''n-1'' (demoEnd ''n-1'') (newBodySink ''n-1'' True demoRec))\<lparr>rc_queue := [], rc_qBytes := 0\<rparr>)
         (rc_queue demoRec ! 0))
         (rc_queue (endTxOnce demoJson ''n-1'' (demoEnd ''n-1'') (newBodySink ''n-1'' True demoRec)) ! 1),
       sy_ops = [], sy_last = False, sy_todo = [], sy_sweeping = False, sy_ended = [''n-1''] \<rparr>"
proof -
  let ?r2 = "newBodySink ''n-1'' True demoRec"
  let ?r3 = "endTxOnce demoJson ''n-1'' (demoEnd ''n-1'') ?r2"
  let ?q = "rc_queue ?r3"
  let ?r4 = "?r3\<lparr>rc_queue := [], rc_qBytes := 0\<rparr>"
  let ?S = "\<lambda>r ops e. \<lparr> sy_rec = r, sy_ops = ops, sy_last = False, sy_todo = [], sy_sweeping = False, sy_ended = e \<rparr>"
  let ?step = "rec_step demoJson demoDisk"
  have q: "?q = [rc_queue demoRec ! 0, ?q ! 1]" "\<not> rc_done ?r3" "\<not> rc_closing ?r3"
    by (simp_all add: demoRec_def newRecorder_def rec_event_def enqueue_def endTxOnce_def newBodySink_def openTx_def
        recorderMaxQueuedOps_def)
  have 1: "?step (?S demoRec [] []) (?S ?r2 [] [])"
    using open_sink [of "''n-1''" "?S demoRec [] []" demoJson demoDisk True] by simp
  have 2: "?step (?S ?r2 [] []) (?S ?r3 [] [''n-1''])"
    using end_tx [of "''n-1''" "?S ?r2 [] []" "demoEnd ''n-1''" demoJson demoDisk] by (simp add: demoEnd_def)
  have 3: "?step (?S ?r3 [] [''n-1'']) (?S ?r4 ?q [''n-1''])"
    using writer_take [of "?S ?r3 [] [''n-1'']" demoJson demoDisk] q by simp
  have 4: "?step (?S ?r4 ?q [''n-1'']) (?S (applyOp demoJson demoDisk ?r4 (rc_queue demoRec ! 0)) [?q ! 1] [''n-1''])"
    using writer_apply [of "?S ?r4 ?q [''n-1'']" "rc_queue demoRec ! 0" "[?q ! 1]" demoJson demoDisk] q(1) by simp
  have 5: "?step (?S (applyOp demoJson demoDisk ?r4 (rc_queue demoRec ! 0)) [?q ! 1] [''n-1''])
     (?S (applyOp demoJson demoDisk (applyOp demoJson demoDisk ?r4 (rc_queue demoRec ! 0)) (?q ! 1)) [] [''n-1''])"
    using writer_apply [of "?S (applyOp demoJson demoDisk ?r4 (rc_queue demoRec ! 0)) [?q ! 1] [''n-1'']" "?q ! 1" "[]" demoJson demoDisk]
    by simp
  have "?step\<^sup>*\<^sup>* (?S demoRec [] []) (?S (applyOp demoJson demoDisk (applyOp demoJson demoDisk ?r4 (rc_queue demoRec ! 0)) (?q ! 1)) [] [''n-1''])"
    by (rule converse_rtranclp_into_rtranclp [where r = ?step], rule 1, rule converse_rtranclp_into_rtranclp [where r = ?step], rule 2,
        rule converse_rtranclp_into_rtranclp [where r = ?step], rule 3, rule converse_rtranclp_into_rtranclp [where r = ?step], rule 4,
        rule r_into_rtranclp [where r = ?step], rule 5)
  then show ?thesis by (simp only: recSysStart_def)
qed

theorem recorder_one_end_witness:
  "\<exists>s. (rec_step demoJson demoDisk)\<^sup>*\<^sup>* (recSysStart demoRec) s \<and> 0 < endsIn ''n-1'' (rc_disk (sy_rec s) indexFileName) \<and>
     endsIn ''n-1'' (rc_disk (sy_rec s) indexFileName) \<le> 1"
proof -
  let ?r = "applyOp demoJson demoDisk (applyOp demoJson demoDisk
         ((endTxOnce demoJson ''n-1'' (demoEnd ''n-1'') (newBodySink ''n-1'' True demoRec))\<lparr>rc_queue := [], rc_qBytes := 0\<rparr>)
         (rc_queue demoRec ! 0))
         (rc_queue (endTxOnce demoJson ''n-1'' (demoEnd ''n-1'') (newBodySink ''n-1'' True demoRec)) ! 1)"
  let ?s = "\<lparr> sy_rec = ?r, sy_ops = [], sy_last = False, sy_todo = [], sy_sweeping = False, sy_ended = [''n-1''] \<rparr>"
  have "0 < endsIn ''n-1'' (rc_disk ?r indexFileName)" by code_simp
  then have "0 < endsIn ''n-1'' (rc_disk (sy_rec ?s) indexFileName)" by simp
  moreover have "endsIn ''n-1'' (rc_disk (sy_rec ?s) indexFileName) \<le> 1"
    by (rule recorder_one_end [OF demo_end_run [unfolded demoRec_def], folded demoRec_def])
  ultimately show ?thesis using demo_end_run by blast
qed

text \<open>
  C25: the recorder's memory is bounded. However its goroutines interleave, at most 8192
  operations wait in the queue, those that may be dropped hold at most 2 MiB, and at most
  64 files are open.
\<close>

theorem recorder_bounded:
  assumes "(rec_step json io)\<^sup>*\<^sup>* (recSysStart (newRecorder json used sid nonce mb ms tr)) s"
  shows "length (rc_queue (sy_rec s)) \<le> recorderMaxQueuedOps \<and>
    sum_list (map (\<lambda>p. dataLen json (op_data p)) (filter op_droppable (rc_queue (sy_rec s)))) \<le> recorderQueueLimit \<and>
    length (rc_files (sy_rec s)) \<le> recorderMaxOpenFiles"
  using reachable_ok [OF assms] by (simp add: bounds_ok_def queue_ok_def files_ok_def)

theorem recorder_bounded_witness:
  "\<exists>s. (rec_step demoJson demoDisk)\<^sup>*\<^sup>* (recSysStart demoRec) s \<and> length (rc_files (sy_rec s)) \<le> recorderMaxOpenFiles"
  using recorder_bounded [OF demo_end_run [unfolded demoRec_def]] demo_end_run unfolding demoRec_def by blast

text \<open>
  stopping leaves no transaction without its end. When a recorder with room in its
  queue is closed, the index file then written holds an end for every transaction that was
  pending, with the body bytes counted so far, and nothing is recorded after it.
\<close>

theorem rec_close_ends_all:
  assumes "\<not> rc_closing r" and "\<not> rc_done r" and "length (rc_queue r) + length (rc_pending r) < recorderMaxQueuedOps"
    and "can_open io indexFileName" and "can_write io indexFileName" and "p \<in> set (rc_pending r)"
  shows "Event (EvTxEnd (sweptEnd r p)) \<in> set (rc_disk (runTurn json io (rec_close json kind reason r)) indexFileName) \<and>
    enqueue json q (rec_close json kind reason r) = rec_close json kind reason r \<and>
    runTurn json io (runTurn json io (rec_close json kind reason r)) = runTurn json io (rec_close json kind reason r)"
proof -
  let ?s = "sweepPending r"
  let ?e = "endPendingTx json r"
  let ?c = "rec_close json kind reason r"
  have sw: "sweptEnd ?s = sweptEnd r" by (simp add: fun_eq_iff sweptEnd_def sink_snapshot_def sweepPending_def)
  have "length (rc_queue ?s) + length (rc_pending r) \<le> recorderMaxQueuedOps" "\<not> rc_closing ?s"
    using assms(1,3) by (simp_all add: sweepPending_def)
  note E = emitSwept_all [OF this(2,1), of json, folded endPendingTx_def, unfolded sw]
  define b where "b = \<lparr> op_path = indexFileName, op_data = Some (Event (EvTxEnd (sweptEnd r p))), op_close = False, op_droppable = False \<rparr>"
  have "b \<in> set (rc_queue ?e)" using E assms(6) by (simp add: b_def)
  moreover have "set (rc_queue ?e) \<subseteq> set (rc_queue ?c)"
    by (simp add: rec_close_def finishClose_def Let_def rec_event_def enqueue_def subset_iff)
  ultimately have b: "b \<in> set (rc_queue ?c)" by blast
  have cl: "rc_closing ?c" by (simp add: rec_close_def finishClose_def Let_def)
  have "rc_done (foldl (emitSwept json) x ps) = rc_done x" for x ps
    by (induction ps arbitrary: x) (simp_all add: emitSwept_def rec_event_def enqueue_same)
  then have nd: "\<not> rc_done ?c"
    using assms(2) by (simp add: rec_close_def finishClose_def Let_def rec_event_def enqueue_same endPendingTx_def sweepPending_def)
  define t where "t = foldl (applyOp json io) (?c\<lparr>rc_queue := [], rc_qBytes := 0\<rparr>) (rc_queue ?c)"
  have "Event (EvTxEnd (sweptEnd r p)) \<in> set (rc_disk t indexFileName)"
    unfolding t_def by (rule foldl_indexes [OF assms(4,5) b]) (simp_all add: b_def)
  then have "Event (EvTxEnd (sweptEnd r p)) \<in> set (rc_disk (foldl (applyOp json io) (t\<lparr>rc_queue := []\<rparr>) (rc_queue t)) indexFileName)"
    using foldl_disk_mono [of "t\<lparr>rc_queue := []\<rparr>" indexFileName json io "rc_queue t"] by auto
  then show ?thesis using cl nd by (simp add: runTurn_def Let_def t_def [symmetric] enqueue_ends_closing)
qed

theorem rec_close_ends_all_witness:
  "Event (EvTxEnd (sweptEnd (newBodySink ''n-1'' True demoRec) (hd (rc_pending (newBodySink ''n-1'' True demoRec)))))
    \<in> set (rc_disk (runTurn demoJson demoDisk (rec_close demoJson ''stop'' ''user'' (newBodySink ''n-1'' True demoRec))) indexFileName)"
  by (rule conjunct1, rule rec_close_ends_all)
    (simp_all add: demoRec_def demoDisk_def newRecorder_def newBodySink_def openTx_def rec_event_def enqueue_def recorderMaxQueuedOps_def)

text \<open>
  a session does not outgrow its limit. Whatever is queued, the body, packet and key
  files together grow by at most what the limit leaves and one more write.
\<close>

theorem recorder_session_limit:
  assumes "distinct P" and "indexFileName \<notin> set P" and "0 < rc_maxSession r" and "int (rc_written r) \<le> rc_maxSession r"
    and "\<not> rc_halted r" and "\<forall>p \<in> set ps. dataLen json (op_data p) \<le> M"
  shows "int (bytesIn json P (foldl (applyOp json io) r ps)) \<le>
    int (bytesIn json P r) + (rc_maxSession r - int (rc_written r)) + int M"
proof -
  have "limit_ok json P M r r" using assms(4,5) by (simp add: limit_ok_def)
  from foldl_limit [OF assms(1-3,6) this, of io] show ?thesis by (auto simp: limit_ok_def split: if_splits)
qed

theorem recorder_session_limit_witness:
  "int (bytesIn demoJson [''bodies/a''] (foldl (applyOp demoJson demoDisk) demoRec
      (replicate 5 \<lparr> op_path = ''bodies/a'', op_data = Some (Raw (replicate 4 0)), op_close = False, op_droppable = True \<rparr>))) \<le> 0 + (10 - 0) + 4"
  using recorder_session_limit [of "[''bodies/a'']" demoRec
      "replicate 5 \<lparr> op_path = ''bodies/a'', op_data = Some (Raw (replicate 4 0)), op_close = False, op_droppable = True \<rparr>" demoJson 4 demoDisk]
  by (simp add: demoRec_def newRecorder_def rec_event_def enqueue_def indexFileName_def dataLen_def bytesIn_def recorderMaxQueuedOps_def)

text \<open>
  a body sink keeps exactly the beginning of its body. However the body is cut into
  writes, what it hands to the recorder is the body's first bytes up to the maximum, it
  counts all of them, and it reports truncation exactly when some were left out.
\<close>

theorem sink_keeps_prefix:
  "sink_puts \<lparr> bs_max = m, bs_stored = 0, bs_total = 0, bs_truncated = False \<rparr> ps =
     (\<lparr> bs_max = m, bs_stored = min (nat m) (length (concat ps)), bs_total = length (concat ps),
        bs_truncated = (nat m < length (concat ps)) \<rparr>, take (nat m) (concat ps))"
proof -
  let ?s = "\<lparr> bs_max = m, bs_stored = 0, bs_total = 0, bs_truncated = False \<rparr>"
  obtain s2 out where r: "sink_puts ?s ps = (s2, out)" by fastforce
  from sink_puts_spec [OF r] r show ?thesis by (cases s2) (auto simp: min_def)
qed

end
