(* ===== verification/Flows.thy ===== *)
theory Flows
  imports HTTP1Body GoNetip "HOL-Library.AList"
begin

text \<open>
  \<open>vpntunnel/flows.go\<close>: the registry of live flows, the peeking connection and the relay, and
  \<open>relay_mtu.go\<close>. The registry's map is an association list with distinct keys; its order,
  which Go leaves open, shows only in the order of the aborts. A connection is what it still
  delivers, then an error; the relay is a step relation over its two copy loops.
\<close>

subsection \<open>Definitions: the registry\<close>

record flowEntry =
  fe_ep :: nat
  fe_dst :: addr

record flowRegistry =
  fr_seq :: u64
  fr_flows :: "(u64 \<times> flowEntry) list"

definition newFlowRegistry :: flowRegistry where
  "newFlowRegistry = \<lparr> fr_seq = 0, fr_flows = [] \<rparr>"

definition flow_add :: "flowRegistry \<Rightarrow> nat \<Rightarrow> addr \<Rightarrow> flowRegistry \<times> u64" where
  "flow_add r ep dst =
     (let i = fr_seq r + 1
      in (r\<lparr>fr_seq := i, fr_flows := AList.update i \<lparr> fe_ep = ep, fe_dst = Unmap dst \<rparr> (fr_flows r)\<rparr>, i))"

text \<open>The registry left, the endpoints aborted and cancelled, and their number.\<close>

definition abortMatching :: "flowRegistry \<Rightarrow> (addr \<Rightarrow> bool) \<Rightarrow> flowRegistry \<times> nat list \<times> nat" where
  "abortMatching r match =
     (let hit = filter (\<lambda>(i, f). match (fe_dst f)) (fr_flows r)
      in (r\<lparr>fr_flows := filter (\<lambda>(i, f). \<not> match (fe_dst f)) (fr_flows r)\<rparr>,
          map (\<lambda>(i, f). fe_ep f) hit, length hit))"

definition flow_remove :: "flowRegistry \<Rightarrow> u64 \<Rightarrow> flowRegistry" where
  "flow_remove r i = r\<lparr>fr_flows := AList.delete i (fr_flows r)\<rparr>"

definition abortAll :: "flowRegistry \<Rightarrow> flowRegistry \<times> nat list \<times> nat" where
  "abortAll r = (r\<lparr>fr_flows := []\<rparr>, map (\<lambda>(i, f). fe_ep f) (fr_flows r), length (fr_flows r))"

subsection \<open>Definitions: the peeking connection\<close>

datatype peekErr = PeekEnd | PeekOverflow

record peekConn =
  pk_net :: string
  pk_buf :: string
  pk_recording :: bool
  pk_recorded :: string
  pk_discard :: bool
  pk_sent :: string

definition maxPeekRecord :: nat where "maxPeekRecord = 65536"

definition newPeekConn :: "string \<Rightarrow> peekConn" where
  "newPeekConn net = \<lparr> pk_net = net, pk_buf = [], pk_recording = False, pk_recorded = [], pk_discard = False, pk_sent = [] \<rparr>"

text \<open>One read of the connection below: what it delivers is up to \<open>rd\<close>, at least a byte.\<close>

definition netRead :: "(string \<Rightarrow> nat) \<Rightarrow> nat \<Rightarrow> string \<Rightarrow> string" where
  "netRead rd n s = (if n = 0 then [] else take (pieceLen rd n s) s)"

function peek_loop :: "(string \<Rightarrow> nat) \<Rightarrow> nat \<Rightarrow> peekConn \<Rightarrow> peekConn \<times> peekErr option" where
  "peek_loop rd n p =
     (if n \<le> length (pk_buf p) then (p, None)
      else if pk_net p = [] then (p, Some PeekEnd)
      else let x = netRead rd 4096 (pk_net p)
           in peek_loop rd n (p\<lparr>pk_buf := pk_buf p @ x, pk_net := drop (length x) (pk_net p)\<rparr>))"
  by pat_completeness auto
termination
  by (relation "measure (\<lambda>(rd, n, p). length (pk_net p))") (auto simp: netRead_def pieceLen_def min_def Let_def)

declare peek_loop.simps [simp del]

definition peek :: "(string \<Rightarrow> nat) \<Rightarrow> nat \<Rightarrow> peekConn \<Rightarrow> string \<times> peekErr option \<times> peekConn" where
  "peek rd n p =
     (if n \<le> length (pk_buf p) then (take n (pk_buf p), None, p)
      else case peek_loop rd n p of
             (p1, None) \<Rightarrow> (take n (pk_buf p1), None, p1)
           | (p1, Some e) \<Rightarrow> (pk_buf p1, Some e, p1))"

definition pk_Read :: "(string \<Rightarrow> nat) \<Rightarrow> nat \<Rightarrow> peekConn \<Rightarrow> string \<times> peekErr option \<times> peekConn" where
  "pk_Read rd n p =
     (let (x, err, p1) =
            (if pk_buf p \<noteq> [] then (take n (pk_buf p), None, p\<lparr>pk_buf := drop n (pk_buf p)\<rparr>)
             else if pk_net p = [] then ([], Some PeekEnd, p)
             else let x = netRead rd n (pk_net p) in (x, None, p\<lparr>pk_net := drop (length x) (pk_net p)\<rparr>))
      in if pk_recording p1 \<and> x \<noteq> [] then
           if length (pk_recorded p1) + length x > maxPeekRecord then (x, Some PeekOverflow, p1)
           else (x, err, p1\<lparr>pk_recorded := pk_recorded p1 @ x\<rparr>)
         else (x, err, p1))"

definition pk_Write :: "peekConn \<Rightarrow> string \<Rightarrow> peekConn" where
  "pk_Write p b = (if pk_discard p then p else p\<lparr>pk_sent := pk_sent p @ b\<rparr>)"

definition startRecording :: "peekConn \<Rightarrow> peekConn" where
  "startRecording p = p\<lparr>pk_recording := True, pk_recorded := []\<rparr>"

definition replay :: "peekConn \<Rightarrow> peekConn" where
  "replay p = \<lparr> pk_net = pk_net p, pk_buf = pk_recorded p @ pk_buf p, pk_recording = False, pk_recorded = [],
               pk_discard = False, pk_sent = pk_sent p \<rparr>"

subsection \<open>Definitions: the relay\<close>

text \<open>
  The two copy loops and the select of \<open>relayConns\<close>. Each copy moves a piece, or ends when
  its reader has; the end of a context and the idle timeout may come at any time and allow
  the close, after which both loops stop.
\<close>

record relay =
  rl_cin :: string
  rl_uin :: string
  rl_up :: string
  rl_down :: string
  rl_upDone :: bool
  rl_downDone :: bool
  rl_closed :: bool

definition relayStart :: "string \<Rightarrow> string \<Rightarrow> relay" where
  "relayStart cin uin = \<lparr> rl_cin = cin, rl_uin = uin, rl_up = [], rl_down = [], rl_upDone = False,
     rl_downDone = False, rl_closed = False \<rparr>"

inductive relay_step :: "bool \<Rightarrow> relay \<Rightarrow> relay \<Rightarrow> bool" for cancelled where
  up_copy: "\<not> rl_upDone r \<Longrightarrow> \<not> rl_closed r \<Longrightarrow> rl_cin r = x @ rest \<Longrightarrow> x \<noteq> [] \<Longrightarrow>
    relay_step cancelled r (r\<lparr>rl_cin := rest, rl_up := rl_up r @ x\<rparr>)"
| up_end: "\<not> rl_upDone r \<Longrightarrow> rl_cin r = [] \<or> rl_closed r \<Longrightarrow> relay_step cancelled r (r\<lparr>rl_upDone := True\<rparr>)"
| down_copy: "\<not> rl_downDone r \<Longrightarrow> \<not> rl_closed r \<Longrightarrow> rl_uin r = x @ rest \<Longrightarrow> x \<noteq> [] \<Longrightarrow>
    relay_step cancelled r (r\<lparr>rl_uin := rest, rl_down := rl_down r @ x\<rparr>)"
| down_end: "\<not> rl_downDone r \<Longrightarrow> rl_uin r = [] \<or> rl_closed r \<Longrightarrow> relay_step cancelled r (r\<lparr>rl_downDone := True\<rparr>)"
| relay_close: "\<not> rl_closed r \<Longrightarrow> rl_downDone r \<or> cancelled \<Longrightarrow> relay_step cancelled r (r\<lparr>rl_closed := True\<rparr>)"

subsection \<open>Definitions: the relay MTU\<close>

definition resolveRelayMTU :: "int \<Rightarrow> int \<Rightarrow> string \<Rightarrow> int option" where
  "resolveRelayMTU requested budget mode =
     (let req = (if requested \<le> 0 then 1400 else requested);
          mtu = min req budget
      in if mode \<noteq> ''QUIC'' \<and> mode \<noteq> ''KCP'' then None
         else let minimum = (if mode = ''QUIC'' then 1200 else 100)
              in if mtu < minimum \<or> mtu > 65535 then None else Some mtu)"

subsection \<open>The registry keeps its ids apart\<close>

text \<open>Keys are distinct and numbered up to the counter, as long as it has not wrapped.\<close>

definition registry_inv :: "flowRegistry \<Rightarrow> bool" where
  "registry_inv r \<longleftrightarrow> distinct (map fst (fr_flows r)) \<and> (\<forall>i \<in> set (map fst (fr_flows r)). 0 < i \<and> i \<le> fr_seq r)"

lemma update_fresh: "k \<notin> fst ` set xs \<Longrightarrow> AList.update k v xs = xs @ [(k, v)]"
  by (induction xs) auto

lemma registry_inv_add:
  assumes "registry_inv r" and "fr_seq r + 1 \<noteq> 0" and "flow_add r ep dst = (r', i)"
  shows "registry_inv r'" and "map_of (fr_flows r) i = None"
    and "map_of (fr_flows r') i = Some \<lparr> fe_ep = ep, fe_dst = Unmap dst \<rparr>"
proof -
  let ?i = "fr_seq r + 1"
  have lt: "fr_seq r < ?i" using assms(2) unatSuc [of "fr_seq r"] by (simp add: word_less_nat_alt add.commute)
  have new: "?i \<notin> fst ` set (fr_flows r)"
  proof
    assume "?i \<in> fst ` set (fr_flows r)"
    then have "?i \<le> fr_seq r" using assms(1) by (auto simp: registry_inv_def)
    with lt show False by simp
  qed
  then have r': "fr_flows r' = fr_flows r @ [(?i, \<lparr> fe_ep = ep, fe_dst = Unmap dst \<rparr>)]" "fr_seq r' = ?i" "i = ?i"
    using assms(3) by (auto simp: flow_add_def Let_def update_fresh)
  have "0 < ?i" using assms(2) by (simp add: word_gt_0)
  moreover have "j \<le> ?i" if "j \<le> fr_seq r" for j using that lt by simp
  ultimately show "registry_inv r'" using assms(1) new by (auto simp: registry_inv_def r')
  show "map_of (fr_flows r) i = None" using new by (simp add: r' map_of_eq_None_iff)
  then show "map_of (fr_flows r') i = Some \<lparr> fe_ep = ep, fe_dst = Unmap dst \<rparr>" by (simp add: r' map_add_def)
qed

subsection \<open>The stream behind a peeking connection\<close>

definition pk_stream :: "peekConn \<Rightarrow> string" where
  "pk_stream p = pk_buf p @ pk_net p"

lemma netRead_drop: "netRead rd n s @ drop (length (netRead rd n s)) s = s"
  by (auto simp: netRead_def min_def)

lemma peek_loop_stream:
  "peek_loop rd n p = (p', e) \<Longrightarrow>
     pk_stream p' = pk_stream p \<and> pk_recording p' = pk_recording p \<and> pk_recorded p' = pk_recorded p"
proof (induction rd n p rule: peek_loop.induct)
  case (1 rd n p)
  show ?case
  proof (cases "n \<le> length (pk_buf p) \<or> pk_net p = []")
    case True
    with "1.prems" show ?thesis by (auto simp: peek_loop.simps [of rd n p] split: if_splits)
  next
    case False
    let ?x = "netRead rd 4096 (pk_net p)"
    let ?p1 = "p\<lparr>pk_buf := pk_buf p @ ?x, pk_net := drop (length ?x) (pk_net p)\<rparr>"
    have "peek_loop rd n ?p1 = (p', e)" using "1.prems" False by (simp add: peek_loop.simps [of rd n p] Let_def)
    with "1.IH" [OF _ _ refl] False have "pk_stream p' = pk_stream ?p1 \<and> pk_recording p' = pk_recording ?p1 \<and> pk_recorded p' = pk_recorded ?p1"
      by blast
    then show ?thesis by (simp add: pk_stream_def netRead_drop)
  qed
qed

lemma peek_stream:
  assumes "peek rd n p = (x, e, p')"
  shows "pk_stream p' = pk_stream p \<and> pk_recording p' = pk_recording p \<and> pk_recorded p' = pk_recorded p"
proof (cases "n \<le> length (pk_buf p)")
  case True
  with assms show ?thesis by (simp add: peek_def)
next
  case False
  obtain q e' where q: "peek_loop rd n p = (q, e')" by (cases "peek_loop rd n p")
  with assms False have "p' = q" by (cases e') (simp_all add: peek_def)
  with peek_loop_stream [OF q] show ?thesis by simp
qed

lemma read_stream:
  assumes "pk_Read rd n p = (x, e, p')" and "e \<noteq> Some PeekOverflow"
  shows "pk_stream p = x @ pk_stream p' \<and> pk_recording p' = pk_recording p \<and>
    pk_recorded p' = (if pk_recording p then pk_recorded p @ x else pk_recorded p)"
proof -
  let ?y = "netRead rd n (pk_net p)"
  define R where "R = (if pk_buf p \<noteq> [] then (take n (pk_buf p), None, p\<lparr>pk_buf := drop n (pk_buf p)\<rparr>)
     else if pk_net p = [] then ([], Some PeekEnd, p)
     else (?y, None, p\<lparr>pk_net := drop (length ?y) (pk_net p)\<rparr>))"
  obtain y err p1 where R: "R = (y, err, p1)" by (cases R)
  have s: "pk_stream p = y @ pk_stream p1 \<and> pk_recording p1 = pk_recording p \<and> pk_recorded p1 = pk_recorded p"
    using R by (auto simp: R_def pk_stream_def netRead_drop split: if_splits)
  have "pk_Read rd n p = (if pk_recording p1 \<and> y \<noteq> [] then
           if length (pk_recorded p1) + length y > maxPeekRecord then (y, Some PeekOverflow, p1)
           else (y, err, p1\<lparr>pk_recorded := pk_recorded p1 @ y\<rparr>)
         else (y, err, p1))"
    unfolding pk_Read_def Let_def R_def [symmetric] R by simp
  with assms s show ?thesis by (auto simp: pk_stream_def split: if_splits)
qed

text \<open>A sequence of peeks and reads; \<open>None\<close> when a read reports the overflow.\<close>

datatype pkOp = PkPeek nat | PkRead nat

fun pk_run :: "(string \<Rightarrow> nat) \<Rightarrow> pkOp list \<Rightarrow> peekConn \<Rightarrow> (string \<times> peekConn) option" where
  "pk_run rd [] p = Some ([], p)"
| "pk_run rd (PkPeek n # ops) p = (case peek rd n p of (x, e, p1) \<Rightarrow> pk_run rd ops p1)"
| "pk_run rd (PkRead n # ops) p =
     (case pk_Read rd n p of
        (x, e, p1) \<Rightarrow>
          if e = Some PeekOverflow then None
          else map_option (\<lambda>(y, p2). (x @ y, p2)) (pk_run rd ops p1))"

lemma pk_run_stream:
  "pk_run rd ops p = Some (x, p') \<Longrightarrow>
     pk_stream p = x @ pk_stream p' \<and> pk_recording p' = pk_recording p \<and>
     pk_recorded p' = (if pk_recording p then pk_recorded p @ x else pk_recorded p)"
proof (induction rd ops p arbitrary: x rule: pk_run.induct)
  case (2 rd n ops p)
  obtain y e p1 where y: "peek rd n p = (y, e, p1)" by (cases "peek rd n p")
  with "2.prems" "2.IH" peek_stream [OF y] show ?case by simp
next
  case (3 rd n ops p)
  obtain y e p1 where y: "pk_Read rd n p = (y, e, p1)" by (cases "pk_Read rd n p")
  with "3.prems" obtain z where z: "e \<noteq> Some PeekOverflow" "pk_run rd ops p1 = Some (z, p')" "x = y @ z"
    by (auto split: if_splits)
  from "3.IH" [OF y [symmetric] refl z(1) z(2)] read_stream [OF y z(1)] z(3) show ?case by auto
qed simp

subsection \<open>The relay conserves its bytes\<close>

definition relay_inv :: "string \<Rightarrow> string \<Rightarrow> relay \<Rightarrow> bool" where
  "relay_inv cin uin r \<longleftrightarrow> rl_up r @ rl_cin r = cin \<and> rl_down r @ rl_uin r = uin \<and>
     (rl_closed r \<longrightarrow> rl_downDone r) \<and> (rl_downDone r \<longrightarrow> rl_uin r = [])"

definition relay_work :: "relay \<Rightarrow> nat" where
  "relay_work r = length (rl_cin r) + length (rl_uin r) + (if rl_upDone r then 0 else 1) +
     (if rl_downDone r then 0 else 1) + (if rl_closed r then 0 else 1)"

lemma relay_step_inv: "relay_step False r r' \<Longrightarrow> relay_inv cin uin r \<Longrightarrow> relay_inv cin uin r'"
  by (induction rule: relay_step.induct) (auto simp: relay_inv_def)

lemma relay_step_work: "relay_step False r r' \<Longrightarrow> relay_work r' < relay_work r"
  by (induction rule: relay_step.induct) (auto simp: relay_work_def)

lemma relay_steps:
  "(relay_step False ^^ n) r r' \<Longrightarrow> relay_inv cin uin r \<Longrightarrow> relay_inv cin uin r' \<and> n + relay_work r' \<le> relay_work r"
proof (induction n arbitrary: r')
  case (Suc n)
  then obtain q where q: "(relay_step False ^^ n) r q" "relay_step False q r'" by auto
  with Suc show ?case using relay_step_inv [OF q(2)] relay_step_work [OF q(2)] by fastforce
qed simp

lemma relay_stuck:
  assumes "relay_inv cin uin r" and "\<And>r'. \<not> relay_step False r r'"
  shows "rl_upDone r \<and> rl_downDone r \<and> rl_closed r"
proof -
  have d: "rl_downDone r"
  proof (rule ccontr)
    assume nd: "\<not> rl_downDone r"
    then have "\<not> rl_closed r" using assms(1) by (auto simp: relay_inv_def)
    with nd assms(2) show False
      using down_end [of r] down_copy [of r "rl_uin r" "[]"] by (cases "rl_uin r = []") auto
  qed
  then have c: "rl_closed r" using assms(2) relay_close [of r] by blast
  then have "rl_upDone r" using assms(2) up_end [of r] by blast
  with d c show ?thesis by blast
qed

subsection \<open>Properties\<close>

text \<open>
  C24: a flow that is first inspected and then passed through loses nothing. After any peeks and
  reads since the recording began, short of its 64 KiB bound, the replayed connection delivers
  exactly the stream there was then, and the reads so far were its beginning.
\<close>

theorem replay_exact:
  assumes "pk_run rd ops (startRecording p) = Some (x, p')"
  shows "pk_stream (replay p') = pk_stream p \<and> pk_stream p = x @ pk_stream p'"
  using pk_run_stream [OF assms] by (simp add: startRecording_def replay_def pk_stream_def)

theorem replay_exact_witness:
  "\<exists>x p'. pk_run (\<lambda>_. 4) [PkPeek 1, PkRead 5, PkRead 5] (startRecording (newPeekConn ''client hello'')) = Some (x, p') \<and>
      pk_stream (replay p') = ''client hello''"
proof -
  have "pk_run (\<lambda>_. 4) [PkPeek 1, PkRead 5, PkRead 5] (startRecording (newPeekConn ''client hello'')) \<noteq> None" by code_simp
  then obtain x p' where "pk_run (\<lambda>_. 4) [PkPeek 1, PkRead 5, PkRead 5] (startRecording (newPeekConn ''client hello'')) = Some (x, p')"
    by auto
  with replay_exact [OF this] show ?thesis by (auto simp: newPeekConn_def pk_stream_def)
qed



end
