(* ===== verification/DNSCache.thy ===== *)
theory DNSCache
  imports DNSMessage
begin

text \<open>
  \<open>vpntunnel/dnscache.go\<close>: the map from resolved addresses back to names. The list
  elements are explicit objects: \<open>items\<close> maps an address to the element, \<open>lru\<close> holds the
  elements front to back, \<open>elems\<close> is the store of their entries. It refines an association
  list in order of last use.
\<close>

subsection \<open>Definitions\<close>

definition dnsCacheSize :: nat where
  "dnsCacheSize = 2048"

record dnsCacheEntry =
  e_ip :: addr
  e_name :: string

record dnsCache =
  items :: "addr \<Rightarrow> nat option"
  lru :: "nat list"
  elems :: "nat \<Rightarrow> dnsCacheEntry"
  fresh :: nat

definition newDNSCache :: dnsCache where
  "newDNSCache = \<lparr> items = (\<lambda>_. None), lru = [],
                   elems = (\<lambda>_. \<lparr> e_ip = AddrNone, e_name = [] \<rparr>), fresh = 0 \<rparr>"

text \<open>\<open>MoveToFront\<close> of \<open>container/list\<close>.\<close>

definition moveToFront :: "nat \<Rightarrow> dnsCache \<Rightarrow> dnsCache" where
  "moveToFront el c = c\<lparr> lru := el # filter (\<lambda>e. e \<noteq> el) (lru c) \<rparr>"

definition cache_lookup :: "dnsCache option \<Rightarrow> string \<Rightarrow> string \<times> dnsCache option" where
  "cache_lookup c0 ip =
     (case c0 of
        None \<Rightarrow> ([], None)
      | Some c \<Rightarrow>
          (case ParseAddr ip of
             None \<Rightarrow> ([], Some c)
           | Some a \<Rightarrow>
               (case items c (Unmap a) of
                  Some el \<Rightarrow> (e_name (elems c el), Some (moveToFront el c))
                | None \<Rightarrow> ([], Some c))))"

text \<open>The eviction loop of \<open>put\<close>.\<close>

function cache_evict :: "dnsCache \<Rightarrow> dnsCache" where
  "cache_evict c =
     (if length (lru c) > dnsCacheSize then
        let old = last (lru c)
        in cache_evict (c\<lparr> lru := butlast (lru c), items := (items c)(e_ip (elems c old) := None) \<rparr>)
      else c)"
  by pat_completeness auto
termination
  by (relation "measure (\<lambda>c. length (lru c))") auto

declare cache_evict.simps [simp del]

definition cache_put :: "dnsCache \<Rightarrow> addr \<Rightarrow> string \<Rightarrow> dnsCache" where
  "cache_put c addr0 name =
     (let a = Unmap addr0 in
      case items c a of
        Some el \<Rightarrow>
          moveToFront el (c\<lparr> elems := (elems c)(el := (elems c el)\<lparr>e_name := name\<rparr>) \<rparr>)
      | None \<Rightarrow>
          cache_evict (c\<lparr> elems := (elems c)(fresh c := \<lparr> e_ip = a, e_name = name \<rparr>),
                          lru := fresh c # lru c,
                          items := (items c)(a \<mapsto> fresh c),
                          fresh := Suc (fresh c) \<rparr>))"

partial_function (option) observe_loop ::
  "'p dnsParser \<Rightarrow> string \<Rightarrow> 'p \<Rightarrow> dnsCache \<Rightarrow> dnsCache option" where
  "observe_loop P name p c =
     (case pAnswerHeader P p of
        None \<Rightarrow> Some c
      | Some (ty, p1) \<Rightarrow>
          if ty = TypeA then
            (case pAResource P p1 of
               None \<Rightarrow> Some c
             | Some (r, p2) \<Rightarrow> observe_loop P name p2 (cache_put c (AddrFrom4 r) name))
          else if ty = TypeAAAA then
            (case pAAAAResource P p1 of
               None \<Rightarrow> Some c
             | Some (r, p2) \<Rightarrow> observe_loop P name p2 (cache_put c (AddrFrom16 r) name))
          else
            (case pSkipAnswer P p1 of
               None \<Rightarrow> Some c
             | Some p2 \<Rightarrow> observe_loop P name p2 c))"

declare observe_loop.simps [code]

text \<open>The outer option is the receiver, the inner one termination of the loop.\<close>

definition cache_observe :: "'p dnsParser \<Rightarrow> dnsCache \<Rightarrow> bytes \<Rightarrow> dnsCache option" where
  "cache_observe P c msg =
     (case pStart P msg of
        None \<Rightarrow> Some c
      | Some (h, p) \<Rightarrow>
          if \<not> hResponse h then Some c
          else case pQuestion P p of
                 None \<Rightarrow> Some c
               | Some (q, p1) \<Rightarrow>
                   (case pSkipAllQuestions P p1 of
                      None \<Rightarrow> Some c
                    | Some p2 \<Rightarrow> observe_loop P (lowerName (qName q)) p2 c))"

subsection \<open>The specification: an association list in order of last use\<close>

definition touch :: "'k \<Rightarrow> 'v \<Rightarrow> ('k \<times> 'v) list \<Rightarrow> ('k \<times> 'v) list" where
  "touch k v xs = (k, v) # filter (\<lambda>e. fst e \<noteq> k) xs"

definition lru_put :: "nat \<Rightarrow> 'k \<Rightarrow> 'v \<Rightarrow> ('k \<times> 'v) list \<Rightarrow> ('k \<times> 'v) list" where
  "lru_put n k v xs = take n (touch k v xs)"

definition lru_get :: "'k \<Rightarrow> ('k \<times> 'v) list \<Rightarrow> ('k \<times> 'v) list" where
  "lru_get k xs = (case map_of xs k of None \<Rightarrow> xs | Some v \<Rightarrow> touch k v xs)"

definition entry :: "dnsCache \<Rightarrow> nat \<Rightarrow> addr \<times> string" where
  "entry c el = (e_ip (elems c el), e_name (elems c el))"

definition cache_abs :: "dnsCache \<Rightarrow> (addr \<times> string) list" where
  "cache_abs c = map (entry c) (lru c)"

text \<open>The list has no element twice, and \<open>items\<close> is the inverse of the entries' addresses.\<close>

definition cache_linked :: "dnsCache \<Rightarrow> bool" where
  "cache_linked c \<longleftrightarrow>
     distinct (lru c) \<and> (\<forall>el \<in> set (lru c). el < fresh c) \<and>
     (\<forall>a el. items c a = Some el \<longleftrightarrow> el \<in> set (lru c) \<and> e_ip (elems c el) = a)"

definition cache_inv :: "dnsCache \<Rightarrow> bool" where
  "cache_inv c \<longleftrightarrow> cache_linked c \<and> length (lru c) \<le> dnsCacheSize"

subsection \<open>Refinement\<close>

lemma cache_linkedD:
  assumes "cache_linked c"
  shows "distinct (lru c)" and "el \<in> set (lru c) \<Longrightarrow> el < fresh c"
    and "items c a = Some el \<longleftrightarrow> el \<in> set (lru c) \<and> e_ip (elems c el) = a"
  using assms by (auto simp: cache_linked_def)

lemma linked_inj:
  assumes "cache_linked c" and "x \<in> set (lru c)" and "y \<in> set (lru c)" and "e_ip (elems c x) = e_ip (elems c y)"
  shows "x = y"
  using cache_linkedD(3) [OF assms(1)] assms(2-4) by (metis option.inject)

lemma map_of_abs:
  assumes "cache_linked c"
  shows "map_of (cache_abs c) a = map_option (\<lambda>el. e_name (elems c el)) (items c a)"
proof (cases "items c a")
  case None
  then have "a \<notin> fst ` set (cache_abs c)"
    using cache_linkedD(3) [OF assms] by (force simp: cache_abs_def entry_def)
  with None show ?thesis by (simp add: map_of_eq_None_iff)
next
  case (Some el)
  then have el: "el \<in> set (lru c)" "e_ip (elems c el) = a" using cache_linkedD(3) [OF assms] by auto
  have "distinct (map fst (cache_abs c))"
    using linked_inj [OF assms] cache_linkedD(1) [OF assms]
    by (auto simp: cache_abs_def entry_def distinct_map inj_on_def)
  then have "map_of (cache_abs c) a = Some (e_name (elems c el))"
    using el by (intro map_of_is_SomeI) (auto simp: cache_abs_def entry_def)
  with Some show ?thesis by simp
qed

lemma filter_ne_entry:
  assumes "cache_linked c" and "el \<in> set (lru c)"
  shows "map (entry c) (filter (\<lambda>e. e \<noteq> el) (lru c)) =
           filter (\<lambda>e. fst e \<noteq> e_ip (elems c el)) (cache_abs c)"
proof -
  have "filter (\<lambda>e. e \<noteq> el) (lru c) = filter (\<lambda>e. e_ip (elems c e) \<noteq> e_ip (elems c el)) (lru c)"
    using linked_inj [OF assms(1) _ assms(2)] by (intro filter_cong) auto
  then show ?thesis by (simp add: cache_abs_def filter_map o_def entry_def)
qed

lemma linked_moveToFront:
  assumes "cache_linked c" and "el \<in> set (lru c)"
  shows "cache_linked (moveToFront el c)"
  using assms by (auto simp: cache_linked_def moveToFront_def)

lemma abs_moveToFront:
  assumes "cache_linked c" and "el \<in> set (lru c)"
  shows "cache_abs (moveToFront el c) =
           touch (e_ip (elems c el)) (e_name (elems c el)) (cache_abs c)"
  using filter_ne_entry [OF assms]
  by (simp add: moveToFront_def cache_abs_def touch_def entry_def [abs_def])

lemma length_moveToFront:
  assumes "cache_linked c" and "el \<in> set (lru c)"
  shows "length (lru (moveToFront el c)) = length (lru c)"
proof -
  have "filter (\<lambda>e. e \<noteq> el) (lru c) = remove1 el (lru c)"
    using cache_linkedD(1) [OF assms(1)] 
    by (auto simp: distinct_remove1_removeAll removeAll_filter_not_eq intro: filter_cong)
  moreover have "0 < length (lru c)" using assms(2) by (cases "lru c") auto
  ultimately show ?thesis using assms(2) by (simp add: moveToFront_def length_remove1)
qed

lemma linked_evict_step:
  assumes "cache_linked c" and "lru c \<noteq> []"
  shows "cache_linked (c\<lparr> lru := butlast (lru c),
           items := (items c)(e_ip (elems c (last (lru c))) := None) \<rparr>)"
proof -
  obtain xs x where l: "lru c = xs @ [x]" using assms(2) by (metis append_butlast_last_id)
  have "x \<notin> set xs" using cache_linkedD(1) [OF assms(1)] l by simp
  moreover have "e_ip (elems c y) \<noteq> e_ip (elems c x)" if "y \<in> set xs" for y
    using linked_inj [OF assms(1), of y x] l that \<open>x \<notin> set xs\<close> by auto
  ultimately show ?thesis using assms(1) l by (auto simp: cache_linked_def)
qed

lemma cache_evict_spec:
  assumes "cache_linked c"
  shows "cache_linked (cache_evict c) \<and> lru (cache_evict c) = take dnsCacheSize (lru c) \<and>
         elems (cache_evict c) = elems c \<and> fresh (cache_evict c) = fresh c"
  using assms
proof (induction c rule: cache_evict.induct)
  case (1 c)
  show ?case
  proof (cases "length (lru c) > dnsCacheSize")
    case True
    let ?c = "c\<lparr> lru := butlast (lru c), items := (items c)(e_ip (elems c (last (lru c))) := None) \<rparr>"
    have "lru c \<noteq> []" using True by auto
    from "1.IH" [OF True refl linked_evict_step [OF "1.prems" this]]
    have "cache_linked (cache_evict ?c) \<and> lru (cache_evict ?c) = take dnsCacheSize (butlast (lru c)) \<and>
        elems (cache_evict ?c) = elems c \<and> fresh (cache_evict ?c) = fresh c" by simp
    moreover have "cache_evict c = cache_evict ?c" using True by (simp add: cache_evict.simps [of c] Let_def)
    moreover have "take dnsCacheSize (butlast (lru c)) = take dnsCacheSize (lru c)"
      using True by (simp add: take_butlast)
    ultimately show ?thesis by simp
  next
    case False
    with 1 show ?thesis by (simp add: cache_evict.simps [of c])
  qed
qed

lemma cache_put_refines:
  assumes i: "cache_inv c"
  shows "cache_inv (cache_put c a n)"
    and "cache_abs (cache_put c a n) = lru_put dnsCacheSize (Unmap a) n (cache_abs c)"
proof (atomize (full), cases "items c (Unmap a)")
  case None
  let ?d = "c\<lparr> elems := (elems c)(fresh c := \<lparr> e_ip = Unmap a, e_name = n \<rparr>), lru := fresh c # lru c,
             items := (items c)(Unmap a \<mapsto> fresh c), fresh := Suc (fresh c) \<rparr>"
  have k: "cache_linked c" using i by (simp add: cache_inv_def)
  have new: "fresh c \<notin> set (lru c)" using cache_linkedD(2) [OF k] by blast
  have ip: "e_ip (elems c el) \<noteq> Unmap a" if "el \<in> set (lru c)" for el
    using cache_linkedD(3) [OF k] None that by (metis option.distinct(1))
  have "cache_linked ?d" using k new ip by (auto simp: cache_linked_def less_SucI)
  from cache_evict_spec [OF this] have e: "cache_linked (cache_evict ?d)"
    "lru (cache_evict ?d) = take dnsCacheSize (fresh c # lru c)" "elems (cache_evict ?d) = elems ?d" by auto
  have "map (entry ?d) (lru c) = cache_abs c" using new by (auto simp: cache_abs_def entry_def)
  moreover have "filter (\<lambda>e. fst e \<noteq> Unmap a) (cache_abs c) = cache_abs c"
    using ip by (intro filter_True) (auto simp: cache_abs_def entry_def)
  moreover have "entry (cache_evict ?d) = entry ?d" using e(3) by (simp add: entry_def [abs_def])
  ultimately have "cache_abs (cache_evict ?d) = lru_put dnsCacheSize (Unmap a) n (cache_abs c)"
    by (simp add: cache_abs_def [of "cache_evict ?d"] e(2) lru_put_def touch_def take_map [symmetric] entry_def)
  with e None show "cache_inv (cache_put c a n) \<and>
      cache_abs (cache_put c a n) = lru_put dnsCacheSize (Unmap a) n (cache_abs c)"
    by (simp add: cache_put_def cache_inv_def Let_def)
next
  case (Some el)
  have k: "cache_linked c" using i by (simp add: cache_inv_def)
  have el: "el \<in> set (lru c)" "e_ip (elems c el) = Unmap a" using cache_linkedD(3) [OF k] Some by auto
  let ?d = "c\<lparr> elems := (elems c)(el := (elems c el)\<lparr>e_name := n\<rparr>) \<rparr>"
  have d: "cache_linked ?d" using k by (auto simp: cache_linked_def)
  have "filter (\<lambda>e. fst e \<noteq> Unmap a) (map (entry ?d) xs) = filter (\<lambda>e. fst e \<noteq> Unmap a) (map (entry c) xs)"
    for xs using el(2) by (induction xs) (auto simp: entry_def)
  then have t: "touch (Unmap a) n (cache_abs ?d) = touch (Unmap a) n (cache_abs c)"
    by (simp add: touch_def cache_abs_def)
  have m: "cache_abs (moveToFront el ?d) = touch (Unmap a) n (cache_abs c)"
    using abs_moveToFront [OF d] el t by simp
  have len: "length (lru (moveToFront el ?d)) \<le> dnsCacheSize"
    using length_moveToFront [OF d] el i by (simp add: cache_inv_def)
  then have "length (cache_abs (moveToFront el ?d)) \<le> dnsCacheSize" by (simp add: cache_abs_def)
  then have "length (touch (Unmap a) n (cache_abs c)) \<le> dnsCacheSize" unfolding m .
  with m len linked_moveToFront [OF d] el Some
  show "cache_inv (cache_put c a n) \<and>
      cache_abs (cache_put c a n) = lru_put dnsCacheSize (Unmap a) n (cache_abs c)"
    by (simp add: cache_put_def cache_inv_def lru_put_def)
qed

lemma cache_lookup_refines:
  assumes i: "cache_inv c" and "ParseAddr ip = Some a"
  obtains c' where "cache_lookup (Some c) ip =
      ((case map_of (cache_abs c) (Unmap a) of None \<Rightarrow> [] | Some n \<Rightarrow> n), Some c')"
    "cache_inv c'" "cache_abs c' = lru_get (Unmap a) (cache_abs c)"
proof (cases "items c (Unmap a)")
  case None
  with assms that [of c] show thesis
    by (simp add: cache_lookup_def lru_get_def map_of_abs cache_inv_def)
next
  case (Some el)
  have k: "cache_linked c" using i by (simp add: cache_inv_def)
  have el: "el \<in> set (lru c)" "e_ip (elems c el) = Unmap a" using cache_linkedD(3) [OF k] Some by auto
  show thesis
    using that [of "moveToFront el c"] Some assms linked_moveToFront [OF k el(1)] length_moveToFront [OF k el(1)]
      abs_moveToFront [OF k el(1)] el(2)
    by (simp add: cache_lookup_def lru_get_def map_of_abs [OF k] cache_inv_def)
qed

lemma cache_inv_new: "cache_inv newDNSCache" and cache_abs_new: "cache_abs newDNSCache = []"
  by (auto simp: cache_inv_def cache_linked_def newDNSCache_def cache_abs_def)

text \<open>The entry of \<open>k\<close> is among the first \<open>m + 1\<close>.\<close>

definition within :: "'k \<Rightarrow> 'v \<Rightarrow> nat \<Rightarrow> ('k \<times> 'v) list \<Rightarrow> bool" where
  "within k v m xs \<longleftrightarrow> (\<exists>us vs. xs = us @ (k, v) # vs \<and> k \<notin> fst ` set us \<and> length us \<le> m)"

lemma map_of_append_None: "k \<notin> fst ` set us \<Longrightarrow> map_of (us @ (k, v) # vs) k = Some v"
  by (induction us) auto

lemma within_put: "0 < n \<Longrightarrow> within k v 0 (lru_put n k v xs)"
  by (cases n) (auto simp: within_def lru_put_def touch_def)

lemma within_put_other:
  assumes "within k v m xs" and "Suc m < n" and "k' \<noteq> k"
  shows "within k v (Suc m) (lru_put n k' v' xs)"
proof -
  obtain us vs where x: "xs = us @ (k, v) # vs" "k \<notin> fst ` set us" "length us \<le> m"
    using assms(1) by (auto simp: within_def)
  let ?f = "filter (\<lambda>e. fst e \<noteq> k')"
  have l: "length (?f us) \<le> m" using x(3) length_filter_le le_trans by blast
  have t: "touch k' v' xs = ((k', v') # ?f us) @ (k, v) # ?f vs" using x(1) assms(3) by (simp add: touch_def)
  have n: "n - length ((k', v') # ?f us) = Suc (n - length (?f us) - 2)" using l assms(2) by simp
  have "lru_put n k' v' xs = ((k', v') # ?f us) @ (k, v) # take (n - length (?f us) - 2) (?f vs)"
    unfolding lru_put_def t take_append n using l assms(2) by simp
  then show ?thesis unfolding within_def using x(2) l assms(3)
    by (intro exI [of _ "(k', v') # ?f us"] exI conjI) auto
qed

lemma puts_within:
  assumes "cache_inv c" and "within (Unmap a) n m (cache_abs c)" and "m + length ps < dnsCacheSize"
    and "list_all (\<lambda>(b, m). Unmap b \<noteq> Unmap a) ps"
  shows "cache_inv (foldl (\<lambda>c (b, m). cache_put c b m) c ps) \<and>
         within (Unmap a) n (m + length ps) (cache_abs (foldl (\<lambda>c (b, m). cache_put c b m) c ps))"
  using assms
proof (induction ps arbitrary: c m)
  case (Cons q ps)
  obtain b k where q: "q = (b, k)" by (cases q)
  have "within (Unmap a) n (Suc m) (cache_abs (cache_put c b k))"
    using Cons.prems q by (simp add: cache_put_refines(2) within_put_other)
  from Cons.IH [OF cache_put_refines(1) this] Cons.prems q show ?case by simp
qed simp

subsection \<open>Observing answers\<close>

lemma observe_loop_step:
  "observe_loop P name p c =
     (case answer_step P p of
        None \<Rightarrow> Some c
      | Some (as, q) \<Rightarrow> observe_loop P name q (foldl (\<lambda>c a. cache_put c a name) c as))"
  by (subst observe_loop.simps) (simp add: answer_step_def split: option.splits)

lemma observe_loop_fold:
  assumes "parser_progress P left" and "answer_loop P p [] = Some as"
  shows "observe_loop P name p c = Some (foldl (\<lambda>c a. cache_put c a name) c as)"
  using assms(2)
proof (induction "left p" arbitrary: p c as rule: less_induct)
  case less
  show ?case
  proof (cases "answer_step P p")
    case None
    with less.prems show ?thesis by (simp add: observe_loop_step [of P name p] answer_loop_step [of P p])
  next
    case (Some x)
    then obtain bs q where q: "answer_step P p = Some (bs, q)" by (cases x) auto
    obtain rs where rs: "\<And>out. answer_loop P q out = Some (out @ rs)"
      using answer_loop_total [OF assms(1), of q] by blast
    with q less.prems have "as = bs @ rs" by (simp add: answer_loop_step [of P p])
    with less.hyps [OF answer_step_progress(1) [OF assms(1) q], of rs] rs q show ?thesis
      by (simp add: observe_loop_step [of P name p])
  qed
qed

definition lru_puts :: "addr list \<Rightarrow> string \<Rightarrow> (addr \<times> string) list \<Rightarrow> (addr \<times> string) list" where
  "lru_puts as n xs = foldl (\<lambda>xs a. lru_put dnsCacheSize (Unmap a) n xs) xs as"

lemma puts_refine:
  "cache_inv c \<Longrightarrow> cache_inv (foldl (\<lambda>c a. cache_put c a n) c as) \<and>
     cache_abs (foldl (\<lambda>c a. cache_put c a n) c as) = lru_puts as n (cache_abs c)"
  by (induction as arbitrary: c) (auto simp: lru_puts_def cache_put_refines)

subsection \<open>Properties\<close>

text \<open>
  C17: observing a response does to the cache what putting each of its addresses, in order,
  under the name of the first question does; it always ends, keeps the cache well formed and
  at most 2048 entries long, and so refines a list of entries in order of last use.
\<close>

theorem cache_observe_refines:
  assumes "parser_progress P left" and "question_skips P" and "cache_inv c"
    and "pStart P msg = Some (h, p)" and "hResponse h" and "pQuestion P p = Some (q, p1)"
  shows "\<exists>as c'. dnsAnswerAddrs P msg = Some as \<and> cache_observe P c msg = Some c' \<and> cache_inv c' \<and>
           cache_abs c' = lru_puts as (lowerName (qName q)) (cache_abs c)"
proof -
  obtain as where as: "dnsAnswerAddrs P msg = Some as" using dnsAnswerAddrs_total [OF assms(1)] by blast
  have sk: "pSkipAllQuestions P p1 = pSkipAllQuestions P p"
    using assms(2,6) by (simp add: question_skips_def)
  have "cache_observe P c msg = Some (foldl (\<lambda>c a. cache_put c a (lowerName (qName q))) c as)"
  proof (cases "pSkipAllQuestions P p")
    case None
    with as assms(4-6) sk show ?thesis by (simp add: dnsAnswerAddrs_def cache_observe_def)
  next
    case (Some p2)
    with as assms(4,5) have "answer_loop P p2 [] = Some as" by (simp add: dnsAnswerAddrs_def)
    from observe_loop_fold [OF assms(1) this] Some assms(4-6) sk show ?thesis
      by (simp add: cache_observe_def)
  qed
  with as puts_refine [OF assms(3)] show ?thesis by blast
qed

theorem cache_observe_refines_witness:
  "\<exists>as c'. dnsAnswerAddrs demoParser [1, 1, 97, 1, 10, 0, 0, 1] = Some as \<and>
     cache_observe demoParser newDNSCache [1, 1, 97, 1, 10, 0, 0, 1] = Some c' \<and>
     cache_abs c' = lru_puts as ''a'' []"
proof -
  let ?m = "[1, 1, 97, 1, 10, 0, 0, 1] :: bytes"
  obtain h p q p1 where s: "pStart demoParser ?m = Some (h, p)" "hResponse h"
    "pQuestion demoParser p = Some (q, p1)" "lowerName (qName q) = ''a''"
    by (auto simp: demoParser_def string_of_bytes_def char_of_def lowerName_def ToLower_def
        lower_char_def TrimSuffix_def HasSuffix_def)
  show ?thesis
    using cache_observe_refines [OF demoParser_ok cache_inv_new s(1-3)] s(4) cache_abs_new by auto
qed

text \<open>
  a name put for an address is what a lookup of that address returns as long as fewer
  than 2048 other addresses were put in between, whatever they are; the lookup then makes it
  the most recently used entry.
\<close>

theorem cache_lookup_retained:
  assumes "cache_inv c" and "ParseAddr ip = Some a" and "length ps < dnsCacheSize"
    and "list_all (\<lambda>(b, m). Unmap b \<noteq> Unmap a) ps"
  shows "\<exists>c'. cache_lookup (Some (foldl (\<lambda>c (b, m). cache_put c b m) (cache_put c a n) ps)) ip = (n, Some c') \<and>
           cache_inv c' \<and> hd (cache_abs c') = (Unmap a, n)"
proof -
  let ?c = "foldl (\<lambda>c (b, m). cache_put c b m) (cache_put c a n) ps"
  have "within (Unmap a) n 0 (cache_abs (cache_put c a n))"
    by (simp add: cache_put_refines(2) [OF assms(1)] within_put dnsCacheSize_def)
  from puts_within [OF cache_put_refines(1) [OF assms(1)] this] assms(3,4)
  have w: "cache_inv ?c" "within (Unmap a) n (length ps) (cache_abs ?c)" by simp_all
  then have m: "map_of (cache_abs ?c) (Unmap a) = Some n" 
    unfolding within_def using map_of_append_None by metis
  obtain c' where "cache_lookup (Some ?c) ip =
      ((case map_of (cache_abs ?c) (Unmap a) of None \<Rightarrow> [] | Some n \<Rightarrow> n), Some c')"
    "cache_inv c'" "cache_abs c' = lru_get (Unmap a) (cache_abs ?c)"
    using cache_lookup_refines [OF w(1) assms(2)] .
  with m show ?thesis by (simp add: lru_get_def touch_def)
qed

theorem cache_lookup_retained_witness:
  "\<exists>c'. cache_lookup (Some (cache_put (cache_put newDNSCache (Addr4 0x0A000001) ''db'') (Addr4 5) ''web''))
     ''10.0.0.1'' = (''db'', Some c')"
proof -
  have "ParseAddr ''10.0.0.1'' = Some (Addr4 0x0A000001)" by code_simp
  from cache_lookup_retained [OF cache_inv_new this, of "[(Addr4 5, ''web'')]" "''db''"] show ?thesis
    by (auto simp: dnsCacheSize_def)
qed

end
