(* ===== verification/GoIO.thy ===== *)
theory GoIO
  imports Prelude
begin

text \<open>
  Reading a fixed number of elements from a stream that arrives in pieces: \<open>readFull\<close> of
  \<open>vpntunnel/dialer.go\<close>, which is \<open>io.ReadFull\<close> of the standard library. A stream is what it
  will deliver before it ends; \<open>rd\<close> says how much one read returns.
\<close>

definition readPiece :: "('a list \<Rightarrow> nat) \<Rightarrow> nat \<Rightarrow> 'a list \<Rightarrow> nat" where
  "readPiece rd n s = max 1 (min (rd s) (min n (length s)))"

function readFull :: "('a list \<Rightarrow> nat) \<Rightarrow> nat \<Rightarrow> 'a list \<Rightarrow> ('a list \<times> 'a list) option" where
  "readFull rd n s =
     (if n = 0 then Some ([], s)
      else if s = [] then None
      else let k = readPiece rd n s
           in case readFull rd (n - k) (drop k s) of
                None \<Rightarrow> None
              | Some (x, rest) \<Rightarrow> Some (take k s @ x, rest))"
  by pat_completeness auto
termination
  by (relation "measure (\<lambda>(rd, n, s). length s)") (auto simp: readPiece_def)

declare readFull.simps [simp del]

text \<open>However the stream is cut, a full read takes exactly its first \<open>n\<close> elements.\<close>

lemma readFull_exact: "readFull rd n s = (if n \<le> length s then Some (take n s, drop n s) else None)"
proof (induction rd n s rule: readFull.induct)
  case (1 rd n s)
  show ?case
  proof (cases "n = 0 \<or> s = []")
    case True
    then show ?thesis by (auto simp: readFull.simps [of rd n s])
  next
    case False
    define k where "k = readPiece rd n s"
    have k: "k \<le> n" "k \<le> length s" using False by (auto simp: k_def readPiece_def Suc_le_eq)
    have IH: "readFull rd (n - k) (drop k s) =
        (if n - k \<le> length s - k then Some (take (n - k) (drop k s), drop (n - k) (drop k s)) else None)"
      using 1 [OF _ _ k_def] False by simp
    have "take k s @ take (n - k) (drop k s) = take n s" using k(1) by (metis le_add_diff_inverse take_add)
    moreover have "n - k \<le> length s - k \<longleftrightarrow> n \<le> length s" using k by linarith
    ultimately show ?thesis
      using False k IH by (simp add: readFull.simps [of rd n s] k_def [symmetric])
  qed
qed

end
