(* ===== verification/UDPForward.thy ===== *)
theory UDPForward
  imports DNSCache GoNet GoIO "HOL-Library.AList"
begin

text \<open>
  \<open>vpntunnel/udphandler.go\<close>: admission, eviction and clean-up of UDP flows, the two copy
  directions of a flow, DNS over TCP, and the counters of \<open>stats.go\<close>. The flow table is an
  association list with distinct keys; a tracker has an identity, since goroutines hold
  pointers to it. Times are integers in nanoseconds. The map's order, which Go leaves open,
  decides only between trackers last used at the same instant.
\<close>

subsection \<open>Definitions: counters\<close>

record tunnelStats =
  st_bytesIn :: int
  st_bytesOut :: int
  st_active :: int
  st_total :: int
  st_activeTCP :: int
  st_activeUDP :: int
  st_tcpDrops :: int
  st_udpDrops :: int
  st_udpRejects :: int

definition newStats :: tunnelStats where
  "newStats = \<lparr> st_bytesIn = 0, st_bytesOut = 0, st_active = 0, st_total = 0, st_activeTCP = 0, st_activeUDP = 0,
     st_tcpDrops = 0, st_udpDrops = 0, st_udpRejects = 0 \<rparr>"

definition addBytesIn :: "nat \<Rightarrow> tunnelStats \<Rightarrow> tunnelStats" where
  "addBytesIn n s = s\<lparr>st_bytesIn := st_bytesIn s + int n\<rparr>"

definition addBytesOut :: "nat \<Rightarrow> tunnelStats \<Rightarrow> tunnelStats" where
  "addBytesOut n s = s\<lparr>st_bytesOut := st_bytesOut s + int n\<rparr>"

definition connOpenedTCP :: "tunnelStats \<Rightarrow> tunnelStats" where
  "connOpenedTCP s = s\<lparr>st_active := st_active s + 1, st_activeTCP := st_activeTCP s + 1, st_total := st_total s + 1\<rparr>"

definition connClosedTCP :: "tunnelStats \<Rightarrow> tunnelStats" where
  "connClosedTCP s = s\<lparr>st_active := st_active s - 1, st_activeTCP := st_activeTCP s - 1\<rparr>"

definition connOpenedUDP :: "tunnelStats \<Rightarrow> tunnelStats" where
  "connOpenedUDP s = s\<lparr>st_active := st_active s + 1, st_activeUDP := st_activeUDP s + 1, st_total := st_total s + 1\<rparr>"

definition connClosedUDP :: "tunnelStats \<Rightarrow> tunnelStats" where
  "connClosedUDP s = s\<lparr>st_active := st_active s - 1, st_activeUDP := st_activeUDP s - 1\<rparr>"

definition tcpCapacityDrop :: "tunnelStats \<Rightarrow> tunnelStats" where
  "tcpCapacityDrop s = s\<lparr>st_tcpDrops := st_tcpDrops s + 1\<rparr>"

definition udpCapacityDrop :: "tunnelStats \<Rightarrow> tunnelStats" where
  "udpCapacityDrop s = s\<lparr>st_udpDrops := st_udpDrops s + 1\<rparr>"

definition udpRejected :: "tunnelStats \<Rightarrow> tunnelStats" where
  "udpRejected s = s\<lparr>st_udpRejects := st_udpRejects s + 1\<rparr>"

subsection \<open>Definitions: the forwarder\<close>

definition second :: int where "second = 1000000000"
definition udpIdleTimeout :: int where "udpIdleTimeout = 60 * second"
definition udpIdleTimeoutQUIC :: int where "udpIdleTimeoutQUIC = 180 * second"
definition udpAdmissionEvictAge :: int where "udpAdmissionEvictAge = 5 * second"
definition udpBufferSize :: nat where "udpBufferSize = 16 * 1024"
definition maxActiveUDPFlows :: nat where "maxActiveUDPFlows = 512"
definition ipv4Overhead :: int where "ipv4Overhead = 28"

record udpConnTracker =
  ut_id :: nat
  ut_remote :: bool
  ut_lastUse :: int
  ut_idle :: int

record udpForwarder =
  uf_dialer :: bool
  uf_tcpDial :: bool
  uf_blockQUIC :: bool
  uf_maxPayload :: int
  uf_dnsViaTCP :: bool
  uf_conns :: "(string \<times> udpConnTracker) list"
  uf_stats :: tunnelStats
  uf_fresh :: nat

definition newUDPForwarder :: "bool \<Rightarrow> bool \<Rightarrow> tunnelStats \<Rightarrow> bool \<Rightarrow> int \<Rightarrow> int \<Rightarrow> udpForwarder" where
  "newUDPForwarder dialer tcpDial stats blockQUIC tunMTU datagramBudget =
     (let maxPayload = tunMTU - ipv4Overhead
      in \<lparr> uf_dialer = dialer, uf_tcpDial = tcpDial, uf_blockQUIC = blockQUIC,
           uf_maxPayload = (if datagramBudget > 0 \<and> datagramBudget < maxPayload then datagramBudget else maxPayload),
           uf_dnsViaTCP = False, uf_conns = [], uf_stats = stats, uf_fresh = 0 \<rparr>)"

definition udp_isDNS :: "string \<Rightarrow> bool" where
  "udp_isDNS a = (case SplitHostPort a of Some (h, port) \<Rightarrow> port = ''53'' | None \<Rightarrow> False)"

definition allowFlow :: "bool \<Rightarrow> nat \<Rightarrow> udpForwarder \<Rightarrow> bool" where
  "allowFlow captureBlocking dport f =
     (if \<not> uf_dialer f then dport = 53
      else \<not> ((uf_blockQUIC f \<or> captureBlocking) \<and> dport = 443))"

text \<open>Dropping the entries a predicate picks: their remotes are closed, their contexts cancelled.\<close>

datatype udpEvent = CloseRemote nat | CancelFlow nat

definition dropTracker :: "udpConnTracker \<Rightarrow> udpEvent list" where
  "dropTracker t = (if ut_remote t then [CloseRemote (ut_id t)] else []) @ [CancelFlow (ut_id t)]"

definition closePort :: "nat \<Rightarrow> udpForwarder \<Rightarrow> udpForwarder \<times> udpEvent list" where
  "closePort dport f =
     (let suffix = '':'' @ Itoa dport;
          hit = filter (\<lambda>(key, t). HasSuffix key suffix) (uf_conns f)
      in (f\<lparr>uf_conns := filter (\<lambda>(key, t). \<not> HasSuffix key suffix) (uf_conns f)\<rparr>,
          concat (map (\<lambda>(key, t). dropTracker t) hit)))"

fun evict_scan :: "int \<Rightarrow> int \<Rightarrow> (string \<times> udpConnTracker) option \<Rightarrow> int \<Rightarrow> (string \<times> udpConnTracker) list \<Rightarrow> (string \<times> udpConnTracker) option" where
  "evict_scan now minIdle victim oldest [] = victim"
| "evict_scan now minIdle victim oldest ((key, t) # rest) =
     (if now - ut_lastUse t < minIdle then evict_scan now minIdle victim oldest rest
      else if victim = None \<or> ut_lastUse t < oldest then evict_scan now minIdle (Some (key, t)) (ut_lastUse t) rest
      else evict_scan now minIdle victim oldest rest)"

definition evictOldestIdle :: "int \<Rightarrow> int \<Rightarrow> udpForwarder \<Rightarrow> udpForwarder \<times> udpEvent list" where
  "evictOldestIdle now minIdle f =
     (case evict_scan now minIdle None now (uf_conns f) of
        None \<Rightarrow> (f, [])
      | Some (key, t) \<Rightarrow> (f\<lparr>uf_conns := AList.delete key (uf_conns f)\<rparr>, dropTracker t))"

definition udp_cleanup :: "int \<Rightarrow> udpForwarder \<Rightarrow> udpForwarder \<times> udpEvent list" where
  "udp_cleanup now f =
     (f\<lparr>uf_conns := filter (\<lambda>(key, t). \<not> ut_idle t < now - ut_lastUse t) (uf_conns f)\<rparr>,
      concat (map (\<lambda>(key, t). dropTracker t) (filter (\<lambda>(key, t). ut_idle t < now - ut_lastUse t) (uf_conns f))))"

datatype udpOutcome = NoEndpoint | Existing | Full | Opened nat

text \<open>\<open>handleUDP\<close> up to the start of the flow's goroutine; \<open>ep\<close> says if the endpoint was created.\<close>

definition handleUDP :: "bool \<Rightarrow> int \<Rightarrow> string \<Rightarrow> nat \<Rightarrow> udpForwarder \<Rightarrow> udpForwarder \<times> udpEvent list \<times> udpOutcome" where
  "handleUDP ep now key dport f =
     (if \<not> ep then (f, [], NoEndpoint)
      else case map_of (uf_conns f) key of
        Some t \<Rightarrow> (f\<lparr>uf_conns := AList.update key (t\<lparr>ut_lastUse := now\<rparr>) (uf_conns f)\<rparr>, [], Existing)
      | None \<Rightarrow>
          let (f1, ev) = (if maxActiveUDPFlows \<le> length (uf_conns f) then evictOldestIdle now udpAdmissionEvictAge f else (f, []))
          in if maxActiveUDPFlows \<le> length (uf_conns f1) then (f1\<lparr>uf_stats := udpCapacityDrop (uf_stats f1)\<rparr>, ev, Full)
             else
               let t = \<lparr> ut_id = uf_fresh f1, ut_remote = False, ut_lastUse = now,
                         ut_idle = (if dport = 443 then udpIdleTimeoutQUIC else udpIdleTimeout) \<rparr>
               in (f1\<lparr>uf_conns := uf_conns f1 @ [(key, t)], uf_stats := connOpenedUDP (uf_stats f1), uf_fresh := uf_fresh f1 + 1\<rparr>,
                   ev, Opened (uf_fresh f1)))"

definition flowKey :: "string \<Rightarrow> string \<Rightarrow> string" where
  "flowKey srcAddr dstAddr = srcAddr @ ''->'' @ dstAddr"

text \<open>The goroutine's end: it deletes its key and closes what it opened.\<close>

definition udpFlowEnd :: "string \<Rightarrow> udpForwarder \<Rightarrow> udpForwarder" where
  "udpFlowEnd key f = f\<lparr>uf_conns := AList.delete key (uf_conns f), uf_stats := connClosedUDP (uf_stats f)\<rparr>"

text \<open>The tracker's remote is set once it is dialed, and its last use with each datagram.\<close>

definition updTracker :: "nat \<Rightarrow> (udpConnTracker \<Rightarrow> udpConnTracker) \<Rightarrow> udpForwarder \<Rightarrow> udpForwarder" where
  "updTracker i g f = f\<lparr>uf_conns := map (\<lambda>(k, t). (k, if ut_id t = i then g t else t)) (uf_conns f)\<rparr>"

datatype udpMode = DNSOverTCP | NoForward | NativeUDP

definition udpMode :: "udpForwarder \<Rightarrow> string \<Rightarrow> udpMode" where
  "udpMode f dstAddr =
     (if \<not> uf_dialer f \<or> (uf_dnsViaTCP f \<and> udp_isDNS dstAddr)
      then (if udp_isDNS dstAddr then DNSOverTCP else NoForward)
      else NativeUDP)"

text \<open>One datagram in each direction: what is answered, sent on or delivered.\<close>

datatype udpAction = Nothing | Answer bytes | Send bytes

definition interceptQuery :: "'p dnsParser \<Rightarrow> 'b dnsBuilder \<Rightarrow> bool \<Rightarrow> bytes \<Rightarrow> bytes option" where
  "interceptQuery P B blocking query = (if \<not> blocking then None else synthesizeHTTPSNoData P B query)"

definition udpUp :: "'p dnsParser \<Rightarrow> 'b dnsBuilder \<Rightarrow> bool \<Rightarrow> bool \<Rightarrow> bytes \<Rightarrow> udpAction" where
  "udpUp P B blocking dns d =
     (let data = take udpBufferSize d
      in if data = [] then Nothing
         else case (if dns then interceptQuery P B blocking data else None) of
                Some answer \<Rightarrow> Answer answer
              | None \<Rightarrow> Send data)"

text \<open>The cache of the current environment, if there is one; \<open>None\<close> is a parser that never ends.\<close>

definition observeDNSResponse :: "'p dnsParser \<Rightarrow> dnsCache option \<Rightarrow> bytes \<Rightarrow> dnsCache option option" where
  "observeDNSResponse P env msg =
     (case env of None \<Rightarrow> Some None | Some c \<Rightarrow> map_option Some (cache_observe P c msg))"

definition udpDown :: "'p dnsParser \<Rightarrow> udpForwarder \<Rightarrow> bool \<Rightarrow> dnsCache option \<Rightarrow> bytes \<Rightarrow> (bytes option \<times> dnsCache option) option" where
  "udpDown P f dns env d =
     (if d = [] \<or> uf_maxPayload f < int (length d) then Some (None, env)
      else map_option (\<lambda>env1. (Some d, env1)) (if dns then observeDNSResponse P env d else Some env))"

text \<open>A TCP connection to the resolver: what it answers to the bytes written, if it is dialed.\<close>

definition dnsExchangeTCP :: "(bytes \<Rightarrow> bytes option) \<Rightarrow> (bytes \<Rightarrow> nat) \<Rightarrow> bytes \<Rightarrow> bytes option" where
  "dnsExchangeTCP server rd query =
     (let tcpQuery = [of_nat (length query div 256), of_nat (length query mod 256)] @ query
      in case server tcpQuery of
           None \<Rightarrow> None
         | Some conn \<Rightarrow>
             (case readFull rd 2 conn of
                None \<Rightarrow> None
              | Some (lenBuf, rest) \<Rightarrow>
                  let respLen = unat (lenBuf ! 0) * 256 + unat (lenBuf ! 1)
                  in if udpBufferSize < respLen then None
                     else map_option fst (readFull rd respLen rest)))"

definition handleDNSOverTCP ::
  "'p dnsParser \<Rightarrow> 'b dnsBuilder \<Rightarrow> bool \<Rightarrow> udpForwarder \<Rightarrow> (bytes \<Rightarrow> bytes option) \<Rightarrow> (bytes \<Rightarrow> nat) \<Rightarrow> dnsCache option \<Rightarrow> bytes \<Rightarrow>
     (bytes option \<times> dnsCache option) option" where
  "handleDNSOverTCP P B blocking f server rd env datagram =
     (if \<not> uf_tcpDial f then Some (None, env)
      else
        let query = take udpBufferSize datagram
        in if length query < 12 then Some (None, env)
           else case interceptQuery P B blocking query of
                  Some answer \<Rightarrow> Some (Some answer, env)
                | None \<Rightarrow>
                    (case dnsExchangeTCP server rd query of
                       None \<Rightarrow> Some (None, env)
                     | Some resp \<Rightarrow> map_option (\<lambda>env1. (Some resp, env1)) (observeDNSResponse P env resp)))"

subsection \<open>Definitions: flows over time\<close>

text \<open>
  The forwarder with its flow goroutines. The network stack refuses a second endpoint for the
  addresses of a live flow. The events of the forwarder cancel flows; a flow may end at any time.
\<close>

record udpSys =
  us_fwd :: udpForwarder
  us_live :: "(string \<times> nat) list"
  us_cancelled :: "nat list"

definition cancelledBy :: "udpEvent list \<Rightarrow> nat list" where
  "cancelledBy ev = List.map_filter (\<lambda>e. case e of CancelFlow i \<Rightarrow> Some i | CloseRemote i \<Rightarrow> None) ev"

definition udpAdmit :: "int \<Rightarrow> string \<Rightarrow> nat \<Rightarrow> udpSys \<Rightarrow> udpSys" where
  "udpAdmit now key port s =
     (case handleUDP (key \<notin> fst ` set (us_live s)) now key port (us_fwd s) of
        (f, ev, Opened i) \<Rightarrow> s\<lparr>us_fwd := f, us_live := (key, i) # us_live s, us_cancelled := cancelledBy ev @ us_cancelled s\<rparr>
      | (f, ev, _) \<Rightarrow> s\<lparr>us_fwd := f, us_cancelled := cancelledBy ev @ us_cancelled s\<rparr>)"

definition udpSweep :: "udpForwarder \<times> udpEvent list \<Rightarrow> udpSys \<Rightarrow> udpSys" where
  "udpSweep r s = s\<lparr>us_fwd := fst r, us_cancelled := cancelledBy (snd r) @ us_cancelled s\<rparr>"

inductive udp_step :: "udpSys \<Rightarrow> udpSys \<Rightarrow> bool" where
  admit: "udp_step s (udpAdmit now key port s)"
| dialed: "udp_step s (s\<lparr>us_fwd := updTracker i (\<lambda>t. t\<lparr>ut_remote := True\<rparr>) (us_fwd s)\<rparr>)"
| used: "udp_step s (s\<lparr>us_fwd := updTracker i (\<lambda>t. t\<lparr>ut_lastUse := now\<rparr>) (us_fwd s)\<rparr>)"
| port_closed: "udp_step s (udpSweep (closePort p (us_fwd s)) s)"
| cleaned: "udp_step s (udpSweep (udp_cleanup now (us_fwd s)) s)"
| flow_end: "(key, i) \<in> set (us_live s) \<Longrightarrow>
    udp_step s (s\<lparr>us_fwd := udpFlowEnd key (us_fwd s), us_live := filter (\<lambda>x. x \<noteq> (key, i)) (us_live s)\<rparr>)"

subsection \<open>Eviction\<close>

text \<open>The scan returns the entry idle for long enough that was used least recently.\<close>

lemma evict_scan_spec:
  assumes "\<forall>v. victim = Some v \<longrightarrow> oldest = ut_lastUse (snd v) \<and> minIdle \<le> now - ut_lastUse (snd v)"
    and "evict_scan now minIdle victim oldest xs = Some (k, t)"
  shows "(victim = Some (k, t) \<or> (k, t) \<in> set xs) \<and> minIdle \<le> now - ut_lastUse t \<and>
    (\<forall>(k', t') \<in> set xs. minIdle \<le> now - ut_lastUse t' \<longrightarrow> ut_lastUse t \<le> ut_lastUse t') \<and>
    (victim \<noteq> None \<longrightarrow> ut_lastUse t \<le> oldest)"
  using assms
proof (induction now minIdle victim oldest xs rule: evict_scan.induct)
  case (2 now minIdle victim oldest key u rest)
  consider (young) "now - ut_lastUse u < minIdle"
    | (pick) "\<not> now - ut_lastUse u < minIdle" "victim = None \<or> ut_lastUse u < oldest"
    | (keep) "\<not> now - ut_lastUse u < minIdle" "\<not> (victim = None \<or> ut_lastUse u < oldest)" by blast
  then show ?case
  proof cases
    case young
    then have e: "evict_scan now minIdle victim oldest rest = Some (k, t)" using 2(5) by simp
    from 2(1) [OF young 2(4) e] young show ?thesis by auto
  next
    case pick
    then have e: "evict_scan now minIdle (Some (key, u)) (ut_lastUse u) rest = Some (k, t)" using 2(5) by auto
    from 2(2) [OF pick _ e] pick(1) have "(Some (key, u) = Some (k, t) \<or> (k, t) \<in> set rest) \<and> minIdle \<le> now - ut_lastUse t \<and>
      (\<forall>(k', t') \<in> set rest. minIdle \<le> now - ut_lastUse t' \<longrightarrow> ut_lastUse t \<le> ut_lastUse t') \<and> ut_lastUse t \<le> ut_lastUse u"
      by auto
    with pick show ?thesis by auto
  next
    case keep
    then have e: "evict_scan now minIdle victim oldest rest = Some (k, t)" using 2(5) by auto
    from 2(3) [OF keep 2(4) e] keep show ?thesis by auto
  qed
qed auto

lemma evict_scan_None:
  "evict_scan now minIdle victim oldest xs = None \<Longrightarrow> victim = None \<and> (\<forall>(k, t) \<in> set xs. now - ut_lastUse t < minIdle)"
  by (induction now minIdle victim oldest xs rule: evict_scan.induct) (auto split: if_splits)

lemma evictOldestIdle_cases:
  obtains (none) "evictOldestIdle now m f = (f, [])" "\<forall>(k, t) \<in> set (uf_conns f). now - ut_lastUse t < m"
  | (evicts) k t where "evictOldestIdle now m f = (f\<lparr>uf_conns := AList.delete k (uf_conns f)\<rparr>, dropTracker t)"
      "(k, t) \<in> set (uf_conns f)" "m \<le> now - ut_lastUse t"
      "\<forall>(k', t') \<in> set (uf_conns f). m \<le> now - ut_lastUse t' \<longrightarrow> ut_lastUse t \<le> ut_lastUse t'"
proof (cases "evict_scan now m None now (uf_conns f)")
  case None
  then show ?thesis using none evict_scan_None [OF None] by (auto simp: evictOldestIdle_def)
next
  case (Some kt)
  obtain k t where kt: "kt = (k, t)" by fastforce
  then show ?thesis using evicts [of k t] evict_scan_spec [of None, OF _ Some [unfolded kt]] Some
    by (simp add: evictOldestIdle_def)
qed

subsection \<open>Flows\<close>

definition ids :: "(string \<times> udpConnTracker) list \<Rightarrow> (string \<times> nat) set" where
  "ids xs = (\<lambda>(k, t). (k, ut_id t)) ` set xs"

text \<open>
  Keys are unique in the table and among live flows, the table holds only live flows, every
  live flow is in the table or cancelled, and the counter counts the live flows.
\<close>

definition udp_ok :: "udpSys \<Rightarrow> bool" where
  "udp_ok s \<longleftrightarrow>
     distinct (map fst (uf_conns (us_fwd s))) \<and> length (uf_conns (us_fwd s)) \<le> maxActiveUDPFlows \<and>
     distinct (map fst (us_live s)) \<and>
     ids (uf_conns (us_fwd s)) \<subseteq> set (us_live s) \<and>
     (\<forall>(k, i) \<in> set (us_live s). i \<in> set (us_cancelled s) \<or> (k, i) \<in> ids (uf_conns (us_fwd s))) \<and>
     st_activeUDP (uf_stats (us_fwd s)) = int (length (us_live s))"

lemma cancelledBy_simps:
  "cancelledBy [] = []" "cancelledBy (a @ b) = cancelledBy a @ cancelledBy b" "cancelledBy (dropTracker t) = [ut_id t]"
  by (simp_all add: cancelledBy_def dropTracker_def List.map_filter_def)

lemma cancelledBy_concat: "set (cancelledBy (concat (map (\<lambda>(k, t). dropTracker t) xs))) = ut_id ` snd ` set xs"
  by (induction xs) (auto simp: cancelledBy_simps)

lemma fst_ids: "fst ` ids xs = fst ` set xs"
  by (force simp: ids_def image_def)

text \<open>Removing entries and cancelling their flows keeps the invariant.\<close>

lemma udp_ok_drop:
  assumes ok: "udp_ok s" and c: "set c = ut_id ` snd ` {x \<in> set (uf_conns (us_fwd s)). \<not> P x}"
  shows "udp_ok (s\<lparr>us_fwd := (us_fwd s)\<lparr>uf_conns := filter P (uf_conns (us_fwd s))\<rparr>, us_cancelled := c @ us_cancelled s\<rparr>)"
proof -
  let ?C = "uf_conns (us_fwd s)"
  have len: "length (filter P ?C) \<le> maxActiveUDPFlows"
    using ok length_filter_le [of P ?C] unfolding udp_ok_def by linarith
  have "i \<in> set c \<union> set (us_cancelled s) \<or> (k, i) \<in> ids (filter P ?C)" if "(k, i) \<in> set (us_live s)" for k i
  proof (cases "(k, i) \<in> ids ?C")
    case True
    then obtain t where "(k, t) \<in> set ?C" "i = ut_id t" by (auto simp: ids_def)
    then show ?thesis using c by (cases "P (k, t)") (force simp: ids_def)+
  next
    case False
    then show ?thesis using ok that by (auto simp: udp_ok_def)
  qed
  then show ?thesis
    using ok len distinct_map_filter [of fst ?C P] unfolding udp_ok_def by (auto simp: ids_def)
qed

lemma ids_updTracker: "(\<And>t. ut_id (g t) = ut_id t) \<Longrightarrow> ids (uf_conns (updTracker i g f)) = ids (uf_conns f)"
  by (simp add: ids_def updTracker_def image_image split_def if_distrib [of ut_id] cong: if_cong)

lemma udp_ok_upd:
  assumes ok: "udp_ok s" and g: "\<And>t. ut_id (g t) = ut_id t"
  shows "udp_ok (s\<lparr>us_fwd := updTracker i g (us_fwd s)\<rparr>)"
proof -
  have "map fst (uf_conns (updTracker i g (us_fwd s))) = map fst (uf_conns (us_fwd s))"
    "uf_stats (updTracker i g (us_fwd s)) = uf_stats (us_fwd s)"
    "length (uf_conns (updTracker i g (us_fwd s))) = length (uf_conns (us_fwd s))"
    by (simp_all add: updTracker_def split_def)
  with ok show ?thesis unfolding udp_ok_def by (simp add: ids_updTracker [OF g] split_def)
qed

lemma delete_filter: "AList.delete k xs = filter (\<lambda>x. fst x \<noteq> k) xs"
  by (induction xs) auto

lemma evicted_ok:
  assumes ok: "udp_ok s" and e: "evictOldestIdle now m (us_fwd s) = (f1, ev)"
  shows "udp_ok (s\<lparr>us_fwd := f1, us_cancelled := cancelledBy ev @ us_cancelled s\<rparr>)"
proof (cases rule: evictOldestIdle_cases [of now m "us_fwd s"])
  case none
  then show ?thesis using ok e by (simp add: cancelledBy_simps)
next
  case (evicts k t)
  let ?C = "uf_conns (us_fwd s)"
  have d: "distinct (map fst ?C)" using ok by (simp add: udp_ok_def)
  have "{x \<in> set ?C. \<not> fst x \<noteq> k} = {(k, t)}"
    using evicts(2) eq_key_imp_eq_value [OF d] by force
  then have "set [ut_id t] = ut_id ` snd ` {x \<in> set ?C. \<not> fst x \<noteq> k}" by simp
  from udp_ok_drop [OF ok this] show ?thesis using evicts(1) e by (simp add: cancelledBy_simps delete_filter)
qed

lemma udpAdmit_ok:
  assumes ok: "udp_ok s"
  shows "udp_ok (udpAdmit now key port s)"
proof (cases "key \<in> fst ` set (us_live s)")
  case True
  then show ?thesis using ok by (simp add: udpAdmit_def handleUDP_def cancelledBy_simps)
next
  case False
  let ?f = "us_fwd s"
  have "ids (uf_conns ?f) \<subseteq> set (us_live s)" using ok by (simp add: udp_ok_def)
  then have keys: "fst ` set (uf_conns ?f) \<subseteq> fst ` set (us_live s)" using fst_ids by (metis image_mono)
  then have n: "map_of (uf_conns ?f) key = None" using False by (auto simp: map_of_eq_None_iff)
  obtain f1 ev where e: "(if maxActiveUDPFlows \<le> length (uf_conns ?f) then evictOldestIdle now udpAdmissionEvictAge ?f else (?f, [])) = (f1, ev)"
    by (meson surj_pair)
  define t where "t = s\<lparr>us_fwd := f1, us_cancelled := cancelledBy ev @ us_cancelled s\<rparr>"
  have okt: "udp_ok t"
    using evicted_ok [OF ok, of now udpAdmissionEvictAge f1 ev] e ok by (auto simp: t_def cancelledBy_simps split: if_splits)
  have tl: "us_live t = us_live s" "us_fwd t = f1" by (simp_all add: t_def)
  show ?thesis
  proof (cases "maxActiveUDPFlows \<le> length (uf_conns f1)")
    case True
    then have "udpAdmit now key port s = t\<lparr>us_fwd := f1\<lparr>uf_stats := udpCapacityDrop (uf_stats f1)\<rparr>\<rparr>"
      using False n e by (simp add: udpAdmit_def handleUDP_def t_def Let_def)
    then show ?thesis using okt tl by (simp add: udp_ok_def udpCapacityDrop_def)
  next
    case room: False
    define x where "x = \<lparr> ut_id = uf_fresh f1, ut_remote = False, ut_lastUse = now,
        ut_idle = (if port = 443 then udpIdleTimeoutQUIC else udpIdleTimeout) \<rparr>"
    have a: "udpAdmit now key port s = t\<lparr>us_fwd := f1\<lparr>uf_conns := uf_conns f1 @ [(key, x)], uf_stats := connOpenedUDP (uf_stats f1),
        uf_fresh := uf_fresh f1 + 1\<rparr>, us_live := (key, ut_id x) # us_live s\<rparr>"
      using False n e room by (simp add: udpAdmit_def handleUDP_def t_def Let_def x_def)
    have "ids (uf_conns f1) \<subseteq> set (us_live s)" using okt tl by (simp add: udp_ok_def)
    then have k: "key \<notin> fst ` set (uf_conns f1)" using False fst_ids by (metis image_mono subsetD)
    have i: "ids (uf_conns f1 @ [(key, x)]) = insert (key, ut_id x) (ids (uf_conns f1))" by (simp add: ids_def)
    show ?thesis
      using okt room False k unfolding a udp_ok_def by (auto simp: i tl connOpenedUDP_def)
  qed
qed

lemma length_filter_other: "distinct xs \<Longrightarrow> v \<in> set xs \<Longrightarrow> int (length (filter (\<lambda>x. x \<noteq> v) xs)) = int (length xs) - 1"
proof (induction xs)
  case (Cons x xs)
  have "x = v \<Longrightarrow> filter (\<lambda>y. y \<noteq> v) xs = xs" using Cons.prems by (auto simp: filter_id_conv)
  with Cons show ?case by auto
qed simp

lemma udpFlowEnd_ok:
  assumes ok: "udp_ok s" and l: "(key, i) \<in> set (us_live s)"
  shows "udp_ok (s\<lparr>us_fwd := udpFlowEnd key (us_fwd s), us_live := filter (\<lambda>x. x \<noteq> (key, i)) (us_live s)\<rparr>)"
proof -
  let ?C = "uf_conns (us_fwd s)" and ?L = "filter (\<lambda>x. x \<noteq> (key, i)) (us_live s)"
  have d: "distinct (map fst (us_live s))" using ok by (simp add: udp_ok_def)
  have other: "k \<noteq> key" if "(k, j) \<in> set ?L" for k j using eq_key_imp_eq_value [OF d l] that by auto
  have sub: "ids ?C \<subseteq> set (us_live s)" using ok by (simp add: udp_ok_def)
  have i: "ids (filter (\<lambda>x. fst x \<noteq> key) ?C) = {x \<in> ids ?C. fst x \<noteq> key}" by (auto simp: ids_def)
  have "ids (filter (\<lambda>x. fst x \<noteq> key) ?C) \<subseteq> set ?L" using sub i by auto
  moreover have "j \<in> set (us_cancelled s) \<or> (k, j) \<in> ids (filter (\<lambda>x. fst x \<noteq> key) ?C)" if "(k, j) \<in> set ?L" for k j
    using ok that other [OF that] unfolding udp_ok_def i by auto
  moreover have "length (filter (\<lambda>x. fst x \<noteq> key) ?C) \<le> maxActiveUDPFlows"
    using ok length_filter_le [of _ ?C] unfolding udp_ok_def by (meson le_trans)
  moreover have "int (length ?L) = int (length (us_live s)) - 1"
    using length_filter_other [of "us_live s"] d l by (simp add: distinct_map)
  ultimately show ?thesis
    using ok d unfolding udp_ok_def by (simp add: udpFlowEnd_def delete_filter connClosedUDP_def distinct_map_filter)
qed

lemma udp_step_ok: "udp_step s t \<Longrightarrow> udp_ok s \<Longrightarrow> udp_ok t"
proof (induction rule: udp_step.induct)
  case (port_closed s p)
  let ?P = "\<lambda>x :: string \<times> udpConnTracker. \<not> HasSuffix (fst x) ('':'' @ Itoa p)"
  have "set (cancelledBy (concat (map (\<lambda>(k, t). dropTracker t) (filter (\<lambda>x. \<not> ?P x) (uf_conns (us_fwd s)))))) =
      ut_id ` snd ` {x \<in> set (uf_conns (us_fwd s)). \<not> ?P x}" unfolding cancelledBy_concat by simp
  from udp_ok_drop [OF port_closed this] show ?case by (simp add: udpSweep_def closePort_def Let_def split_def)
next
  case (cleaned s now)
  let ?P = "\<lambda>x :: string \<times> udpConnTracker. \<not> ut_idle (snd x) < now - ut_lastUse (snd x)"
  have "set (cancelledBy (concat (map (\<lambda>(k, t). dropTracker t) (filter (\<lambda>x. \<not> ?P x) (uf_conns (us_fwd s)))))) =
      ut_id ` snd ` {x \<in> set (uf_conns (us_fwd s)). \<not> ?P x}" unfolding cancelledBy_concat by simp
  from udp_ok_drop [OF cleaned this] show ?case by (simp add: udpSweep_def udp_cleanup_def split_def)
qed (simp_all add: udpAdmit_ok udp_ok_upd udpFlowEnd_ok)

subsection \<open>DNS over TCP\<close>

text \<open>A message with its length in two bytes before it (RFC 1035).\<close>

definition dns_frame :: "bytes \<Rightarrow> bytes" where
  "dns_frame m = be_bytes 2 (length m) @ m"

lemma of_nat_mod_u8: "(of_nat (n mod 256) :: u8) = of_nat n"
proof -
  have "unat (of_nat (n mod 256) :: u8) = unat (of_nat n :: u8)" by (simp add: unat_of_nat)
  then show ?thesis by (simp only: word_unat_eq_iff)
qed

lemma be_bytes_2: "be_bytes 2 n = [of_nat (n div 256), of_nat (n mod 256)]"
  by (simp add: numeral_2_eq_2 of_nat_mod_u8)

lemma be_nat_2: "be_nat [a, b] = unat a * 256 + unat b"
  by (simp add: be_nat_def)

text \<open>The exchange on a connection whose pieces are put together.\<close>

lemma dnsExchangeTCP_eq:
  "dnsExchangeTCP server rd query =
     (case server (dns_frame query) of
        None \<Rightarrow> None
      | Some conn \<Rightarrow>
          let n = be_nat (take 2 conn)
          in if length conn < 2 \<or> udpBufferSize < n \<or> length conn < 2 + n then None else Some (take n (drop 2 conn)))"
proof (cases "server (dns_frame query)")
  case (Some conn)
  have n: "unat (take 2 conn ! 0) * 256 + unat (take 2 conn ! 1) = be_nat (take 2 conn)" if l: "2 \<le> length conn"
  proof -
    obtain a b rest where "conn = a # b # rest" using l by (cases conn; cases "tl conn") auto
    then show ?thesis by (simp add: be_nat_2)
  qed
  show ?thesis
    using Some n by (auto simp: dnsExchangeTCP_def dns_frame_def be_bytes_2 readFull_exact Let_def)
qed (simp add: dnsExchangeTCP_def dns_frame_def be_bytes_2)

interpretation udp_flows: kept_invariant udp_step
    "\<lparr> us_fwd = newUDPForwarder dialer tcpDial newStats blockQUIC mtu budget, us_live = [], us_cancelled = [] \<rparr>" udp_ok
  for dialer tcpDial blockQUIC mtu budget
  by unfold_locales (simp add: udp_ok_def newUDPForwarder_def newStats_def Let_def ids_def, rule udp_step_ok)

subsection \<open>Properties\<close>

text \<open>
  C19: no UDP flow escapes the table. However packets, closes, clean-ups and flow ends
  interleave, at most 512 flows are in the table, the counter of active flows counts
  exactly the running ones, and every running flow is in the table, where the clean-up
  finds it, or was told to stop.
\<close>

theorem udp_flows_tracked:
  assumes "udp_step\<^sup>*\<^sup>* \<lparr> us_fwd = newUDPForwarder dialer tcpDial newStats blockQUIC mtu budget, us_live = [], us_cancelled = [] \<rparr> s"
  shows "length (uf_conns (us_fwd s)) \<le> maxActiveUDPFlows \<and>
    st_activeUDP (uf_stats (us_fwd s)) = int (length (us_live s)) \<and>
    (\<forall>(key, i) \<in> set (us_live s). i \<in> set (us_cancelled s) \<or>
       (\<exists>t. map_of (uf_conns (us_fwd s)) key = Some t \<and> ut_id t = i))"
proof -
  have "udp_ok s" using assms by (rule udp_flows.always)
  then show ?thesis unfolding udp_ok_def by (fastforce simp: ids_def)
qed

theorem udp_flows_tracked_witness:
  "let s0 = \<lparr> us_fwd = newUDPForwarder True True newStats False 1500 0, us_live = [], us_cancelled = [] \<rparr>;
       s = udpSweep (closePort 443 (us_fwd (udpAdmit 5 ''10.0.0.2:5000->1.1.1.1:443'' 443 (udpAdmit 0 ''10.0.0.2:5000->8.8.8.8:53'' 53 s0))))
             (udpAdmit 5 ''10.0.0.2:5000->1.1.1.1:443'' 443 (udpAdmit 0 ''10.0.0.2:5000->8.8.8.8:53'' 53 s0))
   in udp_step\<^sup>*\<^sup>* s0 s \<and> length (us_live s) = 2 \<and> us_cancelled s = [1] \<and> st_activeUDP (uf_stats (us_fwd s)) = 2"
proof -
  let ?s0 = "\<lparr> us_fwd = newUDPForwarder True True newStats False 1500 0, us_live = [], us_cancelled = [] \<rparr>"
  let ?s1 = "udpAdmit 0 ''10.0.0.2:5000->8.8.8.8:53'' 53 ?s0"
  let ?s2 = "udpAdmit 5 ''10.0.0.2:5000->1.1.1.1:443'' 443 ?s1"
  let ?s3 = "udpSweep (closePort 443 (us_fwd ?s2)) ?s2"
  have r: "udp_step\<^sup>*\<^sup>* ?s0 ?s3"
    by (rule converse_rtranclp_into_rtranclp [where r = udp_step], rule admit, rule converse_rtranclp_into_rtranclp [where r = udp_step],
        rule admit, rule r_into_rtranclp [where r = udp_step], rule port_closed)
  have "length (us_live ?s3) = 2" "us_cancelled ?s3 = [1]" by code_simp+
  with udp_flows_tracked [OF r] r show ?thesis by (simp add: Let_def)
qed

text \<open>
  when the table is full, only the least recently used flow gives way, and only if it
  has been quiet for five seconds: the evicted flow is the oldest, it is cancelled, and
  with every flow in use nothing is evicted.
\<close>

theorem evictOldestIdle_exact:
  assumes "evictOldestIdle now udpAdmissionEvictAge f = (f', ev)" and "distinct (map fst (uf_conns f))"
  shows "(\<exists>k t. map_of (uf_conns f) k = Some t \<and> udpAdmissionEvictAge \<le> now - ut_lastUse t \<and>
       (\<forall>(k', t') \<in> set (uf_conns f). ut_lastUse t \<le> ut_lastUse t') \<and>
       map_of (uf_conns f') = (map_of (uf_conns f))(k := None) \<and> cancelledBy ev = [ut_id t]) \<or>
     (f' = f \<and> ev = [] \<and> (\<forall>(k, t) \<in> set (uf_conns f). now - ut_lastUse t < udpAdmissionEvictAge))"
proof (cases rule: evictOldestIdle_cases [of now udpAdmissionEvictAge f])
  case none
  then show ?thesis using assms(1) by simp
next
  case (evicts k t)
  have "ut_lastUse t \<le> ut_lastUse t'" if "(k', t') \<in> set (uf_conns f)" for k' t'
    using evicts(3,4) that by (cases "udpAdmissionEvictAge \<le> now - ut_lastUse t'") auto
  moreover have "map_of (uf_conns f) k = Some t" using evicts(2) assms(2) by simp
  moreover have "map_of (uf_conns f') = (map_of (uf_conns f))(k := None)" "cancelledBy ev = [ut_id t]"
    using evicts(1) assms(1) by (auto simp: delete_conv' cancelledBy_simps)
  ultimately show ?thesis using evicts(3) by blast
qed

definition demoTracker :: "nat \<Rightarrow> int \<Rightarrow> udpConnTracker" where
  "demoTracker i t = \<lparr> ut_id = i, ut_remote = True, ut_lastUse = t * second, ut_idle = udpIdleTimeout \<rparr>"

definition demoForwarder :: udpForwarder where
  "demoForwarder = (newUDPForwarder True True newStats False 1500 0)
     \<lparr>uf_conns := [(''a'', demoTracker 0 3), (''b'', demoTracker 1 1), (''c'', demoTracker 2 9)]\<rparr>"

theorem evictOldestIdle_exact_witness:
  "\<exists>f' ev. evictOldestIdle (10 * second) udpAdmissionEvictAge demoForwarder = (f', ev) \<and> distinct (map fst (uf_conns demoForwarder)) \<and>
     cancelledBy ev = [1] \<and> map_of (uf_conns f') ''b'' = None"
proof -
  obtain f' ev where e: "evictOldestIdle (10 * second) udpAdmissionEvictAge demoForwarder = (f', ev)" by fastforce
  have d: "distinct (map fst (uf_conns demoForwarder))" by (simp add: demoForwarder_def)
  have c: "cancelledBy (snd (evictOldestIdle (10 * second) udpAdmissionEvictAge demoForwarder)) = [1]" by code_simp
  then have ev: "cancelledBy ev = [1]" by (simp add: e)
  from evictOldestIdle_exact [OF e d] ev have "map_of (uf_conns f') ''b'' = None"
    by (auto simp: demoForwarder_def demoTracker_def cancelledBy_simps split: if_splits)
  with e d ev show ?thesis by blast
qed

text \<open>
  C35: an exchange over TCP returns exactly the resolver's framed answer: it returns
  \<open>resp\<close> just when the connection, sent the query with its length before it, answers with
  \<open>resp\<close> framed the same way and \<open>resp\<close> fits the buffer, however the answer is cut into pieces.
\<close>

theorem dnsExchangeTCP_exact:
  "dnsExchangeTCP server rd query = Some resp \<longleftrightarrow>
     length resp \<le> udpBufferSize \<and> (\<exists>rest. server (dns_frame query) = Some (dns_frame resp @ rest))"
proof
  assume a: "dnsExchangeTCP server rd query = Some resp"
  then obtain conn where c: "server (dns_frame query) = Some conn" "2 \<le> length conn" "be_nat (take 2 conn) \<le> udpBufferSize"
    "2 + be_nat (take 2 conn) \<le> length conn" "resp = take (be_nat (take 2 conn)) (drop 2 conn)"
    by (auto simp: dnsExchangeTCP_eq Let_def not_less split: option.splits if_splits)
  have l: "length resp = be_nat (take 2 conn)" using c(4,5) by simp
  have "be_bytes 2 (length resp) = take 2 conn" using be_bytes_be_nat [of "take 2 conn"] c(2) l by simp
  then have "conn = dns_frame resp @ drop (length resp) (drop 2 conn)"
    using c(5) l by (metis append.assoc append_take_drop_id dns_frame_def)
  then show "length resp \<le> udpBufferSize \<and> (\<exists>rest. server (dns_frame query) = Some (dns_frame resp @ rest))"
    using c(1,3) l by metis
next
  assume a: "length resp \<le> udpBufferSize \<and> (\<exists>rest. server (dns_frame query) = Some (dns_frame resp @ rest))"
  then have "be_nat (be_bytes 2 (length resp)) = length resp" by (simp add: be_nat_be_bytes udpBufferSize_def)
  with a show "dnsExchangeTCP server rd query = Some resp" by (auto simp: dnsExchangeTCP_eq dns_frame_def Let_def)
qed

end
