(* ===== verification/Capture.thy ===== *)
theory Capture
  imports Recorder Flows UDPForward Rewrite
begin

text \<open>
  \<open>vpntunnel/capture.go\<close>: configuration and life cycle of a capture. The package's globals are
  the record \<open>capGlobals\<close>. Recorders, tunnel environments and the interception semaphores are
  shared by reference, so they live in stores and a state holds their index. What the code calls
  outside the package (JSON, certificates, directories, the platform) is the record \<open>capLib\<close>.
\<close>

subsection \<open>Definitions: state\<close>

definition defaultMaxBodyBytes :: int where "defaultMaxBodyBytes = 10 * 2 ^ 20"
definition defaultMaxSessionBytes :: int where "defaultMaxSessionBytes = 500 * 2 ^ 20"
definition pinnedEmptyThreshold :: nat where "pinnedEmptyThreshold = 2"
definition pinnedEmptyWindow :: int where "pinnedEmptyWindow = 60 * second"

definition tsshHeapLimitBytes :: int where "tsshHeapLimitBytes = 34 * 1024 * 1024"
definition tsshGCPercent :: int where "tsshGCPercent = 90"
definition sshHeapLimitBytes :: int where "sshHeapLimitBytes = -1"
definition sshGCPercent :: int where "sshGCPercent = 100"

record captureConfig =
  cc_Enabled :: bool
  cc_SessionID :: string
  cc_SegmentNonce :: string
  cc_SpoolDir :: string
  cc_MITMHosts :: "string list"
  cc_CACertPEM :: string
  cc_CAKeyPEM :: string
  cc_CAProfileB64 :: string
  cc_EnableH2 :: bool
  cc_SkipUpstreamVerify :: bool
  cc_AutoBypassPinned :: bool
  cc_MaxBodyBytes :: int
  cc_MaxSessionBytes :: int
  cc_Pcap :: bool
  cc_RewriteRules :: "rewriteRule list"

record 're captureState =
  cs_cfg :: captureConfig
  cs_hosts :: hostMatcher
  cs_minter :: "string option"
  cs_rec :: "nat option"
  cs_rewrites :: "'re rewriteSet"
  cs_caProfile :: "bytes option"
  cs_mitmSem :: nat

record captureEnv =
  ce_transport :: string
  ce_flows :: flowRegistry
  ce_dns :: dnsCache
  ce_udp :: "udpForwarder option"
  ce_blocking :: bool
  ce_bypass :: "string list"
  ce_empty :: "string \<Rightarrow> int list"
  ce_mitmLive :: int
  ce_overflow :: int

record capSem =
  sm_cap :: nat
  sm_used :: nat

record 're capGlobals =
  g_cur :: "'re captureState option"
  g_env :: "nat option"
  g_envs :: "captureEnv list"
  g_recs :: "recorder list"
  g_sems :: "capSem list"
  g_base :: "int \<times> int"
  g_memLimit :: int
  g_gcPercent :: int
  g_rerouted :: nat

record 're capLib =
  cl_ios :: bool
  cl_regexps :: "'re regexps"
  cl_newMinter :: "string \<Rightarrow> string \<Rightarrow> bool"
  cl_b64 :: "string \<Rightarrow> bytes"
  cl_spool :: "string \<Rightarrow> nat option"
  cl_json :: json

subsection \<open>Definitions: lookups\<close>

definition curEnv :: "'re capGlobals \<Rightarrow> captureEnv option" where
  "curEnv g = map_option (\<lambda>i. g_envs g ! i) (g_env g)"

definition updEnv :: "nat \<Rightarrow> (captureEnv \<Rightarrow> captureEnv) \<Rightarrow> 're capGlobals \<Rightarrow> 're capGlobals" where
  "updEnv i f g = g\<lparr>g_envs := (g_envs g)[i := f (g_envs g ! i)]\<rparr>"

definition updRec :: "nat \<Rightarrow> (recorder \<Rightarrow> recorder) \<Rightarrow> 're capGlobals \<Rightarrow> 're capGlobals" where
  "updRec i f g = g\<lparr>g_recs := (g_recs g)[i := f (g_recs g ! i)]\<rparr>"

definition isActive :: "'re capGlobals \<Rightarrow> nat option \<Rightarrow> bool" where
  "isActive g r = (case r of None \<Rightarrow> False | Some i \<Rightarrow> rc_active (g_recs g ! i))"

definition recording :: "'re capGlobals \<Rightarrow> 're captureState option \<Rightarrow> bool" where
  "recording g cs = (case cs of None \<Rightarrow> False | Some s \<Rightarrow> cc_Enabled (cs_cfg s) \<and> isActive g (cs_rec s))"

definition captureServesCA :: "'re capGlobals \<Rightarrow> bool" where
  "captureServesCA g = (case g_cur g of None \<Rightarrow> False | Some cs \<Rightarrow> cs_caProfile cs \<noteq> None \<or> cs_minter cs \<noteq> None)"

definition liveRewrites :: "'re capGlobals \<Rightarrow> 're rewriteSet option" where
  "liveRewrites g = (case g_cur g of None \<Rightarrow> None | Some cs \<Rightarrow> if cc_Enabled (cs_cfg cs) then Some (cs_rewrites cs) else None)"

definition captureBlocking :: "'re capGlobals \<Rightarrow> bool" where
  "captureBlocking g = (case curEnv g of None \<Rightarrow> False | Some e \<Rightarrow> ce_blocking e)"

definition capturePacket :: "'re capLib \<Rightarrow> nat \<Rightarrow> u8 \<Rightarrow> bytes \<Rightarrow> 're capGlobals \<Rightarrow> 're capGlobals" where
  "capturePacket L now dir data g =
     (case g_cur g of
        None \<Rightarrow> g
      | Some cs \<Rightarrow>
          if \<not> cc_Pcap (cs_cfg cs) \<or> \<not> recording g (Some cs) then g
          else case cs_rec cs of
                 None \<Rightarrow> g
               | Some i \<Rightarrow> updRec i (packet (cl_json L) now dir data) g)"

subsection \<open>Definitions: memory limits\<close>

text \<open>
  \<open>runtime/debug\<close>: a negative limit leaves the memory limit as it is; the percentage is set.
\<close>

definition SetMemoryLimit :: "int \<Rightarrow> 're capGlobals \<Rightarrow> 're capGlobals" where
  "SetMemoryLimit l g = (if l < 0 then g else g\<lparr>g_memLimit := l\<rparr>)"

definition SetGCPercent :: "int \<Rightarrow> 're capGlobals \<Rightarrow> 're capGlobals" where
  "SetGCPercent p g = g\<lparr>g_gcPercent := p\<rparr>"

definition setBaseMemoryLimits :: "int \<Rightarrow> int \<Rightarrow> 're capGlobals \<Rightarrow> 're capGlobals" where
  "setBaseMemoryLimits lim gc g = SetGCPercent gc (SetMemoryLimit lim (g\<lparr>g_base := (lim, gc)\<rparr>))"

definition applyBaseMemoryLimits :: "string \<Rightarrow> 're capGlobals \<Rightarrow> 're capGlobals" where
  "applyBaseMemoryLimits transport g =
     (if transport = ''tssh'' \<or> transport = ''direct'' then setBaseMemoryLimits tsshHeapLimitBytes tsshGCPercent g
      else setBaseMemoryLimits sshHeapLimitBytes sshGCPercent g)"

definition applyCaptureMemoryLimits :: "'re capLib \<Rightarrow> string \<Rightarrow> bool \<Rightarrow> 're capGlobals \<Rightarrow> 're capGlobals" where
  "applyCaptureMemoryLimits L transport enabled g =
     (if \<not> cl_ios L then g
      else if enabled then
        (if transport = ''ssh'' then SetGCPercent tsshGCPercent (SetMemoryLimit tsshHeapLimitBytes g) else g)
      else if snd (g_base g) \<noteq> 0 then SetGCPercent (snd (g_base g)) (SetMemoryLimit (fst (g_base g)) g)
      else g)"

definition mitmFlowCap :: "'re capLib \<Rightarrow> string \<Rightarrow> nat" where
  "mitmFlowCap L transport =
     (if \<not> cl_ios L then 256 else if transport = ''ssh'' \<or> transport = ''tailscale'' then 24 else 32)"

subsection \<open>Definitions: configuring and closing\<close>

definition resetCaptureTunnelState :: "string \<Rightarrow> udpForwarder option \<Rightarrow> 're capGlobals \<Rightarrow> 're capGlobals" where
  "resetCaptureTunnelState transport udp g =
     g\<lparr>g_env := Some (length (g_envs g)),
       g_envs := g_envs g @ [\<lparr> ce_transport = transport, ce_flows = newFlowRegistry, ce_dns = newDNSCache, ce_udp = udp,
         ce_blocking = False, ce_bypass = [], ce_empty = (\<lambda>_. []), ce_mitmLive = 0, ce_overflow = 0 \<rparr>]\<rparr>"

definition notifyCaptureRouting :: "'re capGlobals \<Rightarrow> 're capGlobals" where
  "notifyCaptureRouting g = g\<lparr>g_rerouted := g_rerouted g + 1\<rparr>"

definition closeRec :: "'re capLib \<Rightarrow> string \<Rightarrow> string \<Rightarrow> nat option \<Rightarrow> 're capGlobals \<Rightarrow> 're capGlobals" where
  "closeRec L kind reason r g = (case r of None \<Rightarrow> g | Some i \<Rightarrow> updRec i (rec_close (cl_json L) kind reason) g)"

datatype capError = BadConfig | NotRunning | SpoolError

text \<open>The state built from the configuration before the recorder is decided.\<close>

definition nextState :: "'re capLib \<Rightarrow> string \<Rightarrow> captureConfig \<Rightarrow> 're captureState option \<Rightarrow> 're capGlobals \<Rightarrow> 're captureState \<times> 're capGlobals" where
  "nextState L transport cfg prev g =
     (let minter = (if cc_CACertPEM cfg = [] then None
                    else case Option.bind prev cs_minter of
                           Some pem \<Rightarrow> if pem = cc_CACertPEM cfg then Some pem
                                       else if cl_newMinter L (cc_CACertPEM cfg) (cc_CAKeyPEM cfg) then Some (cc_CACertPEM cfg) else None
                         | None \<Rightarrow> if cl_newMinter L (cc_CACertPEM cfg) (cc_CAKeyPEM cfg) then Some (cc_CACertPEM cfg) else None);
          n = mitmFlowCap L transport;
          (sem, g1) = (case prev of
                         Some p \<Rightarrow> if sm_cap (g_sems g ! cs_mitmSem p) = n then (cs_mitmSem p, g)
                                   else (length (g_sems g), g\<lparr>g_sems := g_sems g @ [\<lparr> sm_cap = n, sm_used = 0 \<rparr>]\<rparr>)
                       | None \<Rightarrow> (length (g_sems g), g\<lparr>g_sems := g_sems g @ [\<lparr> sm_cap = n, sm_used = 0 \<rparr>]\<rparr>))
      in (\<lparr> cs_cfg = cfg, cs_hosts = compileHostRules (cc_MITMHosts cfg), cs_minter = minter, cs_rec = None,
            cs_rewrites = compileRewriteRules (cl_regexps L) (cl_ios L) (cc_RewriteRules cfg),
            cs_caProfile = (if cc_CAProfileB64 cfg = [] then None else Some (cl_b64 L (cc_CAProfileB64 cfg))),
            cs_mitmSem = sem \<rparr>, g1))"

definition sameSegment :: "captureConfig \<Rightarrow> 're captureState option \<Rightarrow> 're capGlobals \<Rightarrow> bool" where
  "sameSegment cfg prev g =
     (case Option.bind prev cs_rec of
        None \<Rightarrow> False
      | Some i \<Rightarrow> rc_sessionID (g_recs g ! i) = cc_SessionID cfg \<and> rc_nonce (g_recs g ! i) = cc_SegmentNonce cfg)"

text \<open>The end of \<open>applyCaptureConfig\<close>: the new state is published and its effects applied.\<close>

definition publish :: "'re capLib \<Rightarrow> nat \<Rightarrow> 're captureState \<Rightarrow> 're capGlobals \<Rightarrow> 're capGlobals" where
  "publish L env next' g =
     (let on = cc_Enabled (cs_cfg next');
          transport = ce_transport (g_envs g ! env)
      in notifyCaptureRouting (applyCaptureMemoryLimits L transport on
           (updEnv env (\<lambda>e. e\<lparr>ce_blocking := on\<rparr>) (g\<lparr>g_cur := Some next'\<rparr>))))"

definition disabled :: "'re captureState \<Rightarrow> 're captureState" where
  "disabled cs = cs\<lparr>cs_cfg := (cs_cfg cs)\<lparr>cc_Enabled := False\<rparr>\<rparr>"

definition withDefaults :: "captureConfig \<Rightarrow> captureConfig" where
  "withDefaults cfg =
     (let c1 = (if cc_MaxBodyBytes cfg \<le> 0 then cfg\<lparr>cc_MaxBodyBytes := defaultMaxBodyBytes\<rparr> else cfg)
      in if cc_MaxSessionBytes c1 \<le> 0 then c1\<lparr>cc_MaxSessionBytes := defaultMaxSessionBytes\<rparr> else c1)"

definition applyCaptureConfig :: "'re capLib \<Rightarrow> captureConfig option \<Rightarrow> 're capGlobals \<Rightarrow> 're capGlobals \<times> capError option" where
  "applyCaptureConfig L raw g =
     (case raw of
        None \<Rightarrow> (g, Some BadConfig)
      | Some cfg0 \<Rightarrow>
          case g_env g of
            None \<Rightarrow> (g, Some NotRunning)
          | Some env \<Rightarrow>
              let cfg = withDefaults cfg0;
                  prev = g_cur g;
                  transport = ce_transport (g_envs g ! env);
                  (next', g1) = nextState L transport cfg prev g;
                  prevRec = Option.bind prev cs_rec
              in if cc_Enabled cfg \<and> cc_SessionID cfg \<noteq> [] \<and> cc_SpoolDir cfg \<noteq> [] then
                   if sameSegment cfg prev g1 then
                     (publish L env (next'\<lparr>cs_rec := prevRec\<rparr>)
                        (case prevRec of
                           None \<Rightarrow> g1
                         | Some i \<Rightarrow> updRec i (\<lambda>r. r\<lparr>rc_maxBody := cc_MaxBodyBytes cfg, rc_maxSession := cc_MaxSessionBytes cfg\<rparr>) g1),
                      None)
                   else
                     let g2 = closeRec L ''segmentEnd'' ''reconfigured'' prevRec g1
                     in case cl_spool L (cc_SpoolDir cfg) of
                          None \<Rightarrow> (publish L env (disabled next') g2, Some SpoolError)
                        | Some used \<Rightarrow>
                            (publish L env (next'\<lparr>cs_rec := Some (length (g_recs g2))\<rparr>)
                               (g2\<lparr>g_recs := g_recs g2 @ [newRecorder (cl_json L) used (cc_SessionID cfg) (cc_SegmentNonce cfg)
                                  (cc_MaxBodyBytes cfg) (cc_MaxSessionBytes cfg) transport]\<rparr>),
                             None)
                 else (publish L env (disabled next') (closeRec L ''stop'' ''user'' prevRec g1), None))"

definition closeCapture :: "'re capLib \<Rightarrow> string \<Rightarrow> bool \<Rightarrow> 're capGlobals \<Rightarrow> 're capGlobals" where
  "closeCapture L reason final g =
     (case g_cur g of
        None \<Rightarrow> if final then g else g\<lparr>g_env := None\<rparr>
      | Some cs \<Rightarrow>
          let g1 = closeRec L (if final then ''stop'' else ''segmentEnd'') reason (cs_rec cs) g;
              g2 = g1\<lparr>g_cur := (if final then Some ((disabled cs)\<lparr>cs_rec := None\<rparr>) else None)\<rparr>;
              g3 = (case g_env g2 of
                      None \<Rightarrow> g2
                    | Some i \<Rightarrow> applyCaptureMemoryLimits L (ce_transport (g_envs g2 ! i)) False
                                  (updEnv i (\<lambda>e. e\<lparr>ce_blocking := False\<rparr>) g2))
          in notifyCaptureRouting (if final then g3 else g3\<lparr>g_env := None\<rparr>))"

definition captureStatus :: "'re capGlobals \<Rightarrow> (bool \<times> string \<times> string \<times> bool \<times> nat \<times> nat \<times> int \<times> int \<times> string) option" where
  "captureStatus g =
     (case g_cur g of
        None \<Rightarrow> None
      | Some cs \<Rightarrow>
          let (live, over) = (case curEnv g of None \<Rightarrow> (0, 0) | Some e \<Rightarrow> (ce_mitmLive e, ce_overflow e));
              (sid, seg, wr, dr, reason) =
                (case cs_rec cs of
                   None \<Rightarrow> ([], [], 0, 0, [])
                 | Some i \<Rightarrow> let r = g_recs g ! i in (rc_sessionID r, rc_nonce r, rc_written r, rc_dropped r, rc_stopReason r))
          in Some (recording g (Some cs), sid, seg, cs_minter cs \<noteq> None, wr, dr, live, over, reason))"

definition CaptureStop :: "'re capLib \<Rightarrow> 're capGlobals \<Rightarrow> (bool \<times> string \<times> string \<times> bool \<times> nat \<times> nat \<times> int \<times> int \<times> string) option \<times> 're capGlobals" where
  "CaptureStop L g = (captureStatus g, closeCapture L ''user'' True g)"

definition CaptureResetFlows :: "'re capGlobals \<Rightarrow> 're capGlobals \<times> udpEvent list \<times> nat list \<times> nat" where
  "CaptureResetFlows g =
     (case g_env g of
        None \<Rightarrow> (g, [], [], 0)
      | Some i \<Rightarrow>
          let e = g_envs g ! i;
              (udp, ev) = (case ce_udp e of None \<Rightarrow> (None, []) | Some f \<Rightarrow> (case closePort 443 f of (f1, ev) \<Rightarrow> (Some f1, ev)));
              (flows, eps, n) = abortAll (ce_flows e)
          in (updEnv i (\<lambda>e. e\<lparr>ce_udp := udp, ce_flows := flows\<rparr>) g, ev, eps, n))"

subsection \<open>Definitions: pinned hosts\<close>

definition isBypassed :: "captureEnv \<Rightarrow> string \<Rightarrow> bool" where
  "isBypassed e host = (host \<in> set (ce_bypass e))"

definition noteEmptyMITM :: "int \<Rightarrow> string \<Rightarrow> captureEnv \<Rightarrow> captureEnv \<times> bool" where
  "noteEmptyMITM now host e =
     (let kept = filter (\<lambda>t. now - t < pinnedEmptyWindow) (ce_empty e host) @ [now]
      in (e\<lparr>ce_empty := (ce_empty e)(host := kept)\<rparr>, pinnedEmptyThreshold \<le> length kept))"

definition noteServedMITM :: "string \<Rightarrow> captureEnv \<Rightarrow> captureEnv" where
  "noteServedMITM host e = e\<lparr>ce_empty := (ce_empty e)(host := [])\<rparr>"

subsection \<open>The life cycle\<close>

text \<open>
  The globals over time: tunnels start when none is running, the app configures and stops
  captures in any order, the recorders record events and their writers run.
\<close>

inductive cap_step :: "'re capLib \<Rightarrow> 're capGlobals \<Rightarrow> 're capGlobals \<Rightarrow> bool" for L where
  tunnel_start: "g_env g = None \<Longrightarrow> cap_step L g (resetCaptureTunnelState transport udp g)"
| base_limits: "cap_step L g (applyBaseMemoryLimits transport g)"
| configure: "cap_step L g (fst (applyCaptureConfig L raw g))"
| close: "cap_step L g (closeCapture L reason final g)"
| record_packet: "cap_step L g (capturePacket L now dir data g)"
| record_event: "i < length (g_recs g) \<Longrightarrow> cap_step L g (updRec i (rec_event (cl_json L) e) g)"
| write_queue: "i < length (g_recs g) \<Longrightarrow> cap_step L g (updRec i (runTurn (cl_json L) io) g)"
| reset_flows: "cap_step L g (fst (CaptureResetFlows g))"

definition capStart :: "'re capGlobals" where
  "capStart = \<lparr> g_cur = None, g_env = None, g_envs = [], g_recs = [], g_sems = [], g_base = (0, 0),
     g_memLimit = 2 ^ 63 - 1, g_gcPercent = 100, g_rerouted = 0 \<rparr>"

definition openRecs :: "'re capGlobals \<Rightarrow> nat set" where
  "openRecs g = {i. i < length (g_recs g) \<and> \<not> rc_closing (g_recs g ! i)}"

text \<open>
  The only open recorder is the current one, it is there exactly while capture is enabled, and
  the running tunnel blocks QUIC exactly then.
\<close>

definition capture_ok :: "'re capGlobals \<Rightarrow> bool" where
  "capture_ok g \<longleftrightarrow>
     (\<forall>i. g_env g = Some i \<longrightarrow> i < length (g_envs g)) \<and>
     (g_env g = None \<longrightarrow> g_cur g = None) \<and>
     openRecs g = set_option (Option.bind (g_cur g) cs_rec) \<and>
     (\<forall>cs. g_cur g = Some cs \<longrightarrow> (cc_Enabled (cs_cfg cs) \<longleftrightarrow> cs_rec cs \<noteq> None)) \<and>
     captureBlocking g = (case g_cur g of None \<Rightarrow> False | Some cs \<Rightarrow> cc_Enabled (cs_cfg cs))"

lemma nth_upd: "x < length xs \<Longrightarrow> xs[i := v] ! x = (if i = x then v else xs ! x)"
  by (cases "i = x") simp_all

lemma openRecs_updRec:
  assumes "\<And>r. rc_closing (f r) = rc_closing r"
  shows "openRecs (updRec i f g) = openRecs g"
  by (auto simp: openRecs_def updRec_def nth_upd assms split: if_splits)

lemma updRec_same [simp]:
  "g_cur (updRec i f g) = g_cur g" "g_env (updRec i f g) = g_env g" "g_envs (updRec i f g) = g_envs g"
  "g_sems (updRec i f g) = g_sems g" "g_base (updRec i f g) = g_base g" "g_memLimit (updRec i f g) = g_memLimit g"
  "length (g_recs (updRec i f g)) = length (g_recs g)" "captureBlocking (updRec i f g) = captureBlocking g"
  by (simp_all add: updRec_def captureBlocking_def curEnv_def)

lemma capture_ok_updRec: "(\<And>r. rc_closing (f r) = rc_closing r) \<Longrightarrow> capture_ok g \<Longrightarrow> capture_ok (updRec i f g)"
  unfolding capture_ok_def by (simp add: openRecs_updRec)

lemma rec_close_closing: "rc_closing (rec_close json kind reason r)"
  by (simp add: rec_close_def finishClose_def Let_def)

lemma foldl_applyOp_closing: "rc_closing (foldl (applyOp json io) r ps) = rc_closing r"
  by (induction ps arbitrary: r) (simp_all add: applyOp_queue)

lemma runTurn_closing: "rc_closing (runTurn json io r) = rc_closing r"
  by (simp add: runTurn_def Let_def foldl_applyOp_closing)

lemma closeRec_same [simp]:
  "g_cur (closeRec L k m r g) = g_cur g" "g_env (closeRec L k m r g) = g_env g" "g_envs (closeRec L k m r g) = g_envs g"
  "captureBlocking (closeRec L k m r g) = captureBlocking g" "length (g_recs (closeRec L k m r g)) = length (g_recs g)"
  "g_base (closeRec L k m r g) = g_base g" "g_memLimit (closeRec L k m r g) = g_memLimit g"
  by (simp_all add: closeRec_def split: option.split)

lemma openRecs_closeRec: "openRecs (closeRec L k m r g) = openRecs g - set_option r"
  by (auto simp: openRecs_def closeRec_def updRec_def nth_upd rec_close_closing split: option.split if_splits)

lemma limits_same [simp]:
  "g_cur (applyCaptureMemoryLimits L tr b g) = g_cur g" "g_env (applyCaptureMemoryLimits L tr b g) = g_env g"
  "g_envs (applyCaptureMemoryLimits L tr b g) = g_envs g" "g_recs (applyCaptureMemoryLimits L tr b g) = g_recs g"
  "g_cur (applyBaseMemoryLimits tr g) = g_cur g" "g_env (applyBaseMemoryLimits tr g) = g_env g"
  "g_envs (applyBaseMemoryLimits tr g) = g_envs g" "g_recs (applyBaseMemoryLimits tr g) = g_recs g"
  "g_base (applyCaptureMemoryLimits L tr b g) = g_base g"
  by (simp_all add: applyCaptureMemoryLimits_def applyBaseMemoryLimits_def setBaseMemoryLimits_def SetMemoryLimit_def SetGCPercent_def)

lemma notify_same [simp]:
  "g_cur (notifyCaptureRouting g) = g_cur g" "g_env (notifyCaptureRouting g) = g_env g"
  "g_envs (notifyCaptureRouting g) = g_envs g" "g_recs (notifyCaptureRouting g) = g_recs g"
  "g_memLimit (notifyCaptureRouting g) = g_memLimit g" "g_base (notifyCaptureRouting g) = g_base g"
  by (simp_all add: notifyCaptureRouting_def)

lemma publish_fields:
  "g_cur (publish L env n g) = Some n" "g_env (publish L env n g) = g_env g" "g_recs (publish L env n g) = g_recs g"
  "length (g_envs (publish L env n g)) = length (g_envs g)"
  "g_envs (publish L env n g) = (g_envs g)[env := (g_envs g ! env)\<lparr>ce_blocking := cc_Enabled (cs_cfg n)\<rparr>]"
  "g_base (publish L env n g) = g_base g"
  by (simp_all add: publish_def updEnv_def Let_def)

lemma publish_ok:
  assumes "g_env g = Some env" "env < length (g_envs g)"
    and "openRecs g = set_option (cs_rec n)" "cc_Enabled (cs_cfg n) \<longleftrightarrow> cs_rec n \<noteq> None"
  shows "capture_ok (publish L env n g)"
  using assms unfolding capture_ok_def
  by (auto simp: publish_fields openRecs_def captureBlocking_def curEnv_def)

lemma nextState_fields:
  assumes "nextState L tr cfg prev g = (n, g1)"
  shows "cs_rec n = None" "cs_cfg n = cfg" "g_cur g1 = g_cur g" "g_env g1 = g_env g" "g_envs g1 = g_envs g" "g_recs g1 = g_recs g"
    "g_base g1 = g_base g" "openRecs g1 = openRecs g"
  using assms by (auto simp: nextState_def Let_def openRecs_def split: option.splits if_splits)

lemma withDefaults_same [simp]:
  "cc_Enabled (withDefaults c) = cc_Enabled c" "cc_SessionID (withDefaults c) = cc_SessionID c" "cc_SpoolDir (withDefaults c) = cc_SpoolDir c"
  "cc_SegmentNonce (withDefaults c) = cc_SegmentNonce c"
  by (simp_all add: withDefaults_def Let_def)

lemma newRecorder_open: "\<not> rc_closing (newRecorder json used sid nonce mb ms tr)"
  by (simp add: newRecorder_def rec_event_def enqueue_same)

lemma applyCaptureConfig_cases:
  assumes ok: "capture_ok g"
  shows "capture_ok (fst (applyCaptureConfig L raw g))"
proof (cases "raw = None \<or> g_env g = None")
  case True
  then show ?thesis using ok by (auto simp: applyCaptureConfig_def split: option.split)
next
  case False
  then obtain cfg0 env where re: "raw = Some cfg0" "g_env g = Some env" by auto
  define cfg where "cfg = withDefaults cfg0"
  define prevRec where "prevRec = Option.bind (g_cur g) cs_rec"
  define tr where "tr = ce_transport (g_envs g ! env)"
  obtain n g1 where ns: "nextState L tr cfg (g_cur g) g = (n, g1)" by fastforce
  note f = nextState_fields [OF ns]
  have env: "env < length (g_envs g)" using ok re(2) by (simp add: capture_ok_def)
  have op: "openRecs g1 = set_option prevRec" using ok f(8) by (simp add: capture_ok_def prevRec_def)
  define on where "on = (cc_Enabled cfg \<and> cc_SessionID cfg \<noteq> [] \<and> cc_SpoolDir cfg \<noteq> [])"
  note unf = applyCaptureConfig_def re option.case Let_def cfg_def [symmetric] tr_def [symmetric] ns prod.case prevRec_def [symmetric] on_def [symmetric]
  show ?thesis
  proof (cases on)
    case off: False
    have "capture_ok (publish L env (disabled n) (closeRec L ''stop'' ''user'' prevRec g1))"
      by (rule publish_ok) (use f re env op in \<open>auto simp: openRecs_closeRec disabled_def\<close>)
    then show ?thesis using off by (simp only: unf if_False fst_conv)
  next
    case on: True
    then have en: "cc_Enabled cfg" by (simp add: on_def)
    show ?thesis
    proof (cases "sameSegment cfg (g_cur g) g1")
      case same: True
      then obtain i where i: "prevRec = Some i" by (auto simp: sameSegment_def prevRec_def split: option.splits)
      have "capture_ok (publish L env (n\<lparr>cs_rec := prevRec\<rparr>)
         (updRec i (\<lambda>r. r\<lparr>rc_maxBody := cc_MaxBodyBytes cfg, rc_maxSession := cc_MaxSessionBytes cfg\<rparr>) g1))"
        by (rule publish_ok) (use f re env op i en in \<open>auto simp: openRecs_updRec\<close>)
      then show ?thesis using on same i by (simp only: unf if_True fst_conv)
    next
      case new: False
      define g2 where "g2 = closeRec L ''segmentEnd'' ''reconfigured'' prevRec g1"
      have o2: "openRecs g2 = {}" using op by (simp add: g2_def openRecs_closeRec)
      show ?thesis
      proof (cases "cl_spool L (cc_SpoolDir cfg)")
        case None
        have "capture_ok (publish L env (disabled n) g2)"
          by (rule publish_ok) (use f re env o2 in \<open>auto simp: g2_def disabled_def\<close>)
        then show ?thesis using on new None by (simp only: unf if_True if_False fst_conv g2_def [symmetric])
      next
        case (Some used)
        define r where "r = newRecorder (cl_json L) used (cc_SessionID cfg) (cc_SegmentNonce cfg) (cc_MaxBodyBytes cfg) (cc_MaxSessionBytes cfg) tr"
        have "openRecs (g2\<lparr>g_recs := g_recs g2 @ [r]\<rparr>) = {length (g_recs g2)}"
          using o2 newRecorder_open by (auto simp: openRecs_def nth_append r_def less_Suc_eq)
        then have "capture_ok (publish L env (n\<lparr>cs_rec := Some (length (g_recs g2))\<rparr>) (g2\<lparr>g_recs := g_recs g2 @ [r]\<rparr>))"
          by (intro publish_ok) (use f re env en in \<open>auto simp: g2_def\<close>)
        then show ?thesis using on new Some by (simp only: unf if_True if_False fst_conv g2_def [symmetric] r_def [symmetric])
      qed
    qed
  qed
qed

lemma closeCapture_ok:
  assumes ok: "capture_ok g"
  shows "capture_ok (closeCapture L reason final g)"
proof (cases "g_cur g")
  case None
  then show ?thesis using ok
    by (auto simp: closeCapture_def capture_ok_def captureBlocking_def curEnv_def openRecs_def)
next
  case (Some cs)
  then obtain env where env: "g_env g = Some env" "env < length (g_envs g)" using ok by (cases "g_env g") (auto simp: capture_ok_def)
  define g1 where "g1 = closeRec L (if final then ''stop'' else ''segmentEnd'') reason (cs_rec cs) g"
  have o1: "openRecs g1 = {}" using ok Some by (simp add: capture_ok_def g1_def openRecs_closeRec)
  have f1: "g_env g1 = Some env" "g_envs g1 = g_envs g" by (simp_all add: g1_def env)
  define g3 where "g3 = applyCaptureMemoryLimits L (ce_transport (g_envs g1 ! env)) False
     (updEnv env (\<lambda>e. e\<lparr>ce_blocking := False\<rparr>) (g1\<lparr>g_cur := (if final then Some ((disabled cs)\<lparr>cs_rec := None\<rparr>) else None)\<rparr>))"
  have c: "closeCapture L reason final g = notifyCaptureRouting (if final then g3 else g3\<lparr>g_env := None\<rparr>)"
    unfolding closeCapture_def Some option.case Let_def g1_def [symmetric] by (simp add: f1 g3_def)
  have f3: "g_cur g3 = (if final then Some ((disabled cs)\<lparr>cs_rec := None\<rparr>) else None)" "g_env g3 = Some env"
    "g_envs g3 = (g_envs g)[env := (g_envs g ! env)\<lparr>ce_blocking := False\<rparr>]" "g_recs g3 = g_recs g1"
    by (simp_all add: g3_def updEnv_def f1)
  have "openRecs g3 = {}" using o1 by (simp add: openRecs_def f3)
  then show ?thesis
    using env(2) unfolding c capture_ok_def by (auto simp: f3 openRecs_def captureBlocking_def curEnv_def disabled_def)
qed

lemma cap_step_ok: "cap_step L g h \<Longrightarrow> capture_ok g \<Longrightarrow> capture_ok h"
proof (induction rule: cap_step.induct)
  case (tunnel_start g transport udp)
  then show ?case by (auto simp: capture_ok_def resetCaptureTunnelState_def openRecs_def captureBlocking_def curEnv_def)
next
  case (base_limits g transport)
  then show ?case by (auto simp: capture_ok_def openRecs_def captureBlocking_def curEnv_def)
next
  case (configure g raw)
  then show ?case by (rule applyCaptureConfig_cases)
next
  case (close g reason final)
  then show ?case by (rule closeCapture_ok)
next
  case (record_packet g now dir data)
  have "capture_ok (updRec i (packet (cl_json L) now dir data) g)" for i
    using record_packet by (intro capture_ok_updRec) (simp_all add: packet_def appendFile_def enqueue_same)
  then show ?case using record_packet by (auto simp: capturePacket_def split: option.split)
next
  case (record_event i g e)
  then show ?case by (intro capture_ok_updRec) (simp_all add: rec_event_def enqueue_same)
next
  case (write_queue i g io)
  then show ?case by (intro capture_ok_updRec) (simp_all add: runTurn_closing)
next
  case (reset_flows g)
  show ?case
  proof (cases "g_env g")
    case (Some i)
    let ?e = "g_envs g ! i"
    obtain udp ev where u: "(case ce_udp ?e of None \<Rightarrow> (None, []) | Some f \<Rightarrow> (case closePort 443 f of (f1, ev) \<Rightarrow> (Some f1, ev))) = (udp, ev)"
      by (meson surj_pair)
    obtain flows eps n where a: "abortAll (ce_flows ?e) = (flows, eps, n)" by (rule prod_cases3)
    have "fst (CaptureResetFlows g) = updEnv i (\<lambda>e. e\<lparr>ce_udp := udp, ce_flows := flows\<rparr>) g"
      unfolding CaptureResetFlows_def Some option.case Let_def u a by simp
    then show ?thesis using reset_flows Some
      by (auto simp: capture_ok_def updEnv_def openRecs_def captureBlocking_def curEnv_def)
  qed (use reset_flows in \<open>simp add: CaptureResetFlows_def\<close>)
qed

interpretation capturing_sys: kept_invariant "cap_step L" capStart capture_ok for L
  by unfold_locales (simp add: capture_ok_def capStart_def openRecs_def captureBlocking_def curEnv_def, rule cap_step_ok)

subsection \<open>Properties\<close>


definition demoLib :: "unit capLib" where
  "demoLib = \<lparr> cl_ios = True, cl_regexps = \<lparr> reCompile = (\<lambda>_. None), reMatch = (\<lambda>_ _. False), reReplace = (\<lambda>_ _ _. None) \<rparr>,
     cl_newMinter = (\<lambda>_ _. True), cl_b64 = (\<lambda>_. []), cl_spool = (\<lambda>_. Some 0), cl_json = (\<lambda>_. []) \<rparr>"

definition demoConfig :: captureConfig where
  "demoConfig = \<lparr> cc_Enabled = True, cc_SessionID = ''s'', cc_SegmentNonce = ''n'', cc_SpoolDir = ''/spool'',
     cc_MITMHosts = [''*.example.com''], cc_CACertPEM = ''pem'', cc_CAKeyPEM = ''key'', cc_CAProfileB64 = [], cc_EnableH2 = True,
     cc_SkipUpstreamVerify = False, cc_AutoBypassPinned = True, cc_MaxBodyBytes = 0, cc_MaxSessionBytes = 0, cc_Pcap = True,
     cc_RewriteRules = [] \<rparr>"

definition demoStarted :: "unit capGlobals" where
  "demoStarted = resetCaptureTunnelState ''ssh'' None (applyBaseMemoryLimits ''ssh'' capStart)"

definition demoCapturing :: "unit capGlobals" where
  "demoCapturing = fst (applyCaptureConfig demoLib (Some demoConfig) demoStarted)"

lemma demoCapturing_reachable: "(cap_step demoLib)\<^sup>*\<^sup>* capStart demoCapturing"
proof -
  let ?s = "cap_step demoLib"
  have "g_env (applyBaseMemoryLimits ''ssh'' (capStart :: unit capGlobals)) = None" by (simp add: capStart_def)
  then have 2: "?s (applyBaseMemoryLimits ''ssh'' capStart) demoStarted" unfolding demoStarted_def by (rule tunnel_start)
  show ?thesis
    by (rule converse_rtranclp_into_rtranclp [where r = ?s], rule base_limits [where transport = "''ssh''"],
        rule converse_rtranclp_into_rtranclp [where r = ?s], rule 2, rule r_into_rtranclp [where r = ?s],
        unfold demoCapturing_def, rule configure)
qed


lemma publish_ssh_limit:
  assumes "cl_ios L" "ce_transport (g_envs g ! env) = ''ssh''" "cc_Enabled (cs_cfg n)"
  shows "g_memLimit (publish L env n g) = tsshHeapLimitBytes"
  using assms by (simp add: publish_def Let_def applyCaptureMemoryLimits_def SetMemoryLimit_def SetGCPercent_def tsshHeapLimitBytes_def
      notifyCaptureRouting_def)

lemma closeCapture_ssh_limit:
  assumes "cl_ios L" "g_env g = Some env" "g_cur g \<noteq> None" "g_base g = (sshHeapLimitBytes, sshGCPercent)"
  shows "g_memLimit (closeCapture L reason final g) = g_memLimit g" "g_gcPercent (closeCapture L reason final g) = sshGCPercent"
  using assms by (auto simp: closeCapture_def Let_def applyCaptureMemoryLimits_def SetMemoryLimit_def SetGCPercent_def sshHeapLimitBytes_def
      sshGCPercent_def notifyCaptureRouting_def updEnv_def)

text \<open>
  C40: over SSH on iOS, stopping a capture does not give the memory back. Starting one sets
  the soft memory limit of 34 MiB; the base limit of SSH mode is -1, which \<open>SetMemoryLimit\<close> takes
  as no change, so after the stop the limit is still there, although the collector's
  percentage is restored.
\<close>

theorem ssh_memory_limit_kept:
  assumes "cl_ios L" and "g_env g = Some env" and "env < length (g_envs g)" and "ce_transport (g_envs g ! env) = ''ssh''"
    and "g_base g = (sshHeapLimitBytes, sshGCPercent)" and "cc_Enabled cfg" and "cc_SessionID cfg \<noteq> []"
    and "cl_spool L (cc_SpoolDir cfg) = Some used" and "cc_SpoolDir cfg \<noteq> []"
  shows "g_memLimit (snd (CaptureStop L (fst (applyCaptureConfig L (Some cfg) g)))) = tsshHeapLimitBytes \<and>
    g_gcPercent (snd (CaptureStop L (fst (applyCaptureConfig L (Some cfg) g)))) = sshGCPercent"
proof -
  obtain n g1 where ns: "nextState L ''ssh'' (withDefaults cfg) (g_cur g) g = (n, g1)" by fastforce
  note f = nextState_fields [OF ns]
  define P where "P = Option.bind (g_cur g) cs_rec"
  define c where "c = withDefaults cfg"
  define g2 where "g2 = closeRec L ''segmentEnd'' ''reconfigured'' P g1"
  define gs where "gs = (case P of None \<Rightarrow> g1
     | Some i \<Rightarrow> updRec i (\<lambda>r. r\<lparr>rc_maxBody := cc_MaxBodyBytes c, rc_maxSession := cc_MaxSessionBytes c\<rparr>) g1)"
  define gn where "gn = g2\<lparr>g_recs := g_recs g2 @ [newRecorder (cl_json L) used (cc_SessionID c) (cc_SegmentNonce c)
     (cc_MaxBodyBytes c) (cc_MaxSessionBytes c) ''ssh'']\<rparr>"
  have a: "fst (applyCaptureConfig L (Some cfg) g) =
      (if sameSegment c (g_cur g) g1 then publish L env (n\<lparr>cs_rec := P\<rparr>) gs
       else publish L env (n\<lparr>cs_rec := Some (length (g_recs g2))\<rparr>) gn)"
    using assms(2,4,6-9) ns unfolding gs_def gn_def g2_def P_def c_def by (simp add: applyCaptureConfig_def Let_def)
  have b: "g_env gs = g_env g" "g_envs gs = g_envs g" "g_base gs = g_base g" "g_env gn = g_env g" "g_envs gn = g_envs g" "g_base gn = g_base g"
    using f by (simp_all add: gs_def gn_def g2_def split: option.split)
  have "\<exists>n' g2. fst (applyCaptureConfig L (Some cfg) g) = publish L env n' g2 \<and> cs_cfg n' = withDefaults cfg \<and>
      g_env g2 = g_env g \<and> g_envs g2 = g_envs g \<and> g_base g2 = g_base g"
  proof (cases "sameSegment c (g_cur g) g1")
    case True
    have "cs_cfg (n\<lparr>cs_rec := P\<rparr>) = withDefaults cfg" using f(2) by simp
    moreover have "fst (applyCaptureConfig L (Some cfg) g) = publish L env (n\<lparr>cs_rec := P\<rparr>) gs" using True a by simp
    ultimately show ?thesis using b(1-3) by blast
  next
    case False
    have "cs_cfg (n\<lparr>cs_rec := Some (length (g_recs g2))\<rparr>) = withDefaults cfg" using f(2) by simp
    moreover have "fst (applyCaptureConfig L (Some cfg) g) = publish L env (n\<lparr>cs_rec := Some (length (g_recs g2))\<rparr>) gn"
      using False a by simp
    ultimately show ?thesis using b(4-6) by blast
  qed
  then obtain n' g2 where p: "fst (applyCaptureConfig L (Some cfg) g) = publish L env n' g2" "cs_cfg n' = withDefaults cfg"
      "g_env g2 = g_env g" "g_envs g2 = g_envs g" "g_base g2 = g_base g" by blast
  have "g_memLimit (publish L env n' g2) = tsshHeapLimitBytes"
    by (rule publish_ssh_limit) (use assms p in simp_all)
  moreover have "g_env (publish L env n' g2) = Some env" "g_cur (publish L env n' g2) \<noteq> None"
    "g_base (publish L env n' g2) = (sshHeapLimitBytes, sshGCPercent)" using assms p by (simp_all add: publish_fields)
  ultimately show ?thesis
    using closeCapture_ssh_limit [OF assms(1)] by (simp add: CaptureStop_def p(1))
qed

theorem ssh_memory_limit_kept_witness:
  "g_memLimit demoStarted = 2 ^ 63 - 1 \<and>
   g_memLimit (snd (CaptureStop demoLib (fst (applyCaptureConfig demoLib (Some demoConfig) demoStarted)))) = 34 * 1024 * 1024"
proof -
  have a: "cl_ios demoLib" "g_env demoStarted = Some 0" "0 < length (g_envs demoStarted)" "ce_transport (g_envs demoStarted ! 0) = ''ssh''"
    "g_base demoStarted = (sshHeapLimitBytes, sshGCPercent)" "cc_Enabled demoConfig" "cc_SessionID demoConfig \<noteq> []"
    "cl_spool demoLib (cc_SpoolDir demoConfig) = Some 0" "cc_SpoolDir demoConfig \<noteq> []" "g_memLimit demoStarted = 2 ^ 63 - 1"
    by (simp_all add: demoLib_def demoConfig_def demoStarted_def resetCaptureTunnelState_def applyBaseMemoryLimits_def
        setBaseMemoryLimits_def SetMemoryLimit_def SetGCPercent_def sshHeapLimitBytes_def capStart_def)
  from ssh_memory_limit_kept [OF a(1-9)] a(10) show ?thesis by (simp add: tsshHeapLimitBytes_def)
qed

end
