(* ===== verification/Mitm.thy ===== *)
theory Mitm
  imports Capture
begin

text \<open>
  \<open>vpntunnel/mitm.go\<close>: which flows are inspected, which TLS connections are intercepted, and
  what happens to the others. The client, the upstream server, \<open>crypto/tls\<close> and the clock are
  the record \<open>tlsPeers\<close>: how much of the stream the handshake reads and what ClientHello it finds
  there, whether the upstream can be dialed (and dialed again) and what its handshake gives, whether a leaf can be
  minted, how the client's handshake ends and how many requests it then makes. Durations in the
  connection's metadata are left out.
\<close>

subsection \<open>Definitions: small decisions\<close>

definition millisecond :: int where "millisecond = 1000000"
definition peekTimeoutWeb :: int where "peekTimeoutWeb = 5 * second"
definition peekTimeoutExplicit :: int where "peekTimeoutExplicit = 2 * second"
definition peekTimeoutAnyPort :: int where "peekTimeoutAnyPort = 300 * millisecond"
definition caEndpointIP :: string where "caEndpointIP = ''10.0.0.1''"

definition httpMethodPrefixes :: "string list" where
  "httpMethodPrefixes = [''GET '', ''POST '', ''PUT '', ''HEAD '', ''DELETE '', ''OPTIONS '', ''PATCH '', ''TRACE '', ''CONNECT '']"

record 're flowCtx =
  fc_cs :: "'re captureState"
  fc_env :: nat
  fc_dstIP :: string
  fc_dstPort :: int
  fc_dstAddr :: string
  fc_srcAddr :: string

record connMeta =
  me_connID :: string
  me_scheme :: string
  me_client :: string
  me_server :: string
  me_sni :: string
  me_alpn :: string
  me_defaultHost :: string
  me_served :: nat

definition shouldPeek :: "'re capGlobals \<Rightarrow> 're captureState \<Rightarrow> string \<Rightarrow> int \<Rightarrow> bool" where
  "shouldPeek g cs dstIP port =
     (if dstIP = caEndpointIP \<and> port = 80 then cs_caProfile cs \<noteq> None \<or> cs_minter cs \<noteq> None
      else if \<not> cc_Enabled (cs_cfg cs) \<or> \<not> isActive g (cs_rec cs) then False
      else if port = 80 \<or> port = 443 \<or> port = 8080 \<or> port = 8443 then True
      else hasExplicitPort (Some (cs_hosts cs)) port)"

definition isWebPort :: "int \<Rightarrow> bool" where
  "isWebPort port \<longleftrightarrow> port = 80 \<or> port = 443 \<or> port = 8080 \<or> port = 8443"

definition peekWait :: "'re captureState \<Rightarrow> int \<Rightarrow> int" where
  "peekWait cs port =
     (if isWebPort port then peekTimeoutWeb
      else if ports (cs_hosts cs) port then peekTimeoutExplicit else peekTimeoutAnyPort)"

fun methodPrefix :: "string \<Rightarrow> string list \<Rightarrow> bool" where
  "methodPrefix s [] = False"
| "methodPrefix s (m # ms) = (if HasPrefix m s \<or> HasPrefix s m then 3 \<le> length s else methodPrefix s ms)"

definition looksLikeHTTP :: "(string \<Rightarrow> nat) \<Rightarrow> peekConn \<Rightarrow> bool \<times> peekConn" where
  "looksLikeHTTP rd pc = (case peek rd 8 pc of (s, e, pc1) \<Rightarrow> (methodPrefix s httpMethodPrefixes, pc1))"

definition hostForURL :: "string \<Rightarrow> string \<Rightarrow> int \<Rightarrow> int \<Rightarrow> string" where
  "hostForURL name ip port defaultPort =
     (let h = (if name \<noteq> [] then name else if Contains ip '':'' then ''['' @ ip @ '']'' else ip)
      in if port \<noteq> defaultPort then h @ '':'' @ (if port < 0 then ''-'' @ Itoa (nat (- port)) else Itoa (nat port)) else h)"

definition isCertRejection :: "string \<Rightarrow> bool" where
  "isCertRejection msg =
     (Contains msg ''remote error'' \<and>
      list_ex (Contains msg) [''bad certificate'', ''unknown certificate authority'', ''certificate unknown'', ''unknown certificate'',
        ''certificate required''])"

definition filterALPN :: "string list \<Rightarrow> bool \<Rightarrow> string list" where
  "filterALPN offered h2 = filter (\<lambda>p. p = ''http/1.1'' \<or> (p = ''h2'' \<and> h2)) offered"

text \<open>The recorder in force now.\<close>

definition fcRec :: "'re capGlobals \<Rightarrow> nat option" where
  "fcRec g = (if recording g (g_cur g) then Option.bind (g_cur g) cs_rec else None)"

text \<open>An event with a fresh transaction id, on the recorder if there is one.\<close>

definition recordRow :: "'re capLib \<Rightarrow> nat option \<Rightarrow> bytes \<Rightarrow> 're capGlobals \<Rightarrow> 're capGlobals" where
  "recordRow L r row g =
     (case r of None \<Rightarrow> g | Some i \<Rightarrow> updRec i (\<lambda>x. rec_event (cl_json L) (EvOther row) (snd (nextTxID x))) g)"

definition newConnID :: "nat option \<Rightarrow> 're capGlobals \<Rightarrow> string \<times> 're capGlobals" where
  "newConnID r g =
     (case r of None \<Rightarrow> ([], g) | Some i \<Rightarrow> (fst (nextConnID (g_recs g ! i)), updRec i (\<lambda>x. snd (nextConnID x)) g))"

definition lookupName :: "nat \<Rightarrow> string \<Rightarrow> 're capGlobals \<Rightarrow> string \<times> 're capGlobals" where
  "lookupName env ip g =
     (case cache_lookup (Some (ce_dns (g_envs g ! env))) ip of
        (name, Some c) \<Rightarrow> (name, updEnv env (\<lambda>e. e\<lparr>ce_dns := c\<rparr>) g)
      | (name, None) \<Rightarrow> (name, g))"

subsection \<open>Definitions: the TLS decision\<close>

record tlsPeers =
  tw_rd :: "string \<Rightarrow> nat"
  tw_reads :: "pkOp list"
  tw_hello :: "string \<Rightarrow> (string \<times> string list) option"
  tw_dial :: bool
  tw_redial :: bool
  tw_upstream :: "string \<Rightarrow> string list \<Rightarrow> bool \<Rightarrow> bool + string"
  tw_mint :: "string \<Rightarrow> bool"
  tw_client :: "string list \<Rightarrow> string + string"
  tw_requests :: nat
  tw_now :: int

record tlsDecision =
  td_pass :: string
  td_sni :: string
  td_host :: string
  td_upstream :: bool
  td_meta :: "connMeta option"
  td_held :: bool

definition updSem :: "nat \<Rightarrow> (nat \<Rightarrow> nat) \<Rightarrow> 're capGlobals \<Rightarrow> 're capGlobals" where
  "updSem i f g = g\<lparr>g_sems := (g_sems g)[i := (g_sems g ! i)\<lparr>sm_used := f (sm_used (g_sems g ! i))\<rparr>]\<rparr>"

definition takeSlot :: "'re flowCtx \<Rightarrow> 're capGlobals \<Rightarrow> ('re capGlobals \<times> bool)" where
  "takeSlot fc g =
     (let i = cs_mitmSem (fc_cs fc); s = g_sems g ! i
      in if sm_used s < sm_cap s
         then (updEnv (fc_env fc) (\<lambda>e. e\<lparr>ce_mitmLive := ce_mitmLive e + 1\<rparr>) (updSem i Suc g), True)
         else (updEnv (fc_env fc) (\<lambda>e. e\<lparr>ce_overflow := ce_overflow e + 1\<rparr>) g, False))"

definition releaseSlot :: "'re flowCtx \<Rightarrow> bool \<Rightarrow> 're capGlobals \<Rightarrow> 're capGlobals" where
  "releaseSlot fc held g =
     (if held then updEnv (fc_env fc) (\<lambda>e. e\<lparr>ce_mitmLive := ce_mitmLive e - 1\<rparr>) (updSem (cs_mitmSem (fc_cs fc)) (\<lambda>u. u - 1) g)
      else g)"

text \<open>After the slot is taken: dial and handshake upstream, mint the leaf.\<close>

definition interceptTLS ::
  "'re capLib \<Rightarrow> tlsPeers \<Rightarrow> 're flowCtx \<Rightarrow> string \<Rightarrow> string \<Rightarrow> string list \<Rightarrow> tlsDecision \<Rightarrow> 're capGlobals \<Rightarrow>
     're capGlobals \<times> tlsDecision \<times> (string list \<times> bool) option \<times> string" where
  "interceptTLS L W fc sni name protos d g =
     (let cs = fc_cs fc; rec = fcRec g
      in if \<not> tw_dial W then (recordRow L rec [] g, d, None, ''upstreamDial'')
         else case tw_upstream W (if sni = [] then fc_dstIP fc else sni) protos (cc_SkipUpstreamVerify (cs_cfg cs)) of
                Inl asked \<Rightarrow> (recordRow L rec [] g, d, None, if asked then ''clientCertRequired'' else ''upstreamTLS'')
              | Inr alpn \<Rightarrow>
                  if \<not> tw_mint W name then (g, d, None, ''mintFailed'')
                  else
                    let (connID, g1) = newConnID rec g;
                        meta = \<lparr> me_connID = connID, me_scheme = ''https'', me_client = fc_srcAddr fc, me_server = fc_dstAddr fc,
                                 me_sni = sni, me_alpn = [], me_defaultHost = hostForURL name (fc_dstIP fc) (fc_dstPort fc) 443, me_served = 0 \<rparr>
                    in (g1, d\<lparr>td_upstream := True, td_meta := Some meta\<rparr>,
                        Some ((if alpn \<noteq> [] then [alpn] else []), rec \<noteq> None \<and> cc_Pcap (cs_cfg cs)), []))"

definition decideTLS ::
  "'re capLib \<Rightarrow> tlsPeers \<Rightarrow> 're flowCtx \<Rightarrow> string \<Rightarrow> string list \<Rightarrow> 're capGlobals \<Rightarrow>
     're capGlobals \<times> tlsDecision \<times> (string list \<times> bool) option \<times> string" where
  "decideTLS L W fc serverName offered g =
     (let cs = fc_cs fc;
          sni = ToLower serverName;
          name = (if sni = [] then fc_dstIP fc else sni);
          d = \<lparr> td_pass = [], td_sni = sni, td_host = name, td_upstream = False, td_meta = None, td_held = False \<rparr>;
          protos = filterALPN offered (cc_EnableH2 (cs_cfg cs))
      in if sni = [] \<and> \<not> hostMatch (Some (cs_hosts cs)) (fc_dstIP fc) (fc_dstPort fc) then (g, d, None, ''noSNI'')
         else if \<not> hostMatch (Some (cs_hosts cs)) name (fc_dstPort fc) then (g, d, None, ''notMatched'')
         else if isBypassed (g_envs g ! fc_env fc) name then (g, d, None, ''bypassed'')
         else if cs_minter cs = None then (g, d, None, ''noCA'')
         else if offered \<noteq> [] \<and> protos = [] then (g, d, None, ''alpn'')
         else case takeSlot fc g of
                (g1, False) \<Rightarrow> (g1, d, None, ''capacity'')
              | (g1, True) \<Rightarrow> interceptTLS L W fc sni name protos (d\<lparr>td_held := True\<rparr>) g1)"

subsection \<open>Definitions: serving a flow\<close>

datatype flowEnd = Closed | Relayed string peekConn | Unreachable string | ServedTLS string

definition relayPeeked :: "'re capLib \<Rightarrow> tlsPeers \<Rightarrow> 're flowCtx \<Rightarrow> peekConn \<Rightarrow> string \<Rightarrow> 're capGlobals \<Rightarrow> 're capGlobals \<times> flowEnd" where
  "relayPeeked L W fc pc reason g =
     (let rec = fcRec g;
          done' = (if tw_redial W then Relayed reason pc else Unreachable reason)
      in case rec of
           None \<Rightarrow> (g, done')
         | Some i \<Rightarrow> (recordRow L rec [] (snd (lookupName (fc_env fc) (fc_dstIP fc) g)), done'))"

definition bypassHost :: "'re flowCtx \<Rightarrow> string \<Rightarrow> 're capGlobals \<Rightarrow> 're capGlobals" where
  "bypassHost fc host g =
     (if cc_AutoBypassPinned (cs_cfg (fc_cs fc)) then updEnv (fc_env fc) (\<lambda>e. e\<lparr>ce_bypass := host # ce_bypass e\<rparr>) g else g)"

text \<open>What follows an interception: the client's handshake, its requests and the pinning statistics.\<close>

definition finishTLS :: "'re capLib \<Rightarrow> tlsPeers \<Rightarrow> 're flowCtx \<Rightarrow> nat option \<Rightarrow> tlsDecision \<Rightarrow> string list \<Rightarrow> 're capGlobals \<Rightarrow> 're capGlobals \<times> flowEnd" where
  "finishTLS L W fc rec d protos g =
     (case tw_client W protos of
        Inl detail \<Rightarrow>
          (if isCertRejection detail then recordRow L rec [] (bypassHost fc (td_host d) g) else g, Closed)
      | Inr alpn \<Rightarrow>
          (if tw_requests W = 0 then
             case noteEmptyMITM (tw_now W) (td_host d) (g_envs g ! fc_env fc) of
               (e1, pinned) \<Rightarrow>
                 let g1 = updEnv (fc_env fc) (\<lambda>_. e1) g
                 in if pinned then recordRow L rec [] (bypassHost fc (td_host d) g1) else g1
           else updEnv (fc_env fc) (noteServedMITM (td_host d)) g,
           ServedTLS alpn))"

definition serveTLS :: "'re capLib \<Rightarrow> tlsPeers \<Rightarrow> 're flowCtx \<Rightarrow> peekConn \<Rightarrow> 're capGlobals \<Rightarrow> 're capGlobals \<times> flowEnd" where
  "serveTLS L W fc pc g =
     (let rec = fcRec g
      in case pk_run (tw_rd W) (tw_reads W) (startRecording pc) of
           None \<Rightarrow> (g, Closed)
         | Some (x, pc1) \<Rightarrow>
             (case tw_hello W x of
                None \<Rightarrow> (g, Closed)
              | Some (serverName, offered) \<Rightarrow>
                  (case decideTLS L W fc serverName offered g of
                     (g1, d, None, pass) \<Rightarrow>
                       (case relayPeeked L W fc (replay (pc1\<lparr>pk_discard := True, pk_recording := False\<rparr>)) pass g1 of
                          (g2, r) \<Rightarrow> (releaseSlot fc (td_held d) g2, r))
                   | (g1, d, Some (protos, keylog), pass) \<Rightarrow>
                       (case finishTLS L W fc rec d protos g1 of
                          (g2, r) \<Rightarrow> (releaseSlot fc (td_held d) g2, r)))))"

text \<open>
  \<open>serveCapturedFlow\<close> up to the server it hands the flow to. \<open>timeout\<close> says whether a read
  that brought nothing ran into the deadline.
\<close>

datatype flowClass = ToCA | Dropped | ToRelay string peekConn | ToTLS peekConn | ToHTTP string peekConn

definition serveCapturedFlow :: "(string \<Rightarrow> nat) \<Rightarrow> bool \<Rightarrow> 're flowCtx \<Rightarrow> string \<Rightarrow> 're capGlobals \<Rightarrow> 're capGlobals \<times> flowClass" where
  "serveCapturedFlow rd timeout fc client g =
     (if fc_dstIP fc = caEndpointIP \<and> fc_dstPort fc = 80 then (g, ToCA)
      else
        case peek rd 1 (newPeekConn client) of
          (first, e, pc) \<Rightarrow>
            if first = [] then (g, if e \<noteq> None \<and> timeout then ToRelay ''notHTTP'' pc else Dropped)
            else if first ! 0 = CHR 0x16 then (g, ToTLS pc)
            else case looksLikeHTTP rd pc of
                   (True, pc1) \<Rightarrow>
                     (case lookupName (fc_env fc) (fc_dstIP fc) g of
                        (name, g1) \<Rightarrow> (snd (newConnID (fcRec g1) g1), ToHTTP (hostForURL name (fc_dstIP fc) (fc_dstPort fc) 80) pc1))
                 | (False, pc1) \<Rightarrow> (g, ToRelay ''notHTTP'' pc1))"

definition recordRawTunnel :: "'re capLib \<Rightarrow> 're captureState option \<Rightarrow> nat option \<Rightarrow> string \<Rightarrow> 're capGlobals \<Rightarrow> 're capGlobals" where
  "recordRawTunnel L cs env dstIP g =
     (case (cs, env) of
        (Some s, Some i) \<Rightarrow>
          if recording g cs then recordRow L (cs_rec s) [] (snd (lookupName i dstIP g)) else g
      | _ \<Rightarrow> g)"

subsection \<open>Slots\<close>

text \<open>The parts of the globals the slots are counted in.\<close>

definition slots :: "nat \<Rightarrow> 're capGlobals \<Rightarrow> capSem list \<times> int \<times> nat" where
  "slots env g = (g_sems g, ce_mitmLive (g_envs g ! env), length (g_envs g))"

lemma slots_updEnv:
  "(\<And>e. ce_mitmLive (f e) = ce_mitmLive e) \<Longrightarrow> slots env (updEnv i f g) = slots env g"
  by (cases "env < length (g_envs g)"; cases "i = env") (auto simp: slots_def updEnv_def not_less list_update_beyond)

lemma slots_updRec [simp]: "slots env (updRec i f g) = slots env g"
  by (simp add: slots_def)

lemma slots_recordRow [simp]: "slots env (recordRow L r row g) = slots env g"
  by (simp add: recordRow_def split: option.split)

lemma slots_newConnID [simp]: "slots env (snd (newConnID r g)) = slots env g"
  by (simp add: newConnID_def split: option.split)

lemma slots_lookupName [simp]: "slots env (snd (lookupName i ip g)) = slots env g"
  by (auto simp: lookupName_def slots_updEnv split: prod.split option.split)

lemma slots_bypassHost [simp]: "slots env (bypassHost fc h g) = slots env g"
  by (simp add: bypassHost_def slots_updEnv)

lemma slots_relayPeeked: "slots env (fst (relayPeeked L W fc pc reason g)) = slots env g"
  by (simp add: relayPeeked_def Let_def split: option.split)

lemma noteEmptyMITM_live: "ce_mitmLive (fst (noteEmptyMITM now h e)) = ce_mitmLive e"
  by (simp add: noteEmptyMITM_def Let_def)

lemma slots_finishTLS: "slots env (fst (finishTLS L W fc r d protos g)) = slots env g"
proof (cases "tw_client W protos")
  case (Inl detail)
  then show ?thesis by (simp add: finishTLS_def)
next
  case (Inr alpn)
  obtain e1 pinned where n: "noteEmptyMITM (tw_now W) (td_host d) (g_envs g ! fc_env fc) = (e1, pinned)" by fastforce
  then have l: "ce_mitmLive e1 = ce_mitmLive (g_envs g ! fc_env fc)" using noteEmptyMITM_live by (metis fst_conv)
  then have u: "slots env (updEnv (fc_env fc) (\<lambda>_. e1) g) = slots env g"
    by (cases "env = fc_env fc"; cases "env < length (g_envs g)") (auto simp: slots_def updEnv_def not_less list_update_beyond)
  show ?thesis using Inr n u by (simp add: finishTLS_def Let_def slots_updEnv noteServedMITM_def)
qed

lemma takeSlot_cases:
  obtains (full) g1 where "takeSlot fc g = (g1, False)" "slots (fc_env fc) g1 = slots (fc_env fc) g"
      "\<not> sm_used (g_sems g ! cs_mitmSem (fc_cs fc)) < sm_cap (g_sems g ! cs_mitmSem (fc_cs fc))"
  | (taken) g1 where "takeSlot fc g = (g1, True)"
      "g1 = updEnv (fc_env fc) (\<lambda>e. e\<lparr>ce_mitmLive := ce_mitmLive e + 1\<rparr>) (updSem (cs_mitmSem (fc_cs fc)) Suc g)"
      "sm_used (g_sems g ! cs_mitmSem (fc_cs fc)) < sm_cap (g_sems g ! cs_mitmSem (fc_cs fc))"
proof (cases "sm_used (g_sems g ! cs_mitmSem (fc_cs fc)) < sm_cap (g_sems g ! cs_mitmSem (fc_cs fc))")
  case True
  then show ?thesis using taken by (simp add: takeSlot_def Let_def)
next
  case False
  then show ?thesis using full by (simp add: takeSlot_def Let_def slots_updEnv)
qed

lemma release_taken:
  assumes "cs_mitmSem (fc_cs fc) < length (g_sems g)" "fc_env fc < length (g_envs g)"
    and "slots (fc_env fc) h =
      slots (fc_env fc) (updEnv (fc_env fc) (\<lambda>e. e\<lparr>ce_mitmLive := ce_mitmLive e + 1\<rparr>) (updSem (cs_mitmSem (fc_cs fc)) Suc g))"
  shows "slots (fc_env fc) (releaseSlot fc True h) = slots (fc_env fc) g"
  using assms by (simp add: slots_def releaseSlot_def updEnv_def updSem_def)

lemma interceptTLS_slots:
  assumes "interceptTLS L W fc sni name protos d g = (g1, d1, c, pass)"
  shows "slots env g1 = slots env g \<and> td_held d1 = td_held d \<and> td_host d1 = td_host d \<and>
    (c \<noteq> None \<longrightarrow> pass = []) \<and>
    (c \<noteq> None \<longleftrightarrow> tw_dial W \<and> \<not> isl (tw_upstream W (if sni = [] then fc_dstIP fc else sni) protos (cc_SkipUpstreamVerify (cs_cfg (fc_cs fc)))) \<and>
       tw_mint W name) \<and>
    (\<forall>ps k alpn. c = Some (ps, k) \<longrightarrow>
       tw_upstream W (if sni = [] then fc_dstIP fc else sni) protos (cc_SkipUpstreamVerify (cs_cfg (fc_cs fc))) = Inr alpn \<longrightarrow>
       ps = (if alpn = [] then [] else [alpn]))"
proof (cases "tw_upstream W (if sni = [] then fc_dstIP fc else sni) protos (cc_SkipUpstreamVerify (cs_cfg (fc_cs fc)))")
  case (Inl asked)
  then show ?thesis using assms by (auto simp: interceptTLS_def Let_def split: if_splits)
next
  case (Inr alpn)
  obtain cid g2 where n: "newConnID (fcRec g) g = (cid, g2)" by fastforce
  then have s: "slots env g2 = slots env g" using slots_newConnID by (metis snd_conv)
  show ?thesis using assms Inr n s by (auto simp: interceptTLS_def Let_def split: if_splits)
qed

text \<open>Exactly when a connection is intercepted, and with what.\<close>

definition intercepts :: "tlsPeers \<Rightarrow> 're flowCtx \<Rightarrow> string \<Rightarrow> string list \<Rightarrow> 're capGlobals \<Rightarrow> bool" where
  "intercepts W fc serverName offered g \<longleftrightarrow>
     (let cs = fc_cs fc;
          name = (if serverName = [] then fc_dstIP fc else ToLower serverName);
          protos = filterALPN offered (cc_EnableH2 (cs_cfg cs));
          s = g_sems g ! cs_mitmSem cs
      in hostMatch (Some (cs_hosts cs)) name (fc_dstPort fc) \<and> \<not> isBypassed (g_envs g ! fc_env fc) name \<and> cs_minter cs \<noteq> None \<and>
         (offered = [] \<or> protos \<noteq> []) \<and> sm_used s < sm_cap s \<and> tw_dial W \<and>
         \<not> isl (tw_upstream W name protos (cc_SkipUpstreamVerify (cs_cfg cs))) \<and> tw_mint W name)"

text \<open>The protocols the client is then offered: the one the upstream server chose.\<close>

definition offeredALPN :: "tlsPeers \<Rightarrow> 're flowCtx \<Rightarrow> string \<Rightarrow> string list \<Rightarrow> string list" where
  "offeredALPN W fc serverName offered =
     (case tw_upstream W (if serverName = [] then fc_dstIP fc else ToLower serverName)
             (filterALPN offered (cc_EnableH2 (cs_cfg (fc_cs fc)))) (cc_SkipUpstreamVerify (cs_cfg (fc_cs fc))) of
        Inl asked \<Rightarrow> []
      | Inr alpn \<Rightarrow> if alpn = [] then [] else [alpn])"

lemma ToLower_Nil [simp]: "ToLower s = [] \<longleftrightarrow> s = []"
  by (simp add: ToLower_def)

lemma decideTLS_result:
  assumes "decideTLS L W fc serverName offered g = (g1, d, c, pass)"
    and "cs_mitmSem (fc_cs fc) < length (g_sems g)" and "fc_env fc < length (g_envs g)"
  shows "(c \<noteq> None \<longleftrightarrow> intercepts W fc serverName offered g) \<and>
    (\<forall>ps k. c = Some (ps, k) \<longrightarrow> ps = offeredALPN W fc serverName offered) \<and>
    (slots (fc_env fc) h = slots (fc_env fc) g1 \<longrightarrow> slots (fc_env fc) (releaseSlot fc (td_held d) h) = slots (fc_env fc) g)"
proof -
  let ?cs = "fc_cs fc"
  define sni where "sni = ToLower serverName"
  define name where "name = (if sni = [] then fc_dstIP fc else sni)"
  define protos where "protos = filterALPN offered (cc_EnableH2 (cs_cfg ?cs))"
  define d0 where "d0 = \<lparr> td_pass = [], td_sni = sni, td_host = name, td_upstream = False, td_meta = None, td_held = False \<rparr>"
  define early where "early \<longleftrightarrow> (sni = [] \<and> \<not> hostMatch (Some (cs_hosts ?cs)) (fc_dstIP fc) (fc_dstPort fc)) \<or>
     \<not> hostMatch (Some (cs_hosts ?cs)) name (fc_dstPort fc) \<or> isBypassed (g_envs g ! fc_env fc) name \<or> cs_minter ?cs = None \<or>
     (offered \<noteq> [] \<and> protos = [])"
  have nm: "name = (if serverName = [] then fc_dstIP fc else ToLower serverName)" by (simp add: name_def sni_def)
  have ic: "intercepts W fc serverName offered g \<longleftrightarrow> \<not> early \<and> sm_used (g_sems g ! cs_mitmSem ?cs) < sm_cap (g_sems g ! cs_mitmSem ?cs) \<and>
      tw_dial W \<and> \<not> isl (tw_upstream W name protos (cc_SkipUpstreamVerify (cs_cfg ?cs))) \<and> tw_mint W name"
    unfolding intercepts_def Let_def nm [symmetric] protos_def [symmetric] early_def by (auto simp: nm name_def sni_def)
  show ?thesis
  proof (cases early)
    case True
    then have "g1 = g \<and> d = d0 \<and> c = None"
      using assms(1) unfolding decideTLS_def Let_def sni_def [symmetric] name_def [symmetric] protos_def [symmetric] d0_def [symmetric] early_def
      by (auto split: if_splits)
    with True ic show ?thesis by (simp add: d0_def releaseSlot_def)
  next
    case late: False
    have e: "(case takeSlot fc g of (g1, False) \<Rightarrow> (g1, d0, None, ''capacity'')
              | (g1, True) \<Rightarrow> interceptTLS L W fc sni name protos (d0\<lparr>td_held := True\<rparr>) g1) = (g1, d, c, pass)"
      using assms(1) late unfolding decideTLS_def Let_def sni_def [symmetric] name_def [symmetric] protos_def [symmetric] d0_def [symmetric] early_def
      by auto
    show ?thesis
    proof (cases rule: takeSlot_cases [of fc g])
      case (full g2)
      then show ?thesis using e ic by (auto simp: d0_def releaseSlot_def)
    next
      case (taken g2)
      then have i: "interceptTLS L W fc sni name protos (d0\<lparr>td_held := True\<rparr>) g2 = (g1, d, c, pass)" using e by simp
      note I = interceptTLS_slots [OF i, of "fc_env fc"]
      have "td_held d" using I by simp
      moreover have n: "(if sni = [] then fc_dstIP fc else sni) = name" by (simp add: name_def)
      moreover have "ps = offeredALPN W fc serverName offered" if "c = Some (ps, k)" for ps k
        using I that unfolding offeredALPN_def nm [symmetric] protos_def [symmetric] n by (cases "tw_upstream W name protos (cc_SkipUpstreamVerify (cs_cfg ?cs))") auto
      ultimately show ?thesis
        using I ic late taken(3) release_taken [OF assms(2,3), of h] by (simp add: taken(2))
    qed
  qed
qed

lemma relayPeeked_end: "snd (relayPeeked L W fc pc reason g) = (if tw_redial W then Relayed reason pc else Unreachable reason)"
  by (simp add: relayPeeked_def Let_def split: option.split)

lemma finishTLS_end: "snd (finishTLS L W fc r d protos g) = (case tw_client W protos of Inl m \<Rightarrow> Closed | Inr alpn \<Rightarrow> ServedTLS alpn)"
  by (simp add: finishTLS_def split: sum.split prod.split)

subsection \<open>Properties\<close>


definition demoPeers :: tlsPeers where
  "demoPeers = \<lparr> tw_rd = (\<lambda>_. 100), tw_reads = [PkRead 5, PkRead 5], tw_hello = (\<lambda>x. Some (''API.example.com'', [''h2''])), tw_dial = True,
     tw_redial = True, tw_upstream = (\<lambda>_ _ _. Inr ''h2''), tw_mint = (\<lambda>_. True), tw_client = (\<lambda>_. Inr ''h2''), tw_requests = 1, tw_now = 0 \<rparr>"

definition demoFlow :: "int \<Rightarrow> unit flowCtx" where
  "demoFlow port = \<lparr> fc_cs = the (g_cur demoCapturing), fc_env = 0, fc_dstIP = ''93.184.216.34'', fc_dstPort = port,
     fc_dstAddr = ''93.184.216.34:443'', fc_srcAddr = ''10.0.0.2:5000'' \<rparr>"


end
