(* ===== verification/CertMint.thy ===== *)
theory CertMint
  imports GoNet
begin

text \<open>
  \<open>vpntunnel/certmint.go\<close>: the cache of minted leaf certificates. As in the code, the map points
  to elements of a list in order of use, and a name being minted is marked so that others wait
  for it. \<open>certFor\<close> gives up the lock while it mints, so it is two steps, before and after. A
  certificate is the template it was made from; \<open>crypto/x509\<close> says whether making it succeeds.
\<close>

subsection \<open>Definitions\<close>

definition leafCacheSize :: nat where "leafCacheSize = 64"

record leafCert =
  lc_commonName :: string
  lc_notBefore :: int
  lc_notAfter :: int
  lc_ip :: "addr option"
  lc_dns :: "string list"

record leafEntry =
  le_name :: string
  le_cert :: leafCert

record certMinter =
  cm_caNotAfter :: int
  cm_items :: "string \<Rightarrow> nat option"
  cm_lru :: "nat list"
  cm_elems :: "nat \<Rightarrow> leafEntry"
  cm_fresh :: nat
  cm_inflight :: "string list"

definition day :: int where "day = 24 * 3600 * 1000000000"

definition mintTemplate :: "certMinter \<Rightarrow> int \<Rightarrow> string \<Rightarrow> leafCert" where
  "mintTemplate m now name =
     (let notAfter = now + 365 * day
      in \<lparr> lc_commonName = name, lc_notBefore = now - day,
           lc_notAfter = (if cm_caNotAfter m < notAfter then cm_caNotAfter m else notAfter),
           lc_ip = ParseIP name, lc_dns = (if ParseIP name \<noteq> None then [] else [name]) \<rparr>)"

definition newCertMinter :: "int \<Rightarrow> certMinter" where
  "newCertMinter caNotAfter = \<lparr> cm_caNotAfter = caNotAfter, cm_items = (\<lambda>_. None), cm_lru = [],
     cm_elems = (\<lambda>_. \<lparr> le_name = [], le_cert = \<lparr> lc_commonName = [], lc_notBefore = 0, lc_notAfter = 0, lc_ip = None, lc_dns = [] \<rparr> \<rparr>),
     cm_fresh = 0, cm_inflight = [] \<rparr>"

datatype mintStart = Cached leafCert | Waits | Mints

definition certFor_begin :: "string \<Rightarrow> certMinter \<Rightarrow> certMinter \<times> mintStart" where
  "certFor_begin name m =
     (case cm_items m name of
        Some el \<Rightarrow> (m\<lparr>cm_lru := el # filter (\<lambda>e. e \<noteq> el) (cm_lru m)\<rparr>, Cached (le_cert (cm_elems m el)))
      | None \<Rightarrow>
          if name \<in> set (cm_inflight m) then (m, Waits)
          else (m\<lparr>cm_inflight := name # cm_inflight m\<rparr>, Mints))"

function cm_evict :: "certMinter \<Rightarrow> certMinter" where
  "cm_evict m =
     (if length (cm_lru m) \<le> leafCacheSize then m
      else
        let old = last (cm_lru m)
        in cm_evict (m\<lparr>cm_lru := butlast (cm_lru m), cm_items := (cm_items m)(le_name (cm_elems m old) := None)\<rparr>))"
  by pat_completeness auto
termination
  by (relation "measure (\<lambda>m. length (cm_lru m))") (auto simp: Let_def leafCacheSize_def)

declare cm_evict.simps [simp del]

text \<open>The second step of the caller that mints; the waiting callers return what it returns.\<close>

definition certFor_end :: "string \<Rightarrow> leafCert option \<Rightarrow> certMinter \<Rightarrow> certMinter" where
  "certFor_end name res m =
     (let m1 = m\<lparr>cm_inflight := remove1 name (cm_inflight m)\<rparr>
      in case res of
           None \<Rightarrow> m1
         | Some c \<Rightarrow>
             cm_evict (m1\<lparr>cm_elems := (cm_elems m1)(cm_fresh m1 := \<lparr> le_name = name, le_cert = c \<rparr>),
                          cm_items := (cm_items m1)(name \<mapsto> cm_fresh m1), cm_lru := cm_fresh m1 # cm_lru m1, cm_fresh := cm_fresh m1 + 1\<rparr>))"

text \<open>Callers interleaved: any may begin at any time, a name in flight may finish with or without a certificate.\<close>

inductive mint_step :: "certMinter \<Rightarrow> certMinter \<Rightarrow> bool" where
  begins: "mint_step m (fst (certFor_begin name m))"
| minted: "name \<in> set (cm_inflight m) \<Longrightarrow> mint_step m (certFor_end name (Some (mintTemplate m now name)) m)"
| failed: "name \<in> set (cm_inflight m) \<Longrightarrow> mint_step m (certFor_end name None m)"

subsection \<open>The cache\<close>

definition minter_ok :: "certMinter \<Rightarrow> bool" where
  "minter_ok m \<longleftrightarrow>
     distinct (cm_lru m) \<and> length (cm_lru m) \<le> leafCacheSize \<and> (\<forall>el \<in> set (cm_lru m). el < cm_fresh m) \<and>
     (\<forall>name el. cm_items m name = Some el \<longleftrightarrow> el \<in> set (cm_lru m) \<and> le_name (cm_elems m el) = name) \<and>
     distinct (cm_inflight m) \<and> (\<forall>name \<in> set (cm_inflight m). cm_items m name = None) \<and>
     (\<forall>el \<in> set (cm_lru m). \<exists>now. le_cert (cm_elems m el) = mintTemplate m now (le_name (cm_elems m el)))"

lemma mintTemplate_cong: "cm_caNotAfter m' = cm_caNotAfter m \<Longrightarrow> mintTemplate m' = mintTemplate m"
  by (simp add: mintTemplate_def fun_eq_iff Let_def)

lemma begin_ok: "minter_ok m \<Longrightarrow> minter_ok (fst (certFor_begin name m))"
proof (cases "cm_items m name")
  case (Some el)
  assume ok: "minter_ok m"
  then have el: "el \<in> set (cm_lru m)" using Some by (simp add: minter_ok_def)
  define q where "q = el # filter (\<lambda>e. e \<noteq> el) (cm_lru m)"
  have s: "set q = set (cm_lru m)" using el by (auto simp: q_def)
  have d: "distinct q" using ok by (simp add: q_def minter_ok_def)
  have b: "fst (certFor_begin name m) = m\<lparr>cm_lru := q\<rparr>" using Some by (simp add: certFor_begin_def q_def)
  have "length q = length (cm_lru m)" using s d ok distinct_card by (metis minter_ok_def)
  then show ?thesis
    using ok s d mintTemplate_cong [of "m\<lparr>cm_lru := q\<rparr>" m] b unfolding minter_ok_def by simp
next
  case None
  assume ok: "minter_ok m"
  have "mintTemplate (m\<lparr>cm_inflight := x\<rparr>) = mintTemplate m" for x by (rule mintTemplate_cong) simp
  then show ?thesis using ok None unfolding minter_ok_def by (simp add: certFor_begin_def)
qed

text \<open>The invariant without the bound, as it holds inside the eviction loop.\<close>

definition linked :: "certMinter \<Rightarrow> bool" where
  "linked m \<longleftrightarrow>
     distinct (cm_lru m) \<and> (\<forall>el \<in> set (cm_lru m). el < cm_fresh m) \<and>
     (\<forall>name el. cm_items m name = Some el \<longleftrightarrow> el \<in> set (cm_lru m) \<and> le_name (cm_elems m el) = name) \<and>
     distinct (cm_inflight m) \<and> (\<forall>name \<in> set (cm_inflight m). cm_items m name = None) \<and>
     (\<forall>el \<in> set (cm_lru m). \<exists>now. le_cert (cm_elems m el) = mintTemplate m now (le_name (cm_elems m el)))"

lemma minter_ok_linked: "minter_ok m \<longleftrightarrow> linked m \<and> length (cm_lru m) \<le> leafCacheSize"
  by (auto simp: minter_ok_def linked_def)

lemma linked_evict_one:
  assumes ok: "linked m" and ne: "cm_lru m \<noteq> []"
  shows "linked (m\<lparr>cm_lru := butlast (cm_lru m), cm_items := (cm_items m)(le_name (cm_elems m (last (cm_lru m))) := None)\<rparr>)"
proof -
  let ?old = "last (cm_lru m)"
  define B where "B = butlast (cm_lru m)"
  have split: "cm_lru m = B @ [?old]" using ne by (simp add: B_def)
  have "distinct (B @ [?old])" using ok split by (simp add: linked_def)
  then have d: "distinct B" "?old \<notin> set B" by simp_all
  have s: "set (cm_lru m) = insert ?old (set B)" using arg_cong [OF split, of set] by simp
  have i: "cm_items m n = Some e \<longleftrightarrow> e \<in> set (cm_lru m) \<and> le_name (cm_elems m e) = n" for n e using ok by (simp add: linked_def)
  have uniq: "le_name (cm_elems m e) \<noteq> le_name (cm_elems m ?old)" if "e \<in> set B" for e
    using i [of "le_name (cm_elems m e)" e] i [of "le_name (cm_elems m e)" ?old] that d(2) s by auto
  have t: "mintTemplate (m\<lparr>cm_lru := x, cm_items := y\<rparr>) = mintTemplate m" for x y by (rule mintTemplate_cong) simp
  show ?thesis using ok d s uniq i unfolding linked_def B_def [symmetric] by (auto simp: t)
qed

lemma evict_ok: "linked m \<Longrightarrow> minter_ok (cm_evict m)"
proof (induction m rule: cm_evict.induct)
  case (1 m)
  show ?case
  proof (cases "length (cm_lru m) \<le> leafCacheSize")
    case True
    then show ?thesis using 1(2) by (simp add: cm_evict.simps [of m] minter_ok_linked)
  next
    case False
    then have "cm_lru m \<noteq> []" by auto
    from 1(1) [OF False refl linked_evict_one [OF 1(2) this]] show ?thesis
      using False by (simp add: cm_evict.simps [of m] Let_def)
  qed
qed

lemma end_ok:
  assumes ok: "minter_ok m" and inf: "name \<in> set (cm_inflight m)"
    and res: "\<And>c. res = Some c \<Longrightarrow> \<exists>now. c = mintTemplate m now name"
  shows "minter_ok (certFor_end name res m)"
proof -
  define m1 where "m1 = m\<lparr>cm_inflight := remove1 name (cm_inflight m)\<rparr>"
  have t1: "mintTemplate m1 = mintTemplate m" by (rule mintTemplate_cong) (simp add: m1_def)
  have fl: "set (cm_inflight m1) = set (cm_inflight m) - {name}" "distinct (cm_inflight m1)"
    using ok by (simp_all add: m1_def minter_ok_def)
  have ok1: "minter_ok m1" using ok fl unfolding minter_ok_def t1 by (auto simp: m1_def)
  show ?thesis
  proof (cases res)
    case None
    then show ?thesis using ok1 by (simp add: certFor_end_def m1_def)
  next
    case (Some c)
    then obtain now where c: "c = mintTemplate m now name" using res by blast
    define m2 where "m2 = m1\<lparr>cm_elems := (cm_elems m1)(cm_fresh m1 := \<lparr> le_name = name, le_cert = c \<rparr>),
       cm_items := (cm_items m1)(name \<mapsto> cm_fresh m1), cm_lru := cm_fresh m1 # cm_lru m1, cm_fresh := cm_fresh m1 + 1\<rparr>"
    have t2: "mintTemplate m2 = mintTemplate m1" by (rule mintTemplate_cong) (simp add: m2_def)
    have none: "cm_items m1 name = None" using ok inf by (simp add: minter_ok_def m1_def)
    have fr: "cm_fresh m1 \<notin> set (cm_lru m1)" using ok1 by (auto simp: minter_ok_def)
    have nm: "el \<in> set (cm_lru m1) \<Longrightarrow> le_name (cm_elems m1 el) \<noteq> name" for el
    proof
      assume "el \<in> set (cm_lru m1)" "le_name (cm_elems m1 el) = name"
      then have "cm_items m1 name = Some el" using ok1 by (simp add: minter_ok_def)
      then show False using none by simp
    qed
    have "linked m2"
      using ok1 fl none fr nm c t1 unfolding linked_def minter_ok_def t2 by (auto simp: m2_def less_Suc_eq)
    moreover have "certFor_end name res m = cm_evict m2" by (simp add: certFor_end_def Some m1_def m2_def Let_def)
    ultimately show ?thesis using evict_ok by simp
  qed
qed

lemma mint_step_ok: "mint_step m m' \<Longrightarrow> minter_ok m \<Longrightarrow> minter_ok m'"
  by (induction rule: mint_step.induct) (auto intro: begin_ok end_ok)

interpretation minting: kept_invariant mint_step "newCertMinter na" minter_ok for na
  by unfold_locales (simp add: minter_ok_def newCertMinter_def, rule mint_step_ok)

subsection \<open>Properties\<close>

text \<open>
  C16: a client is never shown a certificate for another host. However the callers
  interleave, a cached leaf handed out for a name was minted for exactly that name, with an
  address or DNS entry for it alone and not valid beyond the CA; at most 64 leaves are
  kept, and no name is minted twice at a time.
\<close>

theorem certFor_own_name:
  assumes "mint_step\<^sup>*\<^sup>* (newCertMinter na) m"
  shows "length (cm_lru m) \<le> leafCacheSize \<and> distinct (cm_inflight m) \<and>
    (\<forall>m' c. certFor_begin name m = (m', Cached c) \<longrightarrow>
       lc_commonName c = name \<and> lc_notAfter c \<le> cm_caNotAfter m \<and>
       (case ParseIP name of Some a \<Rightarrow> lc_ip c = Some a \<and> lc_dns c = [] | None \<Rightarrow> lc_ip c = None \<and> lc_dns c = [name]))"
proof -
  have ok: "minter_ok m" using assms by (rule minting.always)
  have "lc_commonName c = name \<and> lc_notAfter c \<le> cm_caNotAfter m \<and>
       (case ParseIP name of Some a \<Rightarrow> lc_ip c = Some a \<and> lc_dns c = [] | None \<Rightarrow> lc_ip c = None \<and> lc_dns c = [name])"
    if b: "certFor_begin name m = (m', Cached c)" for m' c
  proof -
    obtain el where el: "cm_items m name = Some el" "c = le_cert (cm_elems m el)"
      using b by (auto simp: certFor_begin_def split: option.splits if_splits)
    then obtain now where "c = mintTemplate m now name" using ok unfolding minter_ok_def by metis
    then show ?thesis by (simp add: mintTemplate_def Let_def split: option.split)
  qed
  with ok show ?thesis unfolding minter_ok_def by blast
qed

definition demoMinted :: certMinter where
  "demoMinted = (let m = fst (certFor_begin ''example.com'' (newCertMinter 0)) in certFor_end ''example.com'' (Some (mintTemplate m 5 ''example.com'')) m)"

theorem certFor_own_name_witness:
  "mint_step\<^sup>*\<^sup>* (newCertMinter 0) demoMinted \<and> (\<exists>m' c. certFor_begin ''example.com'' demoMinted = (m', Cached c) \<and> lc_commonName c = ''example.com'')"
proof -
  let ?m = "fst (certFor_begin ''example.com'' (newCertMinter 0))"
  have "mint_step ?m demoMinted"
    unfolding demoMinted_def Let_def by (rule minted) (simp add: certFor_begin_def newCertMinter_def)
  then have r: "mint_step\<^sup>*\<^sup>* (newCertMinter 0) demoMinted"
    using converse_rtranclp_into_rtranclp [of mint_step, OF begins [of "newCertMinter 0" "''example.com''"] r_into_rtranclp] by simp
  have "(case snd (certFor_begin ''example.com'' demoMinted) of Cached c \<Rightarrow> True | _ \<Rightarrow> False)" by code_simp
  then obtain m' c where b: "certFor_begin ''example.com'' demoMinted = (m', Cached c)"
    by (cases "certFor_begin ''example.com'' demoMinted") (auto split: mintStart.splits)
  with certFor_own_name [OF r, of "''example.com''"] r show ?thesis by blast
qed

end
