(* ===== verification/Socks5.thy ===== *)
theory Socks5
  imports GoNet GoIO
begin

text \<open>
  Both ends of the SOCKS5 protocol: the client handshake of \<open>vpntunnel/dialer.go\<close> and the
  server handshake of \<open>iosbridge/forward.go\<close>. A handshake reads a byte stream that arrives in
  pieces (\<open>rd\<close>) and returns its result, what it wrote, and the rest of the stream. Writes succeed;
  the operating system's table of services is a parameter of \<open>LookupPort\<close>.
\<close>

subsection \<open>Definitions: the client\<close>

datatype socksError = BadAddress | BadPort | ShortRead | BadMethod | BadVersion | Refused u8 | BadAddrType
  | NoMethod | AuthFailed | Reply u8

text \<open>
  \<open>net.LookupPort\<close>: a decimal number with an optional sign, else the name of a service. The
  accumulator is 32 bits wide and stops at \<open>2\<^sup>3\<^sup>0\<close>, as in the standard library.
\<close>

fun parsePort_loop :: "32 word \<Rightarrow> string \<Rightarrow> 32 word option" where
  "parsePort_loop n [] = Some n"
| "parsePort_loop n (d # ds) =
     (if \<not> isDigit d then None
      else if 2 ^ 30 \<le> n then Some (- 1)
      else let n1 = n * 10; nn = n1 + of_nat (of_char d - 48)
           in if nn < n1 then Some (- 1) else parsePort_loop nn ds)"

definition parsePort :: "string \<Rightarrow> int option" where
  "parsePort s =
     (if s = [] then Some 0
      else let neg = (hd s = CHR ''-'');
               t = (if hd s = CHR ''+'' \<or> neg then tl s else s)
           in case parsePort_loop 0 t of
                None \<Rightarrow> None
              | Some n \<Rightarrow>
                  let port = (if \<not> neg \<and> 2 ^ 30 \<le> n then 2 ^ 30 - 1
                              else if neg \<and> 2 ^ 30 < n then 2 ^ 30 else uint n)
                  in Some (if neg then - port else port))"

definition LookupPort :: "(string \<Rightarrow> int option) \<Rightarrow> string \<Rightarrow> nat option" where
  "LookupPort services s =
     (case (case parsePort s of Some p \<Rightarrow> Some p | None \<Rightarrow> services s) of
        None \<Rightarrow> None
      | Some p \<Rightarrow> if p < 0 \<or> 65535 < p then None else Some (nat p))"

definition connectRequest :: "string \<Rightarrow> nat \<Rightarrow> bytes" where
  "connectRequest host port =
     [0x05, 0x01, 0x00] @
     (case ParseIP host of
        Some ip \<Rightarrow> (case Unmap ip of
                      Addr4 w \<Rightarrow> [0x01] @ be_bytes 4 (unat w)
                    | _ \<Rightarrow> [0x04] @ As16 ip)
      | None \<Rightarrow> [0x03, of_nat (length host)] @ bytes_of_string host) @
     [of_nat (port div 256), of_nat (port mod 256)]"

text \<open>The bound address of the reply is read and dropped.\<close>

definition skipBound :: "(bytes \<Rightarrow> nat) \<Rightarrow> u8 \<Rightarrow> bytes \<Rightarrow> socksError + bytes" where
  "skipBound rd atyp s =
     (if atyp = 0x01 then (case readFull rd 6 s of None \<Rightarrow> Inl ShortRead | Some (x, r) \<Rightarrow> Inr r)
      else if atyp = 0x03 then
        (case readFull rd 1 s of
           None \<Rightarrow> Inl ShortRead
         | Some (l, r) \<Rightarrow> (case readFull rd (unat (l ! 0) + 2) r of None \<Rightarrow> Inl ShortRead | Some (x, r2) \<Rightarrow> Inr r2))
      else if atyp = 0x04 then (case readFull rd 18 s of None \<Rightarrow> Inl ShortRead | Some (x, r) \<Rightarrow> Inr r)
      else Inl BadAddrType)"

definition readConnectReply :: "(bytes \<Rightarrow> nat) \<Rightarrow> bytes \<Rightarrow> socksError + bytes" where
  "readConnectReply rd s =
     (case readFull rd 4 s of
        None \<Rightarrow> Inl ShortRead
      | Some (reply, r) \<Rightarrow>
          if reply ! 0 \<noteq> 0x05 then Inl BadVersion
          else if reply ! 1 \<noteq> 0x00 then Inl (Refused (reply ! 1))
          else skipBound rd (reply ! 3) r)"

text \<open>The result is the stream left for the caller; the first component is what was written.\<close>

definition socks5Handshake :: "(string \<Rightarrow> int option) \<Rightarrow> (bytes \<Rightarrow> nat) \<Rightarrow> string \<Rightarrow> bytes \<Rightarrow> bytes \<times> (socksError + bytes)" where
  "socks5Handshake services rd targetAddr s =
     (case SplitHostPort targetAddr of
        None \<Rightarrow> ([], Inl BadAddress)
      | Some (host, portStr) \<Rightarrow>
          (case LookupPort services portStr of
             None \<Rightarrow> ([], Inl BadPort)
           | Some port \<Rightarrow>
               let w1 = [0x05, 0x01, 0x00]
               in case readFull rd 2 s of
                    None \<Rightarrow> (w1, Inl ShortRead)
                  | Some (m, r) \<Rightarrow>
                      if m ! 0 \<noteq> 0x05 \<or> m ! 1 \<noteq> 0x00 then (w1, Inl BadMethod)
                      else (w1 @ connectRequest host port, readConnectReply rd r)))"

subsection \<open>Definitions: the server\<close>

record socks5Credentials =
  sc_user :: bytes
  sc_pass :: bytes

definition readCounted :: "(bytes \<Rightarrow> nat) \<Rightarrow> bytes \<Rightarrow> (bytes \<times> bytes) option" where
  "readCounted rd s = (case readFull rd 1 s of None \<Rightarrow> None | Some (n, r) \<Rightarrow> readFull rd (unat (n ! 0)) r)"

text \<open>The username and password negotiation of RFC 1929.\<close>

definition socks5CheckPassword :: "(bytes \<Rightarrow> nat) \<Rightarrow> socks5Credentials \<Rightarrow> bytes \<Rightarrow> bytes \<times> (socksError + bytes)" where
  "socks5CheckPassword rd creds s =
     (case readFull rd 1 s of
        None \<Rightarrow> ([], Inl ShortRead)
      | Some (ver, r) \<Rightarrow>
          (case readCounted rd r of
             None \<Rightarrow> ([], Inl ShortRead)
           | Some (user, r1) \<Rightarrow>
               (case readCounted rd r1 of
                  None \<Rightarrow> ([], Inl ShortRead)
                | Some (pass, r2) \<Rightarrow>
                    if ver ! 0 = 0x01 \<and> user = sc_user creds \<and> pass = sc_pass creds then ([0x01, 0x00], Inr r2)
                    else ([0x01, 0x01], Inl AuthFailed))))"

definition readHost :: "(bytes \<Rightarrow> nat) \<Rightarrow> u8 \<Rightarrow> bytes \<Rightarrow> socksError + (string \<times> bytes)" where
  "readHost rd atyp s =
     (if atyp = 0x01 then
        (case readFull rd 4 s of None \<Rightarrow> Inl (Reply 0x01) | Some (ip, r) \<Rightarrow> Inr (addr_String (AddrFrom4 ip), r))
      else if atyp = 0x03 then
        (case readCounted rd s of None \<Rightarrow> Inl (Reply 0x01) | Some (d, r) \<Rightarrow> Inr (string_of_bytes d, r))
      else if atyp = 0x04 then
        (case readFull rd 16 s of None \<Rightarrow> Inl (Reply 0x01) | Some (ip, r) \<Rightarrow> Inr (addr_String (Unmap (AddrFrom16 ip)), r))
      else Inl (Reply 0x08))"

definition readConnectRequest :: "(bytes \<Rightarrow> nat) \<Rightarrow> bytes \<Rightarrow> socksError + (string \<times> nat \<times> bytes)" where
  "readConnectRequest rd s =
     (case readFull rd 4 s of
        None \<Rightarrow> Inl (Reply 0x01)
      | Some (h, r) \<Rightarrow>
          if h ! 0 \<noteq> 0x05 then Inl (Reply 0x01)
          else if h ! 1 \<noteq> 0x01 then Inl (Reply 0x07)
          else case readHost rd (h ! 3) r of
                 Inl e \<Rightarrow> Inl e
               | Inr (host, r1) \<Rightarrow>
                   (case readFull rd 2 r1 of
                      None \<Rightarrow> Inl (Reply 0x01)
                    | Some (p, r2) \<Rightarrow> Inr (host, be_nat p, r2)))"

definition socks5HandshakeAuth ::
  "(bytes \<Rightarrow> nat) \<Rightarrow> socks5Credentials option \<Rightarrow> bytes \<Rightarrow> bytes \<times> (socksError + (string \<times> nat \<times> bytes))" where
  "socks5HandshakeAuth rd creds s =
     (case readFull rd 2 s of
        None \<Rightarrow> ([], Inl ShortRead)
      | Some (h, r) \<Rightarrow>
          if h ! 0 \<noteq> 0x05 then ([], Inl BadVersion)
          else case readFull rd (unat (h ! 1)) r of
                 None \<Rightarrow> ([], Inl ShortRead)
               | Some (methods, r1) \<Rightarrow>
                   let want = (if creds = None then 0x00 else 0x02)
                   in if want \<notin> set methods then ([0x05, 0xFF], Inl NoMethod)
                      else case creds of
                             None \<Rightarrow> ([0x05, want], readConnectRequest rd r1)
                           | Some c \<Rightarrow>
                               (case socks5CheckPassword rd c r1 of
                                  (w, Inl e) \<Rightarrow> ([0x05, want] @ w, Inl e)
                                | (w, Inr r2) \<Rightarrow> ([0x05, want] @ w, readConnectRequest rd r2)))"

definition socks5Serve :: "(bytes \<Rightarrow> nat) \<Rightarrow> bytes \<Rightarrow> bytes \<times> (socksError + (string \<times> nat \<times> bytes))" where
  "socks5Serve rd s = socks5HandshakeAuth rd None s"

definition socks5SendReply :: "u8 \<Rightarrow> bytes" where
  "socks5SendReply status = [0x05, status, 0x00, 0x01, 0, 0, 0, 0, 0, 0]"

text \<open>
  \<open>handleSOCKS5Connection\<close>: what the client is sent, and the target bridged to with the rest of
  the client's stream. \<open>dial\<close> says whether the target can be reached over the transport.
\<close>

definition handleSOCKS5Connection :: "(bytes \<Rightarrow> nat) \<Rightarrow> (string \<Rightarrow> bool) \<Rightarrow> bytes \<Rightarrow> bytes \<times> (string \<times> bytes) option" where
  "handleSOCKS5Connection rd dial s =
     (case socks5Serve rd s of
        (w, Inl e) \<Rightarrow> (w @ (case e of Reply rep \<Rightarrow> socks5SendReply rep | _ \<Rightarrow> []), None)
      | (w, Inr (host, port, r)) \<Rightarrow>
          let target = JoinHostPort host (Itoa port)
          in if \<not> dial target then (w @ socks5SendReply 0x05, None)
             else (w @ socks5SendReply 0x00, Some (target, r)))"


subsection \<open>Lemmas\<close>

lemma parsePort_loop_Itoa:
  "n < 65536 \<Longrightarrow> parsePort_loop 0 (Itoa n @ ys) = parsePort_loop (of_nat n) ys"
proof (induction n arbitrary: ys rule: less_induct)
  case (less n)
  have dig: "isDigit (digit_char (n mod 10))" by (simp add: digit_char_isDigit)
  have val: "of_char (digit_char (n mod 10)) - 48 = n mod 10"
    using digit_val_digit_char [of "n mod 10"] by (simp add: digit_char_def)
  have step: "parsePort_loop (of_nat m) (digit_char (n mod 10) # ys) = parsePort_loop (of_nat n) ys"
    if m: "m = n div 10" for m
  proof -
    have mm: "m < 6554" "n = m * 10 + n mod 10" using less.prems m by auto
    have lt: "\<not> 2 ^ 30 \<le> (of_nat m :: 32 word)" "\<not> (of_nat m * 10 + of_nat (n mod 10) :: 32 word) < of_nat m * 10"
      using mm by (simp_all add: word_le_nat_alt word_less_nat_alt unat_word_ariths unat_of_nat)
    have "(of_nat n :: 32 word) = of_nat m * 10 + of_nat (n mod 10)"
      by (subst mm(2)) simp
    then show ?thesis using dig val lt by (simp add: Let_def)
  qed
  show ?case
  proof (cases "n < 10")
    case True
    then show ?thesis using step [of 0] by (simp add: Itoa_def show_base.simps [of 10 n])
  next
    case False
    then have "Itoa n = Itoa (n div 10) @ [digit_char (n mod 10)]"
      by (simp add: Itoa_def show_base.simps [of 10 n])
    then show ?thesis using less.IH [of "n div 10"] less.prems False step by simp
  qed
qed

lemma LookupPort_Itoa [simp]: "n < 65536 \<Longrightarrow> LookupPort services (Itoa n) = Some n"
proof -
  assume n: "n < 65536"
  have "hd (Itoa n) \<in> set (Itoa n)" by simp
  then have "isDigit (hd (Itoa n))" by (rule Itoa_digits)
  then have h: "hd (Itoa n) \<noteq> CHR ''+''" "hd (Itoa n) \<noteq> CHR ''-''" by (auto simp: isDigit_def)
  have "\<not> 2 ^ 30 \<le> (of_nat n :: 32 word)" "uint (of_nat n :: 32 word) = int n"
    using n by (simp_all add: word_le_nat_alt unat_of_nat uint_nat)
  then show ?thesis
    using n h parsePort_loop_Itoa [OF n, of "[]"] by (simp add: LookupPort_def parsePort_def)
qed

text \<open>The host the server dials for the host the client named: an address in its shortest form.\<close>

definition dialedHost :: "string \<Rightarrow> string" where
  "dialedHost host = (case ParseIP host of Some ip \<Rightarrow> addr_String (Unmap ip) | None \<Rightarrow> host)"

lemma readFull_append [simp]: "length x = n \<Longrightarrow> readFull rd n (x @ y) = Some (x, y)"
  by (simp add: readFull_exact)

lemma readFull_prefix [simp]:
  "readFull rd 2 (a # b # y) = Some ([a, b], y)" "readFull rd (Suc 0) (a # y) = Some ([a], y)"
  "readFull rd 4 (a # b # c # d # y) = Some ([a, b, c, d], y)"
  by (simp_all add: readFull_exact)

lemma readCounted_append [simp]:
  "length x < 256 \<Longrightarrow> readCounted rd (of_nat (length x) # x @ y) = Some (x, y)"
  by (simp add: readCounted_def unat_of_nat)

lemma be_nat_port: "port < 65536 \<Longrightarrow> be_nat [of_nat (port div 256), of_nat (port mod 256) :: u8] = port"
  by (simp add: be_nat_def unat_of_nat)

lemma ParseIP_cases:
  assumes "ParseIP host = Some ip"
  obtains (v4) w where "Unmap ip = Addr4 w" | (v6) w where "ip = Addr6 w []" "Unmap ip = ip"
proof (cases ip)
  case AddrNone
  then show ?thesis using assms ParseAddr_valid [of host ip] by (simp add: ParseIP_def split: option.splits if_splits)
next
  case (Addr4 w)
  then show ?thesis using v4 [of w] by (simp add: Unmap_def)
next
  case (Addr6 w z)
  then have "z = []" using assms by (simp add: ParseIP_def hasZone_def split: option.splits if_splits)
  then show ?thesis using Addr6 v4 [of "ucast w"] v6 [of w]
    by (cases "drop_bit 32 w = 0xFFFF") (simp_all add: Unmap_def)
qed

text \<open>The server reads what the client's request says.\<close>

lemma readConnectRequest_connectRequest:
  assumes "length host < 256" "port < 65536"
  shows "readConnectRequest rd (connectRequest host port @ y) = Inr (dialedHost host, port, y)"
proof (cases "ParseIP host")
  case None
  then show ?thesis using assms
    by (simp add: connectRequest_def readConnectRequest_def readHost_def dialedHost_def be_nat_port
        readCounted_append [of "bytes_of_string host", simplified])
next
  case (Some ip)
  then show ?thesis
  proof (cases rule: ParseIP_cases)
    case (v4 w)
    then show ?thesis using assms Some
      by (simp add: connectRequest_def readConnectRequest_def readHost_def dialedHost_def be_nat_port
          AddrFrom4_As4 del: be_bytes.simps)
  next
    case (v6 w)
    then show ?thesis using assms Some
      by (simp add: connectRequest_def readConnectRequest_def readHost_def dialedHost_def be_nat_port
          As16_def AddrFrom16_As16 del: be_bytes.simps)
  qed
qed

lemma readFull_one: "readFull rd 1 s = Some (x, r) \<Longrightarrow> s = x ! 0 # r"
  by (cases s) (auto simp: readFull_exact split: if_splits)

lemma readFull_two: "readFull rd 2 s = Some (x, r) \<Longrightarrow> s = x ! 0 # x ! 1 # r"
  by (cases s; cases "tl s") (auto simp: readFull_exact split: if_splits)

lemma readFull_byteD:
  "readFull rd (unat (b :: u8)) s = Some (x, r) \<Longrightarrow> s = x @ r \<and> length x < 256 \<and> b = of_nat (length x)"
  by (auto simp: readFull_exact split: if_splits)

lemma readCountedD:
  "readCounted rd s = Some (x, r) \<Longrightarrow> s = of_nat (length x) # x @ r \<and> length x < 256"
  by (auto simp: readCounted_def split: option.splits dest!: readFull_one [simplified] readFull_byteD)

text \<open>
  C13: The two ends of the SOCKS5 protocol understand each other. For a host of at most 255 bytes
  and any port, whatever way the bytes arrive, the client's handshake with the server's answer
  succeeds and leaves the data after it untouched; the server, given what the client wrote, sends
  exactly that answer, dials the named host and port, and passes on the client's later bytes.
\<close>

theorem socks5_roundtrip:
  assumes "CHR ''['' \<notin> set host" "CHR '']'' \<notin> set host" "length host < 256" "port < 65536"
  shows "\<exists>req. socks5Handshake services rd (JoinHostPort host (Itoa port)) ([0x05, 0x00] @ socks5SendReply 0x00 @ later)
             = (req, Inr later)
           \<and> handleSOCKS5Connection rd' (\<lambda>t. t = JoinHostPort (dialedHost host) (Itoa port)) (req @ early)
             = ([0x05, 0x00] @ socks5SendReply 0x00, Some (JoinHostPort (dialedHost host) (Itoa port), early))"
proof (intro exI conjI)
  let ?req = "[0x05, 0x01, 0x00] @ connectRequest host port"
  have "SplitHostPort (JoinHostPort host (Itoa port)) = Some (host, Itoa port)"
    using assms(1,2) Itoa_digits by (intro SplitHostPort_Join) (fastforce simp: isDigit_def)+
  then show "socks5Handshake services rd (JoinHostPort host (Itoa port)) ([0x05, 0x00] @ socks5SendReply 0x00 @ later)
      = (?req, Inr later)"
    using assms(4) by (simp add: socks5Handshake_def socks5SendReply_def readConnectReply_def skipBound_def readFull_exact)
  show "handleSOCKS5Connection rd' (\<lambda>t. t = JoinHostPort (dialedHost host) (Itoa port)) (?req @ early)
      = ([0x05, 0x00] @ socks5SendReply 0x00, Some (JoinHostPort (dialedHost host) (Itoa port), early))"
    using readConnectRequest_connectRequest [OF assms(3,4)]
    by (simp add: handleSOCKS5Connection_def socks5Serve_def socks5HandshakeAuth_def)
qed

theorem socks5_roundtrip_witness:
  "\<exists>req. socks5Handshake (\<lambda>_. None) length (JoinHostPort ''db'' (Itoa 5432)) ([0x05, 0x00] @ socks5SendReply 0x00 @ [7])
             = (req, Inr [7])
           \<and> handleSOCKS5Connection (\<lambda>_. 1) (\<lambda>t. t = JoinHostPort (dialedHost ''db'') (Itoa 5432)) (req @ [9])
             = ([0x05, 0x00] @ socks5SendReply 0x00, Some (JoinHostPort (dialedHost ''db'') (Itoa 5432), [9]))"
  by (rule socks5_roundtrip) simp_all

text \<open>
  C14: With credentials configured, the server accepts a client exactly when it offers the
  password method and then sends the configured user name and password, each in full, followed by
  a well-formed CONNECT request; nothing else gets through.
\<close>

theorem socks5_auth_exact:
  "(\<exists>w. socks5HandshakeAuth rd (Some c) s = (w, Inr t)) \<longleftrightarrow>
   (\<exists>methods req. s = [0x05, of_nat (length methods)] @ methods
        @ [0x01, of_nat (length (sc_user c))] @ sc_user c @ [of_nat (length (sc_pass c))] @ sc_pass c @ req
      \<and> length methods < 256 \<and> length (sc_user c) < 256 \<and> length (sc_pass c) < 256
      \<and> 0x02 \<in> set methods \<and> readConnectRequest rd req = Inr t)"
  (is "?L \<longleftrightarrow> ?R")
proof
  assume ?R
  then obtain methods req where *: "s = [0x05, of_nat (length methods)] @ methods
        @ [0x01, of_nat (length (sc_user c))] @ sc_user c @ [of_nat (length (sc_pass c))] @ sc_pass c @ req"
      "length methods < 256" "length (sc_user c) < 256" "length (sc_pass c) < 256"
      "0x02 \<in> set methods" "readConnectRequest rd req = Inr t" by blast
  then show ?L
    by (simp add: socks5HandshakeAuth_def socks5CheckPassword_def unat_of_nat)
next
  assume ?L
  then obtain h r methods r1 r2 where h: "readFull rd 2 s = Some (h, r)" "h ! 0 = 0x05"
      "readFull rd (unat (h ! 1)) r = Some (methods, r1)" "0x02 \<in> set methods"
    and p: "snd (socks5CheckPassword rd c r1) = Inr r2" "readConnectRequest rd r2 = Inr t"
    by (auto simp: socks5HandshakeAuth_def Let_def split: option.splits if_splits sum.splits prod.splits)
  have s: "s = [0x05, of_nat (length methods)] @ methods @ r1 \<and> length methods < 256"
    using h readFull_two [of rd s h r] readFull_byteD [of rd "h ! 1" r methods r1] by auto
  obtain v r3 r4 where v: "readFull rd 1 r1 = Some (v, r3)" "v ! 0 = 0x01"
      "readCounted rd r3 = Some (sc_user c, r4)" "readCounted rd r4 = Some (sc_pass c, r2)"
    using p(1) by (auto simp: socks5CheckPassword_def split: option.splits if_splits)
  then have "r1 = 0x01 # r3" using readFull_one [of rd r1 v r3] by simp
  with s v(3,4) p(2) h(4) show ?R
    by (intro exI [of _ methods] exI [of _ r2]) (auto dest!: readCountedD)
qed

end
