(* ===== verification/PortForward.thy ===== *)
theory PortForward
  imports Socks5 "HOL-Library.AList" "HOL-Library.Sublist"
begin

text \<open>
  The port forwarder of \<open>iosbridge/forward.go\<close> and the recovery of a remote listener of
  \<open>iosbridge/remote_forward_recovery.go\<close>. The active forwards are a store indexed by number, as the
  program shares pointers to them between the forwarder's table and the goroutine that runs each;
  the table maps identifiers to numbers. A step is a call of the public interface or one move of a
  goroutine up to its next blocking call; the outcome of listening, accepting and dialing is an
  argument of the step.
\<close>

subsection \<open>Definitions: state\<close>

record ForwardConfig =
  fc_id :: string
  fc_direction :: string
  fc_bindAddress :: string
  fc_bindPort :: nat
  fc_targetHost :: string
  fc_targetPort :: nat
  fc_recover :: bool

text \<open>
  Where the goroutine of a forward stands in \<open>runLocalForward\<close>, \<open>runRemoteForward\<close> or
  \<open>runDynamicForward\<close>. A connection has its number and whether it was reported opened.
\<close>

datatype phase = Started | Listening | Bound | Serving | Removing | Finished

record activeForward =
  af_config :: ForwardConfig
  af_cancelled :: bool
  af_listener :: bool
  af_conns :: "(nat \<times> bool) list"
  af_phase :: phase

datatype forwardCall = OnForwardReady string nat | OnForwardError string | OnForwardStopped string
  | OnConnectionOpened string nat | OnConnectionClosed string nat

record PortForwarder =
  pf_store :: "activeForward list"
  pf_forwards :: "(string \<times> nat) list"
  pf_closed :: bool
  pf_cancelled :: bool
  pf_nextConnID :: nat
  pf_calls :: "forwardCall list"

definition NewPortForwarder :: PortForwarder where
  "NewPortForwarder =
     \<lparr>pf_store = [], pf_forwards = [], pf_closed = False, pf_cancelled = False, pf_nextConnID = 0, pf_calls = []\<rparr>"

definition updAF :: "nat \<Rightarrow> (activeForward \<Rightarrow> activeForward) \<Rightarrow> PortForwarder \<Rightarrow> PortForwarder" where
  "updAF n g pf = pf\<lparr>pf_store := (pf_store pf)[n := g (pf_store pf ! n)]\<rparr>"

definition callback :: "forwardCall \<Rightarrow> PortForwarder \<Rightarrow> PortForwarder" where
  "callback c pf = pf\<lparr>pf_calls := pf_calls pf @ [c]\<rparr>"

subsection \<open>Definitions: the public interface\<close>

datatype startError = EmptyID | RemotePortZero | ForwarderClosed | AlreadyRunning | InvalidDirection

definition StartForward :: "ForwardConfig \<Rightarrow> PortForwarder \<Rightarrow> startError option \<times> PortForwarder" where
  "StartForward cfg pf =
     (if fc_id cfg = [] then (Some EmptyID, pf)
      else if fc_direction cfg = ''remote'' \<and> fc_bindPort cfg = 0 then (Some RemotePortZero, pf)
      else if pf_closed pf then (Some ForwarderClosed, pf)
      else if map_of (pf_forwards pf) (fc_id cfg) \<noteq> None then (Some AlreadyRunning, pf)
      else if fc_direction cfg \<notin> set [''local'', ''remote'', ''dynamic''] then (Some InvalidDirection, pf)
      else let n = length (pf_store pf);
               af = \<lparr>af_config = cfg, af_cancelled = False, af_listener = False, af_conns = [], af_phase = Started\<rparr>
           in (None, pf\<lparr>pf_store := pf_store pf @ [af], pf_forwards := (fc_id cfg, n) # pf_forwards pf\<rparr>))"

text \<open>\<open>stopForward\<close> cancels the forward's context and closes its listener; the wait that follows changes nothing.\<close>

definition stopForward :: "nat \<Rightarrow> PortForwarder \<Rightarrow> PortForwarder" where
  "stopForward n pf = updAF n (\<lambda>af. af\<lparr>af_cancelled := True, af_listener := False\<rparr>) pf"

definition StopForward :: "string \<Rightarrow> PortForwarder \<Rightarrow> PortForwarder" where
  "StopForward i pf =
     (case map_of (pf_forwards pf) i of
        None \<Rightarrow> pf
      | Some n \<Rightarrow>
          callback (OnForwardStopped i) (stopForward n (pf\<lparr>pf_forwards := AList.delete i (pf_forwards pf)\<rparr>)))"

fun stopEach :: "(string \<times> nat) list \<Rightarrow> PortForwarder \<Rightarrow> PortForwarder" where
  "stopEach [] pf = pf"
| "stopEach ((i, n) # rest) pf = stopEach rest (callback (OnForwardStopped i) (stopForward n pf))"

definition StopAll :: "PortForwarder \<Rightarrow> PortForwarder" where
  "StopAll pf = stopEach (pf_forwards pf) (pf\<lparr>pf_forwards := []\<rparr>)"

definition Close :: "PortForwarder \<Rightarrow> PortForwarder" where
  "Close pf =
     (if pf_closed pf then pf
      else stopEach (pf_forwards pf) (pf\<lparr>pf_closed := True, pf_forwards := [], pf_cancelled := True\<rparr>))"

subsection \<open>Definitions: the goroutine of a forward\<close>

definition removeForwardAndNotify :: "string \<Rightarrow> PortForwarder \<Rightarrow> PortForwarder" where
  "removeForwardAndNotify i pf =
     (let pf1 = pf\<lparr>pf_forwards := AList.delete i (pf_forwards pf)\<rparr>
      in if map_of (pf_forwards pf) i \<noteq> None then callback (OnForwardStopped i) pf1 else pf1)"

definition ctxErr :: "nat \<Rightarrow> PortForwarder \<Rightarrow> bool" where
  "ctxErr n pf \<longleftrightarrow> pf_cancelled pf \<or> af_cancelled (pf_store pf ! n)"

definition setPhase :: "nat \<Rightarrow> phase \<Rightarrow> PortForwarder \<Rightarrow> PortForwarder" where
  "setPhase n p pf = updAF n (\<lambda>af. af\<lparr>af_phase := p\<rparr>) pf"

text \<open>The check before listening.\<close>

definition runStart :: "nat \<Rightarrow> PortForwarder \<Rightarrow> PortForwarder" where
  "runStart n pf = setPhase n (if ctxErr n pf then Finished else Listening) pf"

text \<open>A failed listen: only a remote forward looks at its context before it reports the failure.\<close>

definition runListenFailed :: "nat \<Rightarrow> PortForwarder \<Rightarrow> PortForwarder" where
  "runListenFailed n pf =
     (let cfg = af_config (pf_store pf ! n)
      in if fc_direction cfg = ''remote'' \<and> ctxErr n pf then setPhase n Finished pf
         else setPhase n Removing (callback (OnForwardError (fc_id cfg)) pf))"

definition runListenOk :: "nat \<Rightarrow> PortForwarder \<Rightarrow> PortForwarder" where
  "runListenOk n pf = setPhase n Bound (updAF n (\<lambda>af. af\<lparr>af_listener := True\<rparr>) pf)"

text \<open>The check between listening and reporting; \<open>port\<close> is the port that was bound.\<close>

definition runReady :: "nat \<Rightarrow> nat \<Rightarrow> PortForwarder \<Rightarrow> PortForwarder" where
  "runReady n port pf =
     (let cfg = af_config (pf_store pf ! n)
      in if ctxErr n pf then setPhase n Finished (updAF n (\<lambda>af. af\<lparr>af_listener := False\<rparr>) pf)
         else setPhase n Serving
                (callback (OnForwardReady (fc_id cfg) (if fc_direction cfg = ''remote'' then fc_bindPort cfg else port)) pf))"

text \<open>The goroutine that closes the listener when the context ends.\<close>

definition runWatch :: "nat \<Rightarrow> PortForwarder \<Rightarrow> PortForwarder" where
  "runWatch n pf = (if ctxErr n pf then updAF n (\<lambda>af. af\<lparr>af_listener := False\<rparr>) pf else pf)"

definition runAcceptFailed :: "nat \<Rightarrow> PortForwarder \<Rightarrow> PortForwarder" where
  "runAcceptFailed n pf =
     (if ctxErr n pf then setPhase n Finished pf
      else setPhase n Removing (callback (OnForwardError (fc_id (af_config (pf_store pf ! n)))) pf))"

definition runRemove :: "nat \<Rightarrow> PortForwarder \<Rightarrow> PortForwarder" where
  "runRemove n pf = setPhase n Finished (removeForwardAndNotify (fc_id (af_config (pf_store pf ! n))) pf)"

definition addConn :: "nat \<Rightarrow> nat \<times> bool \<Rightarrow> PortForwarder \<Rightarrow> PortForwarder" where
  "addConn n c pf = updAF n (\<lambda>af. af\<lparr>af_conns := c # af_conns af\<rparr>) pf"

definition delConn :: "nat \<Rightarrow> nat \<times> bool \<Rightarrow> PortForwarder \<Rightarrow> PortForwarder" where
  "delConn n c pf = updAF n (\<lambda>af. af\<lparr>af_conns := removeAll c (af_conns af)\<rparr>) pf"

text \<open>An accepted connection: a local or remote forward dials first, a dynamic one starts its handshake.\<close>

definition runAccepted :: "nat \<Rightarrow> bool \<Rightarrow> PortForwarder \<Rightarrow> PortForwarder" where
  "runAccepted n dialed pf =
     (let cfg = af_config (pf_store pf ! n); c = pf_nextConnID pf + 1
      in if fc_direction cfg = ''dynamic'' then addConn n (c, False) (pf\<lparr>pf_nextConnID := c\<rparr>)
         else if \<not> dialed then callback (OnForwardError (fc_id cfg)) pf
         else addConn n (c, True) (callback (OnConnectionOpened (fc_id cfg) c) (pf\<lparr>pf_nextConnID := c\<rparr>)))"

text \<open>The handshake of \<open>handleSOCKS5Connection\<close> ends.\<close>

definition runHandshake :: "nat \<Rightarrow> nat \<Rightarrow> bool \<Rightarrow> PortForwarder \<Rightarrow> PortForwarder" where
  "runHandshake n c accepted pf =
     (let i = fc_id (af_config (pf_store pf ! n)); pf1 = delConn n (c, False) pf
      in if \<not> accepted then callback (OnForwardError i) pf1
         else callback (OnConnectionOpened i c) (addConn n (c, True) pf1))"

text \<open>A connection ends; on a dynamic forward this may be because the dial failed.\<close>

definition runConnEnd :: "nat \<Rightarrow> nat \<Rightarrow> bool \<Rightarrow> PortForwarder \<Rightarrow> PortForwarder" where
  "runConnEnd n c dialed pf =
     (let cfg = af_config (pf_store pf ! n); pf1 = delConn n (c, True) pf;
          pf2 = (if fc_direction cfg = ''dynamic'' \<and> \<not> dialed then callback (OnForwardError (fc_id cfg)) pf1 else pf1)
      in callback (OnConnectionClosed (fc_id cfg) c) pf2)"

definition inPhase :: "PortForwarder \<Rightarrow> nat \<Rightarrow> phase \<Rightarrow> bool" where
  "inPhase pf n p \<longleftrightarrow> n < length (pf_store pf) \<and> af_phase (pf_store pf ! n) = p"

inductive pf_step :: "PortForwarder \<Rightarrow> PortForwarder \<Rightarrow> bool" where
  start: "pf_step pf (snd (StartForward cfg pf))"
| stop: "pf_step pf (StopForward i pf)"
| stop_all: "pf_step pf (StopAll pf)"
| close: "pf_step pf (Close pf)"
| run_start: "inPhase pf n Started \<Longrightarrow> pf_step pf (runStart n pf)"
| listen_failed: "inPhase pf n Listening \<Longrightarrow> pf_step pf (runListenFailed n pf)"
| listen_ok: "inPhase pf n Listening \<Longrightarrow> pf_step pf (runListenOk n pf)"
| ready: "inPhase pf n Bound \<Longrightarrow> pf_step pf (runReady n port pf)"
| watch: "n < length (pf_store pf) \<Longrightarrow>
    af_phase (pf_store pf ! n) \<in> {Serving, Removing, Finished} \<Longrightarrow> pf_step pf (runWatch n pf)"
| accept_failed: "inPhase pf n Serving \<Longrightarrow> pf_step pf (runAcceptFailed n pf)"
| accepted: "inPhase pf n Serving \<Longrightarrow> af_listener (pf_store pf ! n) \<Longrightarrow> pf_step pf (runAccepted n dialed pf)"
| removed: "inPhase pf n Removing \<Longrightarrow> pf_step pf (runRemove n pf)"
| handshake: "n < length (pf_store pf) \<Longrightarrow> (c, False) \<in> set (af_conns (pf_store pf ! n)) \<Longrightarrow>
    pf_step pf (runHandshake n c accepted pf)"
| conn_end: "n < length (pf_store pf) \<Longrightarrow> (c, True) \<in> set (af_conns (pf_store pf ! n)) \<Longrightarrow>
    pf_step pf (runConnEnd n c dialed pf)"

subsection \<open>Definitions: recovery of a remote listener\<close>

definition remoteListenerWakeAddress :: "string \<Rightarrow> string option" where
  "remoteListenerWakeAddress address =
     (case SplitHostPort address of
        None \<Rightarrow> None
      | Some (host, port) \<Rightarrow>
          let h = (if host = [] \<or> host = ''0.0.0.0'' then ''127.0.0.1'' else if host = ''::'' then ''::1'' else host)
          in Some (JoinHostPort h port))"

text \<open>What one read from the woken port gives, after its deadline was set.\<close>

datatype wakeRead = DeadlineError | GotData | ReadEOF | ReadTimeout | ReadOther

datatype recoverError = ContextDone "string option" | ListenError string | WakeContextDone | WakeBadAddress
  | WakeDialError string | WakeReadError wakeRead

definition wakeRemoteListener :: "bool \<Rightarrow> (string \<Rightarrow> string + wakeRead) \<Rightarrow> string \<Rightarrow> recoverError option" where
  "wakeRemoteListener ctxDone dial address =
     (if ctxDone then Some WakeContextDone
      else case remoteListenerWakeAddress address of
             None \<Rightarrow> Some WakeBadAddress
           | Some wakeAddress \<Rightarrow>
               (case dial wakeAddress of
                  Inl e \<Rightarrow> if Contains (ToLower e) ''connection refused'' then None else Some (WakeDialError e)
                | Inr r \<Rightarrow> if r = ReadEOF \<or> r = ReadTimeout then None else Some (WakeReadError r)))"

text \<open>
  One round of the loop of \<open>listenRemoteForward\<close>: whether the caller's context is done when the
  round begins, the error of the listen if it fails, what waking the port meets, and the
  milliseconds from this round's check to the next.
\<close>

record recoverRound =
  rr_cancelled :: bool
  rr_listen :: "string option"
  rr_wakeDone :: bool
  rr_dial :: "string \<Rightarrow> string + wakeRead"
  rr_time :: nat

definition recoverTimeout :: nat where
  "recoverTimeout = 10000"

text \<open>The loop; \<open>None\<close> when the rounds given do not suffice for it to return.\<close>

fun listenRemoteForward ::
  "bool \<Rightarrow> string \<Rightarrow> nat \<Rightarrow> string option \<Rightarrow> recoverRound list \<Rightarrow> (recoverError option) option" where
  "listenRemoteForward recover address now lastErr [] = None"
| "listenRemoteForward recover address now lastErr (r # rs) =
     (if rr_cancelled r \<or> recover \<and> recoverTimeout \<le> now then Some (Some (ContextDone lastErr))
      else case rr_listen r of
             None \<Rightarrow> Some None
           | Some e \<Rightarrow>
               if \<not> recover \<or> \<not> Contains (ToLower e) ''address already in use'' then Some (Some (ListenError e))
               else case wakeRemoteListener (rr_wakeDone r) (rr_dial r) address of
                      Some we \<Rightarrow> Some (Some we)
                    | None \<Rightarrow> listenRemoteForward recover address (now + rr_time r) (Some e) rs)"

text \<open>Between two rounds the timer of 100 ms fires, unless the context is done first.\<close>

fun roundsTimed :: "nat \<Rightarrow> recoverRound list \<Rightarrow> bool" where
  "roundsTimed now (r # s # rs) \<longleftrightarrow>
     (100 \<le> rr_time r \<or> rr_cancelled s \<or> recoverTimeout \<le> now + rr_time r) \<and> roundsTimed (now + rr_time r) (s # rs)"
| "roundsTimed now rs \<longleftrightarrow> True"

subsection \<open>Invariant\<close>

definition tracked_ok :: "PortForwarder \<Rightarrow> bool" where
  "tracked_ok pf \<longleftrightarrow> distinct (map fst (pf_forwards pf))
     \<and> list_all (\<lambda>(i, n). n < length (pf_store pf)
          \<and> (let af = pf_store pf ! n in fc_id (af_config af) = i \<and> \<not> af_cancelled af \<and> af_phase af \<noteq> Finished))
         (pf_forwards pf)
     \<and> pf_closed pf = pf_cancelled pf \<and> (pf_closed pf \<longrightarrow> pf_forwards pf = [])"

lemma pf_steps:
  "pf_step\<^sup>*\<^sup>* a pf \<Longrightarrow> pf_step\<^sup>*\<^sup>* a (snd (StartForward cfg pf))"
  "pf_step\<^sup>*\<^sup>* a pf \<Longrightarrow> pf_step\<^sup>*\<^sup>* a (StopForward i pf)"
  "inPhase pf n Started \<Longrightarrow> pf_step\<^sup>*\<^sup>* a pf \<Longrightarrow> pf_step\<^sup>*\<^sup>* a (runStart n pf)"
  "inPhase pf n Listening \<Longrightarrow> pf_step\<^sup>*\<^sup>* a pf \<Longrightarrow> pf_step\<^sup>*\<^sup>* a (runListenFailed n pf)"
  "inPhase pf n Listening \<Longrightarrow> pf_step\<^sup>*\<^sup>* a pf \<Longrightarrow> pf_step\<^sup>*\<^sup>* a (runListenOk n pf)"
  "inPhase pf n Bound \<Longrightarrow> pf_step\<^sup>*\<^sup>* a pf \<Longrightarrow> pf_step\<^sup>*\<^sup>* a (runReady n port pf)"
  "inPhase pf n Serving \<Longrightarrow> pf_step\<^sup>*\<^sup>* a pf \<Longrightarrow> pf_step\<^sup>*\<^sup>* a (runAcceptFailed n pf)"
  "inPhase pf n Removing \<Longrightarrow> pf_step\<^sup>*\<^sup>* a pf \<Longrightarrow> pf_step\<^sup>*\<^sup>* a (runRemove n pf)"
  by (blast intro: rtranclp.rtrancl_into_rtrancl pf_step.intros)+

subsection \<open>Lemmas: every tracked forward runs\<close>

lemma updAF_simps [simp]:
  "pf_forwards (updAF n g pf) = pf_forwards pf" "pf_closed (updAF n g pf) = pf_closed pf"
  "pf_cancelled (updAF n g pf) = pf_cancelled pf" "pf_nextConnID (updAF n g pf) = pf_nextConnID pf"
  "pf_calls (updAF n g pf) = pf_calls pf" "length (pf_store (updAF n g pf)) = length (pf_store pf)"
  by (simp_all add: updAF_def)

lemma updAF_nth: "pf_store (updAF n g pf) ! m = (if m = n \<and> n < length (pf_store pf) then g (pf_store pf ! n) else pf_store pf ! m)"
  by (cases "n < length (pf_store pf)") (auto simp: updAF_def nth_list_update list_update_beyond)

lemma callback_simps [simp]:
  "pf_forwards (callback c pf) = pf_forwards pf" "pf_closed (callback c pf) = pf_closed pf"
  "pf_cancelled (callback c pf) = pf_cancelled pf" "pf_nextConnID (callback c pf) = pf_nextConnID pf"
  "pf_calls (callback c pf) = pf_calls pf @ [c]" "pf_store (callback c pf) = pf_store pf"
  by (simp_all add: callback_def)

lemma tracked_ok_callback [simp]: "tracked_ok (callback c pf) = tracked_ok pf"
  by (simp add: tracked_ok_def)

lemma tracked_ok_nextConnID [simp]: "tracked_ok (pf\<lparr>pf_nextConnID := c\<rparr>) = tracked_ok pf"
  by (simp add: tracked_ok_def)

lemma tracked_okD:
  assumes "tracked_ok pf" "(i, n) \<in> set (pf_forwards pf)"
  shows "n < length (pf_store pf)" "fc_id (af_config (pf_store pf ! n)) = i"
    "\<not> af_cancelled (pf_store pf ! n)" "af_phase (pf_store pf ! n) \<noteq> Finished"
    "\<not> pf_cancelled pf"
  using assms by (auto simp: tracked_ok_def list_all_iff Let_def)

lemma tracked_okI:
  assumes "distinct (map fst (pf_forwards pf))"
    and "\<And>i n. (i, n) \<in> set (pf_forwards pf) \<Longrightarrow> n < length (pf_store pf) \<and>
        fc_id (af_config (pf_store pf ! n)) = i \<and> \<not> af_cancelled (pf_store pf ! n) \<and>
        af_phase (pf_store pf ! n) \<noteq> Finished"
    and "pf_closed pf = pf_cancelled pf" "pf_closed pf \<Longrightarrow> pf_forwards pf = []"
  shows "tracked_ok pf"
  using assms by (auto simp: tracked_ok_def list_all_iff Let_def)

lemma tracked_ok_frame:
  "tracked_ok pf \<Longrightarrow> distinct (map fst (pf_forwards pf))" "tracked_ok pf \<Longrightarrow> pf_closed pf = pf_cancelled pf"
  "tracked_ok pf \<Longrightarrow> pf_closed pf \<Longrightarrow> pf_forwards pf = []"
  by (auto simp: tracked_ok_def)

lemma tracked_ok_upd:
  assumes ok: "tracked_ok pf" and g: "\<And>af. af_config (g af) = af_config af"
    and n: "\<And>i. (i, n) \<in> set (pf_forwards pf) \<Longrightarrow>
      \<not> af_cancelled (g (pf_store pf ! n)) \<and> af_phase (g (pf_store pf ! n)) \<noteq> Finished"
  shows "tracked_ok (updAF n g pf)"
proof (rule tracked_okI)
  fix i m assume "(i, m) \<in> set (pf_forwards (updAF n g pf))"
  then have m: "(i, m) \<in> set (pf_forwards pf)" by simp
  from tracked_okD [OF ok m] n [of i] m g
  show "m < length (pf_store (updAF n g pf)) \<and> fc_id (af_config (pf_store (updAF n g pf) ! m)) = i \<and>
      \<not> af_cancelled (pf_store (updAF n g pf) ! m) \<and> af_phase (pf_store (updAF n g pf) ! m) \<noteq> Finished"
    by (auto simp: updAF_nth)
qed (use tracked_ok_frame [OF ok] in simp_all)

lemma tracked_ok_delete:
  assumes ok: "tracked_ok pf"
  shows "tracked_ok (pf\<lparr>pf_forwards := AList.delete i (pf_forwards pf)\<rparr>)"
proof (rule tracked_okI)
  show "distinct (map fst (pf_forwards (pf\<lparr>pf_forwards := AList.delete i (pf_forwards pf)\<rparr>)))"
    using tracked_ok_frame(1) [OF ok] by (simp add: distinct_delete)
qed (use tracked_okD [OF ok] tracked_ok_frame [OF ok] in \<open>auto simp: AList.delete_eq\<close>)

lemma tracked_ok_empty:
  "pf_forwards pf = [] \<Longrightarrow> pf_closed pf = pf_cancelled pf \<Longrightarrow> tracked_ok pf"
  by (simp add: tracked_ok_def)

text \<open>A forward that is tracked has no cancelled context, so it never takes an exit for cancellation.\<close>

lemma ctxErr_tracked: "tracked_ok pf \<Longrightarrow> (i, n) \<in> set (pf_forwards pf) \<Longrightarrow> \<not> ctxErr n pf"
  using tracked_okD(3,5) by (auto simp: ctxErr_def)

lemma tracked_ok_setPhase:
  assumes "tracked_ok pf" "p = Finished \<Longrightarrow> n \<notin> snd ` set (pf_forwards pf)"
  shows "tracked_ok (setPhase n p pf)"
  unfolding setPhase_def using assms tracked_okD [OF assms(1)] by (intro tracked_ok_upd) force+

lemma stopEach_frame [simp]:
  "pf_forwards (stopEach fs pf) = pf_forwards pf" "pf_closed (stopEach fs pf) = pf_closed pf"
  "pf_cancelled (stopEach fs pf) = pf_cancelled pf" "pf_nextConnID (stopEach fs pf) = pf_nextConnID pf"
  "length (pf_store (stopEach fs pf)) = length (pf_store pf)"
  by (induction fs pf rule: stopEach.induct) (simp_all add: stopForward_def)

lemma removeForwardAndNotify_frame [simp]:
  "pf_forwards (removeForwardAndNotify i pf) = AList.delete i (pf_forwards pf)"
  "pf_store (removeForwardAndNotify i pf) = pf_store pf"
  by (simp_all add: removeForwardAndNotify_def Let_def)

lemma StartForward_cases:
  obtains (refused) e where "StartForward cfg pf = (Some e, pf)"
    | (started) "\<not> pf_closed pf" "map_of (pf_forwards pf) (fc_id cfg) = None"
        "StartForward cfg pf = (None, pf\<lparr>pf_store := pf_store pf @
           [\<lparr>af_config = cfg, af_cancelled = False, af_listener = False, af_conns = [], af_phase = Started\<rparr>],
           pf_forwards := (fc_id cfg, length (pf_store pf)) # pf_forwards pf\<rparr>)"
proof -
  have "(\<exists>e. StartForward cfg pf = (Some e, pf)) \<or>
     (\<not> pf_closed pf \<and> map_of (pf_forwards pf) (fc_id cfg) = None \<and>
        StartForward cfg pf = (None, pf\<lparr>pf_store := pf_store pf @
           [\<lparr>af_config = cfg, af_cancelled = False, af_listener = False, af_conns = [], af_phase = Started\<rparr>],
           pf_forwards := (fc_id cfg, length (pf_store pf)) # pf_forwards pf\<rparr>))"
    unfolding StartForward_def Let_def by (simp split: if_split)
  then show thesis using that by blast
qed

lemma tracked_ok_StartForward:
  assumes ok: "tracked_ok pf"
  shows "tracked_ok (snd (StartForward cfg pf))"
proof (cases rule: StartForward_cases [of cfg pf])
  case started
  show ?thesis unfolding started(3) snd_conv
    using tracked_okD [OF ok] tracked_ok_frame [OF ok] started(1,2)
    by (intro tracked_okI) (auto simp: nth_append map_of_eq_None_iff)
qed (use ok in simp)

lemma tracked_ok_StopForward: 
  assumes ok: "tracked_ok pf"
  shows "tracked_ok (StopForward i pf)"
proof (cases "map_of (pf_forwards pf) i")
  case (Some n)
  let ?pf = "pf\<lparr>pf_forwards := AList.delete i (pf_forwards pf)\<rparr>"
  have "fc_id (af_config (pf_store pf ! n)) = i" using tracked_okD(2) [OF ok] Some by (auto dest: map_of_SomeD)
  then have "(j, n) \<notin> set (pf_forwards ?pf)" for j
    using tracked_okD(2) [OF ok, of j n] by (auto simp: AList.delete_eq)
  then have "tracked_ok (stopForward n ?pf)"
    unfolding stopForward_def using tracked_ok_delete [OF ok] by (intro tracked_ok_upd) auto
  then show ?thesis using Some by (simp add: StopForward_def)
qed (use ok in \<open>simp add: StopForward_def\<close>)

lemma tracked_ok_runRemove:
  assumes ok: "tracked_ok pf"
  shows "tracked_ok (runRemove n pf)"
proof -
  let ?i = "fc_id (af_config (pf_store pf ! n))"
  have "tracked_ok (removeForwardAndNotify ?i pf)"
    using tracked_ok_delete [OF ok] by (simp add: removeForwardAndNotify_def Let_def)
  moreover have "n \<notin> snd ` set (pf_forwards (removeForwardAndNotify ?i pf))"
    using tracked_okD(2) [OF ok] by (auto simp: AList.delete_eq)
  ultimately show ?thesis unfolding runRemove_def by (intro tracked_ok_setPhase)
qed

lemma tracked_ok_step: "pf_step pf pf' \<Longrightarrow> tracked_ok pf \<Longrightarrow> tracked_ok pf'"
proof (induction rule: pf_step.induct)
  case (start pf cfg)
  then show ?case by (rule tracked_ok_StartForward)
next
  case (stop pf i)
  then show ?case by (rule tracked_ok_StopForward)
next
  case (stop_all pf)
  then show ?case using tracked_ok_frame(2) by (simp add: StopAll_def tracked_ok_empty)
next
  case (close pf)
  then show ?case by (simp add: Close_def tracked_ok_empty)
next
  case (run_start pf n)
  then show ?case unfolding runStart_def using ctxErr_tracked [of pf _ n]
    by (intro tracked_ok_setPhase) (auto split: if_splits)
next
  case (listen_failed pf n)
  then show ?case unfolding runListenFailed_def Let_def using ctxErr_tracked [of pf _ n]
    by (auto intro!: tracked_ok_setPhase)
next
  case (listen_ok pf n)
  then show ?case unfolding runListenOk_def
    using tracked_okD by (intro tracked_ok_setPhase tracked_ok_upd) auto
next
  case (ready pf n port)
  then show ?case unfolding runReady_def Let_def using ctxErr_tracked [of pf _ n]
    by (auto intro!: tracked_ok_setPhase tracked_ok_upd)
next
  case (watch n pf)
  then show ?case unfolding runWatch_def using tracked_okD(3,4) by (auto intro!: tracked_ok_upd)
next
  case (accept_failed pf n)
  then show ?case unfolding runAcceptFailed_def using ctxErr_tracked [of pf _ n]
    by (auto intro!: tracked_ok_setPhase)
next
  case (accepted pf n dialed)
  then show ?case unfolding runAccepted_def Let_def addConn_def using tracked_okD(3,4)
    by (auto intro!: tracked_ok_upd)
next
  case (removed pf n)
  then show ?case by (simp add: tracked_ok_runRemove)
next
  case (handshake n pf c accepted)
  then show ?case unfolding runHandshake_def Let_def addConn_def delConn_def using tracked_okD(3,4)
    by (auto intro!: tracked_ok_upd simp: updAF_nth)
next
  case (conn_end n pf c dialed)
  then show ?case unfolding runConnEnd_def Let_def delConn_def using tracked_okD(3,4)
    by (auto intro!: tracked_ok_upd)
qed

interpretation tracked: kept_invariant pf_step NewPortForwarder tracked_ok
  by unfold_locales (simp add: NewPortForwarder_def tracked_ok_empty, rule tracked_ok_step)

subsection \<open>Lemmas: connections\<close>

definition about :: "nat \<Rightarrow> forwardCall \<Rightarrow> bool" where
  "about c x \<longleftrightarrow> (case x of OnConnectionOpened i d \<Rightarrow> d = c | OnConnectionClosed i d \<Rightarrow> d = c | _ \<Rightarrow> False)"

definition connCalls :: "nat \<Rightarrow> PortForwarder \<Rightarrow> forwardCall list" where
  "connCalls c pf = List.filter (about c) (pf_calls pf)"

definition hasConn :: "PortForwarder \<Rightarrow> nat \<Rightarrow> nat \<Rightarrow> bool \<Rightarrow> bool" where
  "hasConn pf n c b \<longleftrightarrow> n < length (pf_store pf) \<and> (c, b) \<in> set (af_conns (pf_store pf ! n))"

definition afID :: "PortForwarder \<Rightarrow> nat \<Rightarrow> string" where
  "afID pf n = fc_id (af_config (pf_store pf ! n))"

text \<open>
  What has been reported of a connection: nothing during its handshake, the opening while it is
  bridged, and both once it has ended. Numbers above the counter are unused.
\<close>

definition conn_ok :: "PortForwarder \<Rightarrow> bool" where
  "conn_ok pf \<longleftrightarrow>
     (\<forall>c. \<exists>i. prefix (connCalls c pf) [OnConnectionOpened i c, OnConnectionClosed i c])
     \<and> (\<forall>c. pf_nextConnID pf < c \<longrightarrow> connCalls c pf = [] \<and> (\<forall>n b. \<not> hasConn pf n c b))
     \<and> (\<forall>n c b. hasConn pf n c b \<longrightarrow> connCalls c pf = (if b then [OnConnectionOpened (afID pf n) c] else []))
     \<and> (\<forall>n m c b d. hasConn pf n c b \<longrightarrow> hasConn pf m c d \<longrightarrow> m = n \<and> d = b)"

lemma conn_ok_unique: "conn_ok pf \<Longrightarrow> hasConn pf n c b \<Longrightarrow> hasConn pf m c d \<Longrightarrow> m = n \<and> d = b"
  unfolding conn_ok_def by metis

lemma connCalls_callback [simp]: "connCalls c (callback x pf) = connCalls c pf @ (if about c x then [x] else [])"
  by (simp add: connCalls_def)

lemma connCalls_frame [simp]:
  "connCalls c (updAF n g pf) = connCalls c pf" "connCalls c (pf\<lparr>pf_forwards := fs\<rparr>) = connCalls c pf"
  "connCalls c (pf\<lparr>pf_nextConnID := k\<rparr>) = connCalls c pf" "connCalls c (pf\<lparr>pf_store := st\<rparr>) = connCalls c pf"
  "connCalls c (pf\<lparr>pf_closed := b\<rparr>) = connCalls c pf" "connCalls c (pf\<lparr>pf_cancelled := b\<rparr>) = connCalls c pf"
  by (simp_all add: connCalls_def)

lemma about_simps [simp]:
  "about c (OnConnectionOpened i d) = (d = c)" "about c (OnConnectionClosed i d) = (d = c)"
  "\<not> about c (OnForwardError i)" "\<not> about c (OnForwardStopped i)" "\<not> about c (OnForwardReady i p)"
  by (simp_all add: about_def)

lemma hasConn_frame [simp]:
  "hasConn (callback x pf) = hasConn pf" "hasConn (pf\<lparr>pf_nextConnID := k\<rparr>) = hasConn pf"
  "hasConn (pf\<lparr>pf_forwards := fs\<rparr>) = hasConn pf" "hasConn (pf\<lparr>pf_closed := b\<rparr>) = hasConn pf"
  "hasConn (pf\<lparr>pf_cancelled := b\<rparr>) = hasConn pf"
  by (simp_all add: hasConn_def fun_eq_iff)

lemma hasConn_upd:
  "hasConn (updAF n g pf) m c b = (if m = n then n < length (pf_store pf) \<and> (c, b) \<in> set (af_conns (g (pf_store pf ! n)))
     else hasConn pf m c b)"
  by (simp add: hasConn_def updAF_nth)

lemma hasConn_add [simp]:
  "hasConn (addConn n x pf) m c b = (hasConn pf m c b \<or> m = n \<and> n < length (pf_store pf) \<and> (c, b) = x)"
  by (auto simp: addConn_def hasConn_upd) (auto simp: hasConn_def)

lemma hasConn_del [simp]: "hasConn (delConn n x pf) m c b = (hasConn pf m c b \<and> (m = n \<longrightarrow> (c, b) \<noteq> x))"
  by (auto simp: delConn_def hasConn_upd) (auto simp: hasConn_def)

lemma afID_frame [simp]:
  "afID (callback x pf) = afID pf" "afID (pf\<lparr>pf_nextConnID := k\<rparr>) = afID pf" "afID (pf\<lparr>pf_forwards := fs\<rparr>) = afID pf"
  "afID (pf\<lparr>pf_closed := b\<rparr>) = afID pf" "afID (pf\<lparr>pf_cancelled := b\<rparr>) = afID pf"
  by (simp_all add: afID_def fun_eq_iff)

lemma afID_upd: "(\<And>af. af_config (g af) = af_config af) \<Longrightarrow> afID (updAF n g pf) m = afID pf m"
  by (simp add: afID_def updAF_nth)

lemma conn_frame [simp]:
  "afID (addConn n x pf) m = afID pf m" "afID (delConn n x pf) m = afID pf m"
  "pf_nextConnID (addConn n x pf) = pf_nextConnID pf" "pf_nextConnID (delConn n x pf) = pf_nextConnID pf"
  "connCalls c (addConn n x pf) = connCalls c pf" "connCalls c (delConn n x pf) = connCalls c pf"
  by (simp_all add: addConn_def delConn_def afID_upd)

lemma conn_ok_sub:
  assumes "conn_ok pf" "pf_nextConnID pf' = pf_nextConnID pf" "\<And>c. connCalls c pf' = connCalls c pf"
    and "\<And>n c b. hasConn pf' n c b \<Longrightarrow> hasConn pf n c b \<and> afID pf' n = afID pf n"
  shows "conn_ok pf'"
proof -
  have "connCalls c pf' = (if b then [OnConnectionOpened (afID pf' n) c] else [])" if "hasConn pf' n c b" for n c b
    using assms(1) assms(3) [of c] assms(4) [OF that] unfolding conn_ok_def by metis
  moreover have "m = n \<and> d = b" if "hasConn pf' n c b" "hasConn pf' m c d" for n m c b d
    using assms(1) assms(4) [OF that(1)] assms(4) [OF that(2)] unfolding conn_ok_def by blast
  moreover have "\<not> hasConn pf' n c b" if "pf_nextConnID pf' < c" for n c b
    using assms(1,2,4) that unfolding conn_ok_def by metis
  ultimately show ?thesis using assms(1-3) by (auto simp: conn_ok_def)
qed

text \<open>Changing a forward's phase, listener or context leaves its connections alone.\<close>

lemma conn_ok_upd:
  assumes "conn_ok pf" "\<And>af. af_config (g af) = af_config af" "\<And>af. af_conns (g af) = af_conns af"
  shows "conn_ok (updAF n g pf)"
proof (rule conn_ok_sub [OF assms(1)])
  fix m c b assume "hasConn (updAF n g pf) m c b"
  then show "hasConn pf m c b \<and> afID (updAF n g pf) m = afID pf m"
    using assms(2,3) by (auto simp: hasConn_def updAF_nth afID_def split: if_splits)
qed simp_all

lemma conn_ok_setPhase: "conn_ok pf \<Longrightarrow> conn_ok (setPhase n p pf)"
  unfolding setPhase_def by (rule conn_ok_upd) auto

lemma conn_ok_quiet [simp]:
  "conn_ok pf \<Longrightarrow> conn_ok (callback (OnForwardError i) pf)" "conn_ok pf \<Longrightarrow> conn_ok (callback (OnForwardStopped i) pf)"
  "conn_ok pf \<Longrightarrow> conn_ok (callback (OnForwardReady i p) pf)" "conn_ok pf \<Longrightarrow> conn_ok (pf\<lparr>pf_forwards := fs\<rparr>)"
  "conn_ok pf \<Longrightarrow> conn_ok (pf\<lparr>pf_closed := b\<rparr>)" "conn_ok pf \<Longrightarrow> conn_ok (pf\<lparr>pf_cancelled := b\<rparr>)"
  "conn_ok pf \<Longrightarrow> conn_ok (delConn n x pf)"
  by (erule conn_ok_sub; simp)+

lemma conn_ok_stopEach: "conn_ok pf \<Longrightarrow> conn_ok (stopEach fs pf)"
  by (induction fs pf rule: stopEach.induct) (simp_all add: stopForward_def conn_ok_upd)

lemma conn_ok_StartForward:
  assumes ok: "conn_ok pf"
  shows "conn_ok (snd (StartForward cfg pf))"
proof (cases rule: StartForward_cases [of cfg pf])
  case started
  show ?thesis unfolding started(3) snd_conv
    by (rule conn_ok_sub [OF ok]) (auto simp: hasConn_def afID_def nth_append split: if_splits)
qed (use ok in simp)

lemma conn_ok_accepted:
  assumes "conn_ok pf"
  shows "conn_ok (runAccepted n dialed pf)"
proof -
  let ?c = "pf_nextConnID pf + 1"
  have "conn_ok (addConn n (?c, False) (pf\<lparr>pf_nextConnID := ?c\<rparr>))"
    using assms by (auto simp: conn_ok_def)
  moreover have "conn_ok (addConn n (?c, True) (callback (OnConnectionOpened (afID pf n) ?c) (pf\<lparr>pf_nextConnID := ?c\<rparr>)))"
    using assms by (auto simp: conn_ok_def)
  ultimately show ?thesis using assms by (simp add: runAccepted_def Let_def afID_def)
qed

lemma conn_okD:
  assumes "conn_ok pf"
  shows "\<exists>i. prefix (connCalls c pf) [OnConnectionOpened i c, OnConnectionClosed i c]"
    and "pf_nextConnID pf < c \<Longrightarrow> connCalls c pf = []" "hasConn pf n c b \<Longrightarrow> c \<le> pf_nextConnID pf"
    and "hasConn pf n c b \<Longrightarrow> connCalls c pf = (if b then [OnConnectionOpened (afID pf n) c] else [])"
  using assms unfolding conn_ok_def by (blast, blast, meson not_less, metis)

text \<open>The state of one connection \<open>c\<close> changes: it is where \<open>here\<close> says, and \<open>calls\<close> have been reported of it.\<close>

lemma conn_ok_one:
  assumes ok: "conn_ok pf" and c: "c \<le> pf_nextConnID pf'"
    and frame: "pf_nextConnID pf' = pf_nextConnID pf" "\<And>m. afID pf' m = afID pf m"
    and here: "\<And>m x b. hasConn pf' m x b \<longleftrightarrow> (if x = c then here \<and> m = n \<and> b else hasConn pf m x b)"
    and calls: "\<And>x. connCalls x pf' = (if x = c then [OnConnectionOpened (afID pf n) c] @ ended else connCalls x pf)"
    and ended: "ended = (if here then [] else [OnConnectionClosed (afID pf n) c])"
  shows "conn_ok pf'"
  unfolding conn_ok_def
proof (intro conjI allI impI)
  fix x show "\<exists>i. prefix (connCalls x pf') [OnConnectionOpened i x, OnConnectionClosed i x]"
    using conn_okD(1) [OF ok, of x] by (auto simp: calls ended)
next
  fix x m b assume "pf_nextConnID pf' < x"
  then show "connCalls x pf' = []" "\<not> hasConn pf' m x b"
    using conn_okD(2) [OF ok, of x] conn_okD(3) [OF ok, of m x b] c frame(1) by (auto simp: calls here not_less [symmetric])
next
  fix m x b assume "hasConn pf' m x b"
  then show "connCalls x pf' = (if b then [OnConnectionOpened (afID pf' m) x] else [])"
    using conn_okD(4) [OF ok, of m x b] by (simp add: calls here frame ended split: if_splits)
next
  fix k m x b d assume "hasConn pf' k x b" "hasConn pf' m x d"
  then have "m = k \<and> d = b" using conn_ok_unique [OF ok, of k x b m d] by (simp add: here split: if_splits)
  then show "m = k" "d = b" by simp_all
qed

lemma conn_ok_handshake:
  assumes ok: "conn_ok pf" and c: "hasConn pf n c False"
  shows "conn_ok (runHandshake n c accepted pf)"
proof -
  have n: "n < length (pf_store pf)" using c by (simp add: hasConn_def)
  have only: "hasConn pf m c d \<Longrightarrow> m = n \<and> \<not> d" for m d using conn_ok_unique [OF ok c] by blast
  let ?pf = "callback (OnConnectionOpened (afID pf n) c) (addConn n (c, True) (delConn n (c, False) pf))"
  have len: "n < length (pf_store (delConn n (c, False) pf))" using n by (simp add: delConn_def)
  have "conn_ok ?pf"
  proof (rule conn_ok_one [OF ok, where here = True and n = n and c = c and ended = "[]"])
    show "hasConn ?pf m x b \<longleftrightarrow> (if x = c then True \<and> m = n \<and> b else hasConn pf m x b)" for m x b
      using only [of m b] len by auto
  qed (use conn_okD(3,4) [OF ok c] in simp_all)
  then show ?thesis using ok by (simp add: runHandshake_def Let_def afID_def)
qed

lemma conn_ok_end:
  assumes ok: "conn_ok pf" and c: "hasConn pf n c True"
  shows "conn_ok (runConnEnd n c dialed pf)"
proof -
  have only: "hasConn pf m c d \<Longrightarrow> m = n \<and> d" for m d using conn_ok_unique [OF ok c] by blast
  let ?pf = "callback (OnConnectionClosed (afID pf n) c) (delConn n (c, True) pf)"
  have "conn_ok ?pf"
  proof (rule conn_ok_one [OF ok, where here = False and n = n and c = c and ended = "[OnConnectionClosed (afID pf n) c]"])
    show "hasConn ?pf m x b \<longleftrightarrow> (if x = c then False \<and> m = n \<and> b else hasConn pf m x b)" for m x b
      using only [of m b] by auto
  qed (use conn_okD(3,4) [OF ok c] in simp_all)
  moreover from this have "conn_ok (callback (OnConnectionClosed (afID pf n) c)
      (callback (OnForwardError (afID pf n)) (delConn n (c, True) pf)))"
    by (rule conn_ok_sub) auto
  ultimately show ?thesis by (simp add: runConnEnd_def Let_def afID_def)
qed

lemma conn_ok_step: "pf_step pf pf' \<Longrightarrow> conn_ok pf \<Longrightarrow> conn_ok pf'"
proof (induction rule: pf_step.induct)
  case (start pf cfg)
  then show ?case by (rule conn_ok_StartForward)
next
  case (stop pf i)
  then show ?case by (simp add: StopForward_def stopForward_def conn_ok_upd split: option.split)
next
  case (accepted pf n dialed)
  then show ?case by (simp add: conn_ok_accepted)
next
  case (handshake n pf c accepted)
  then show ?case by (simp add: conn_ok_handshake hasConn_def)
next
  case (conn_end n pf c dialed)
  then show ?case by (simp add: conn_ok_end hasConn_def)
qed (simp_all add: StopAll_def Close_def conn_ok_stopEach runStart_def runListenFailed_def runListenOk_def
    runReady_def runWatch_def runAcceptFailed_def runRemove_def removeForwardAndNotify_def Let_def
    conn_ok_setPhase conn_ok_upd)

interpretation conns: kept_invariant pf_step NewPortForwarder conn_ok
  by unfold_locales (simp add: NewPortForwarder_def conn_ok_def connCalls_def hasConn_def, rule conn_ok_step)

subsection \<open>Properties of the forwarder\<close>

text \<open>
  C8: Whatever the interleaving of calls and goroutines, every forward in the forwarder's table
  is alive: its goroutine has not ended and its context is not cancelled, it is filed under its
  own identifier, and no identifier occurs twice. So a forward whose listener or accept loop
  failed never stays in the table to block a restart, and a closed forwarder's table is empty.
\<close>

theorem tracked_forwards_alive:
  assumes "pf_step\<^sup>*\<^sup>* NewPortForwarder pf"
  shows "distinct (map fst (pf_forwards pf)) \<and> (pf_closed pf \<longrightarrow> pf_forwards pf = [])
       \<and> ((i, n) \<in> set (pf_forwards pf) \<longrightarrow>
            n < length (pf_store pf) \<and> fc_id (af_config (pf_store pf ! n)) = i
            \<and> af_phase (pf_store pf ! n) \<noteq> Finished \<and> \<not> ctxErr n pf)"
  using tracked_ok_frame [OF tracked.always [OF assms]] tracked_okD [OF tracked.always [OF assms]]
    ctxErr_tracked [OF tracked.always [OF assms]] by auto

definition exampleForward :: ForwardConfig where
  "exampleForward = \<lparr>fc_id = ''f'', fc_direction = ''local'', fc_bindAddress = [], fc_bindPort = 8080,
     fc_targetHost = ''db'', fc_targetPort = 5432, fc_recover = False\<rparr>"

theorem tracked_forwards_alive_witness:
  "let pf = snd (StartForward exampleForward NewPortForwarder)
   in (''f'', 0) \<in> set (pf_forwards pf) \<and> af_phase (pf_store pf ! 0) \<noteq> Finished \<and> \<not> ctxErr 0 pf"
proof -
  have "pf_step\<^sup>*\<^sup>* NewPortForwarder (snd (StartForward exampleForward NewPortForwarder))"
    by (rule pf_steps rtranclp.rtrancl_refl)+
  from tracked_forwards_alive [OF this, of "''f''" 0] show ?thesis
    by (simp add: Let_def StartForward_def exampleForward_def NewPortForwarder_def)
qed

text \<open>
  Each connection is reported at most once as opened and at most once as closed, in that
  order and for the same forward, in every reachable state.
\<close>

theorem connection_calls_paired:
  assumes "pf_step\<^sup>*\<^sup>* NewPortForwarder pf"
  shows "\<exists>i. prefix (connCalls c pf) [OnConnectionOpened i c, OnConnectionClosed i c]"
  using conns.always [OF assms] by (simp add: conn_ok_def)

theorem connection_calls_paired_witness:
  "\<exists>i. prefix (connCalls 1 (snd (StartForward exampleForward NewPortForwarder)))
     [OnConnectionOpened i 1, OnConnectionClosed i 1]"
  by (rule connection_calls_paired, (rule pf_steps rtranclp.rtrancl_refl)+)

text \<open>After \<open>Close\<close> nothing starts and every context is cancelled, for good.\<close>

lemma closed_step: "pf_step pf pf' \<Longrightarrow> pf_closed pf \<Longrightarrow> pf_closed pf'"
proof (induction rule: pf_step.induct)
  case (start pf cfg)
  then show ?case by (cases rule: StartForward_cases [of cfg pf]) auto
qed (simp_all add: StopForward_def stopForward_def StopAll_def Close_def runStart_def runListenFailed_def
    runListenOk_def runReady_def runWatch_def runAcceptFailed_def runRemove_def removeForwardAndNotify_def
    runAccepted_def runHandshake_def runConnEnd_def addConn_def delConn_def setPhase_def Let_def split: option.split)

lemma closed_finishes:
  assumes "pf_cancelled pf" "n < length (pf_store pf)"
  obtains pf' where "pf_step\<^sup>*\<^sup>* pf pf'" "inPhase pf' n Finished" "pf_cancelled pf'"
proof (cases "af_phase (pf_store pf ! n)")
  case Started
  then have "pf_step pf (runStart n pf)" using assms by (intro pf_step.intros) (simp add: inPhase_def)
  then show ?thesis
    by (rule that [OF r_into_rtranclp]) (use assms in \<open>simp_all add: runStart_def inPhase_def updAF_nth setPhase_def ctxErr_def Let_def\<close>)
next
  case Listening
  let ?b = "runListenOk n pf"
  have "pf_step pf ?b" using Listening assms by (intro pf_step.intros) (simp add: inPhase_def)
  moreover have "pf_step ?b (runReady n 0 ?b)"
    using Listening assms by (intro pf_step.intros) (simp add: inPhase_def runListenOk_def setPhase_def updAF_nth)
  ultimately have "pf_step\<^sup>*\<^sup>* pf (runReady n 0 ?b)" by simp
  then show ?thesis
    by (rule that) (use assms in \<open>simp_all add: runReady_def runListenOk_def setPhase_def ctxErr_def inPhase_def updAF_nth\<close>)
next
  case Bound
  then have "pf_step pf (runReady n 0 pf)" using assms by (intro pf_step.intros) (simp add: inPhase_def)
  then show ?thesis
    by (rule that [OF r_into_rtranclp]) (use assms in \<open>simp_all add: runReady_def inPhase_def updAF_nth setPhase_def ctxErr_def Let_def\<close>)
next
  case Serving
  then have "pf_step pf (runAcceptFailed n pf)" using assms by (intro pf_step.intros) (simp add: inPhase_def)
  then show ?thesis
    by (rule that [OF r_into_rtranclp]) (use assms in \<open>simp_all add: runAcceptFailed_def inPhase_def updAF_nth setPhase_def ctxErr_def Let_def\<close>)
next
  case Removing
  then have "pf_step pf (runRemove n pf)" using assms by (intro pf_step.intros) (simp add: inPhase_def)
  then show ?thesis
    by (rule that [OF r_into_rtranclp]) (use assms in \<open>simp_all add: runRemove_def removeForwardAndNotify_def inPhase_def updAF_nth setPhase_def ctxErr_def Let_def\<close>)
next
  case Finished
  then show ?thesis using that [of pf] assms by (simp add: inPhase_def)
qed



text \<open>
  C38: The table does not always know what runs. A goroutine that is about to remove its failed
  forward removes whatever is filed under its identifier: when the caller has stopped and
  restarted that forward in between, the new forward goes on serving with an open listener, but
  the table is empty and stopping the forward does nothing. And a forward whose accept loop failed
  is removed with its listener still open, so that its port stays taken.
\<close>

theorem untracked_listeners:
  assumes "fc_id cfg \<noteq> []" "fc_direction cfg = ''local''"
  shows "(\<exists>pf. pf_step\<^sup>*\<^sup>* NewPortForwarder pf \<and> inPhase pf 1 Serving \<and> af_config (pf_store pf ! 1) = cfg
            \<and> af_listener (pf_store pf ! 1) \<and> \<not> ctxErr 1 pf \<and> pf_forwards pf = [] \<and> StopForward (fc_id cfg) pf = pf)
       \<and> (\<exists>pf. pf_step\<^sup>*\<^sup>* NewPortForwarder pf \<and> inPhase pf 0 Finished \<and> af_config (pf_store pf ! 0) = cfg
            \<and> af_listener (pf_store pf ! 0) \<and> \<not> ctxErr 0 pf \<and> pf_forwards pf = [])"
proof
  let ?s = "\<lambda>pf. snd (StartForward cfg pf)"
  let ?a = "runListenFailed 0 (runStart 0 (?s NewPortForwarder))"
  let ?b = "?s (StopForward (fc_id cfg) ?a)"
  let ?c = "runListenOk 1 (runStart 1 (runRemove 0 ?b))"
  note d = NewPortForwarder_def StartForward_def runStart_def runListenFailed_def StopForward_def stopForward_def
    runRemove_def removeForwardAndNotify_def runListenOk_def runReady_def runAcceptFailed_def
    updAF_def setPhase_def callback_def ctxErr_def inPhase_def assms
  have ph: "inPhase (?s NewPortForwarder) 0 Started" "inPhase (runStart 0 (?s NewPortForwarder)) 0 Listening"
      "inPhase ?b 0 Removing" "inPhase (runRemove 0 ?b) 1 Started"
      "inPhase (runStart 1 (runRemove 0 ?b)) 1 Listening" "inPhase ?c 1 Bound"
    by (simp_all add: d)
  have "pf_step\<^sup>*\<^sup>* NewPortForwarder (runReady 1 80 ?c)"
    by (rule pf_steps | rule rtranclp.rtrancl_refl | rule ph)+
  moreover have "inPhase (runReady 1 80 ?c) 1 Serving" "af_config (pf_store (runReady 1 80 ?c) ! 1) = cfg"
      "af_listener (pf_store (runReady 1 80 ?c) ! 1)" "\<not> ctxErr 1 (runReady 1 80 ?c)"
      "pf_forwards (runReady 1 80 ?c) = []" "StopForward (fc_id cfg) (runReady 1 80 ?c) = runReady 1 80 ?c"
    by (simp_all add: d)
  ultimately show "\<exists>pf. pf_step\<^sup>*\<^sup>* NewPortForwarder pf \<and> inPhase pf 1 Serving \<and> af_config (pf_store pf ! 1) = cfg
      \<and> af_listener (pf_store pf ! 1) \<and> \<not> ctxErr 1 pf \<and> pf_forwards pf = [] \<and> StopForward (fc_id cfg) pf = pf"
    by blast
  let ?e = "runListenOk 0 (runStart 0 (?s NewPortForwarder))"
  let ?f = "runRemove 0 (runAcceptFailed 0 (runReady 0 80 ?e))"
  have ph2: "inPhase ?e 0 Bound" "inPhase (runReady 0 80 ?e) 0 Serving"
      "inPhase (runAcceptFailed 0 (runReady 0 80 ?e)) 0 Removing"
    by (simp_all add: d)
  have "pf_step\<^sup>*\<^sup>* NewPortForwarder ?f"
    by (rule pf_steps | rule rtranclp.rtrancl_refl | rule ph ph2)+
  moreover have "inPhase ?f 0 Finished" "af_config (pf_store ?f ! 0) = cfg" "af_listener (pf_store ?f ! 0)"
      "\<not> ctxErr 0 ?f" "pf_forwards ?f = []"
    by (simp_all add: d)
  ultimately show "\<exists>pf. pf_step\<^sup>*\<^sup>* NewPortForwarder pf \<and> inPhase pf 0 Finished \<and> af_config (pf_store pf ! 0) = cfg
      \<and> af_listener (pf_store pf ! 0) \<and> \<not> ctxErr 0 pf \<and> pf_forwards pf = []"
    by blast
qed

theorem untracked_listeners_witness:
  "\<exists>pf. pf_step\<^sup>*\<^sup>* NewPortForwarder pf \<and> inPhase pf 1 Serving \<and> af_listener (pf_store pf ! 1)
     \<and> \<not> ctxErr 1 pf \<and> StopForward ''f'' pf = pf"
  using untracked_listeners [of exampleForward] by (auto simp: exampleForward_def)

subsection \<open>Properties of the recovery\<close>

lemma recover_returns:
  "roundsTimed now rs \<Longrightarrow> recoverTimeout \<le> now + 100 * (length rs - 1) \<Longrightarrow> rs \<noteq> [] \<Longrightarrow>
     listenRemoteForward True address now lastErr rs \<noteq> None"
proof (induction now rs arbitrary: lastErr rule: roundsTimed.induct)
  case (1 now r s rs)
  then show ?case
    by (cases "100 \<le> rr_time r") (auto split: option.splits if_splits)
qed (auto simp: recoverTimeout_def split: option.splits)

lemma recover_success:
  "listenRemoteForward recover address now lastErr rs = Some None \<Longrightarrow>
     \<exists>k < length rs. rr_listen (rs ! k) = None \<and> \<not> rr_cancelled (rs ! k) \<and> (\<not> recover \<longrightarrow> k = 0)"
proof (induction recover address now lastErr rs rule: listenRemoteForward.induct)
  case (2 recover address now lastErr r rs)
  then show ?case
    by (auto split: if_splits option.splits intro: exI [of _ 0] exI [of _ "Suc _"])
qed simp

text \<open>
  C37: Recovering a remote listener always ends, and its success is the server's. Within the ten
  seconds allowed and with a wait of at least 100 ms between rounds, the loop returns after at most
  101 rounds, whatever the server answers; it reports a listener only in a round whose listen the
  server acknowledged, and without recovery permitted it listens exactly once.
\<close>

theorem recovery_ends:
  assumes "roundsTimed 0 rs" "100 < length rs"
  shows "listenRemoteForward True address 0 None rs \<noteq> None
       \<and> listenRemoteForward False address 0 None (take 1 rs) \<noteq> None
       \<and> (listenRemoteForward recover address 0 None rs = Some None \<longrightarrow>
            (\<exists>k < length rs. rr_listen (rs ! k) = None \<and> \<not> rr_cancelled (rs ! k) \<and> (\<not> recover \<longrightarrow> k = 0)))"
proof (intro conjI impI)
  show "listenRemoteForward True address 0 None rs \<noteq> None"
    using assms by (intro recover_returns) (auto simp: recoverTimeout_def)
  show "listenRemoteForward False address 0 None (take 1 rs) \<noteq> None"
    using assms(2) by (cases rs) (auto split: option.splits)
qed (rule recover_success)

theorem recovery_ends_witness:
  "\<exists>r. listenRemoteForward True ''127.0.0.1:80'' 0 None (replicate 101 r) \<noteq> None"
proof -
  let ?r = "\<lparr>rr_cancelled = False, rr_listen = Some ''address already in use'', rr_wakeDone = False,
      rr_dial = (\<lambda>_. Inr ReadEOF), rr_time = 100\<rparr>"
  have "roundsTimed now (replicate n ?r)" for now n
  proof (induction n arbitrary: now)
    case (Suc n)
    show ?case using Suc.IH [of "now + 100"] by (cases n) simp_all
  qed simp
  then show ?thesis using recovery_ends [of "replicate 101 ?r" "''127.0.0.1:80''" True] by auto
qed

end
