(* ===== verification/MarkerFilter.thy ===== *)
theory MarkerFilter
  imports Prelude
begin

text \<open>
  The filter of \<open>iosbridge/transport.go\<close> that strips discard markers from the output of a
  session. A marker is four magic bytes and four index bytes; the terminal may have echoed a
  control byte of the index as a pair of a caret and a letter. The filter keeps the bytes that may
  begin a marker for the next chunk.
\<close>

subsection \<open>Definitions\<close>

definition discardMarkerMagic :: bytes where
  "discardMarkerMagic = [0xFF, 0xC0, 0xC1, 0xFF]"

text \<open>\<open>discardMarkerFilter\<close>: the bytes held back.\<close>

record discardMarkerFilter =
  mf_partial :: bytes

definition echoPair :: "u8 \<Rightarrow> bytes \<Rightarrow> bool" where
  "echoPair b rest \<longleftrightarrow> b = 0x5E \<and> rest \<noteq> [] \<and> 0x3F \<le> hd rest \<and> hd rest \<le> 0x5F"

text \<open>Bytes that \<open>n\<close> more logical index bytes take at the head of the data; \<open>None\<close> when there are not enough.\<close>

fun consumeMarkerIndex :: "nat \<Rightarrow> bytes \<Rightarrow> nat option" where
  "consumeMarkerIndex 0 d = Some 0"
| "consumeMarkerIndex (Suc n) [] = None"
| "consumeMarkerIndex (Suc n) (b # d) =
     (if echoPair b d then map_option (\<lambda>k. k + 2) (consumeMarkerIndex n (tl d))
      else map_option (\<lambda>k. k + 1) (consumeMarkerIndex n d))"

text \<open>The loop of \<open>filter\<close>: the output and the bytes held back.\<close>

function filterLoop :: "bytes \<Rightarrow> bytes \<times> bytes" where
  "filterLoop [] = ([], [])"
| "filterLoop (b # d) =
     (if b \<noteq> 0xFF then (case filterLoop d of (r, p) \<Rightarrow> (b # r, p))
      else if length (b # d) < 4 then
        (if b # d = take (length (b # d)) discardMarkerMagic then ([], b # d)
         else (case filterLoop d of (r, p) \<Rightarrow> (b # r, p)))
      else if take 4 (b # d) \<noteq> discardMarkerMagic then (case filterLoop d of (r, p) \<Rightarrow> (b # r, p))
      else case consumeMarkerIndex 4 (drop 3 d) of
             None \<Rightarrow> ([], b # d)
           | Some n \<Rightarrow> filterLoop (drop (3 + n) d))"
  by pat_completeness auto
termination
  by (relation "measure length") auto

definition filterOutput :: "discardMarkerFilter \<Rightarrow> bytes \<Rightarrow> discardMarkerFilter \<times> bytes" where
  "filterOutput f data =
     (if data = [] then (f, data)
      else let d = mf_partial f @ data; f0 = f\<lparr>mf_partial := []\<rparr>
           in if 0xFF \<notin> set d then (f0, d)
              else case filterLoop d of (r, p) \<Rightarrow> (f0\<lparr>mf_partial := p\<rparr>, r))"

text \<open>
  \<open>forwardOutput\<close>: an iteration finds the stop channel open or closed and reads some bytes and
  perhaps an error; the result is the calls of the output callback.
\<close>

datatype readError = EOF | ReadFailed

datatype outputCall = OnOutput bytes | OnExit int | OnError

record outputRead =
  or_stopped :: bool
  or_data :: bytes
  or_err :: "readError option"

fun forwardOutput :: "int \<Rightarrow> discardMarkerFilter \<Rightarrow> outputRead list \<Rightarrow> outputCall list" where
  "forwardOutput exitCode f [] = []"
| "forwardOutput exitCode f (r # rs) =
     (if or_stopped r then []
      else case (if or_data r = [] then (f, []) else filterOutput f (or_data r)) of
             (f1, filtered) \<Rightarrow>
               (if filtered = [] then [] else [OnOutput filtered]) @
               (case or_err r of
                  None \<Rightarrow> forwardOutput exitCode f1 rs
                | Some EOF \<Rightarrow> [OnExit exitCode]
                | Some ReadFailed \<Rightarrow> [OnError]))"

fun outputOf :: "outputCall \<Rightarrow> bytes" where
  "outputOf (OnOutput d) = d"
| "outputOf _ = []"

declare filterLoop.simps(2) [simp del]

subsection \<open>Lemmas\<close>

lemma consume_append:
  assumes "consumeMarkerIndex n d = Some k" "d \<noteq> [] \<Longrightarrow> last d \<noteq> 0x5E"
  shows "consumeMarkerIndex n (d @ e) = Some k"
  using assms
proof (induction n d arbitrary: k rule: consumeMarkerIndex.induct)
  case (3 n b d)
  show ?case
  proof (cases d)
    case Nil
    then show ?thesis using 3 by (cases n) (auto simp: echoPair_def)
  next
    case (Cons c d')
    then show ?thesis using 3 by (cases d') (auto simp: echoPair_def)
  qed
qed auto

lemma consume_le: "consumeMarkerIndex n d = Some k \<Longrightarrow> k \<le> length d"
proof (induction n d arbitrary: k rule: consumeMarkerIndex.induct)
  case (3 n b d)
  then show ?case by (cases d) (auto simp: echoPair_def split: if_splits)
qed auto

lemma filterLoop_plain: "0xFF \<notin> set d \<Longrightarrow> filterLoop (d @ e) = (case filterLoop e of (r, p) \<Rightarrow> (d @ r, p))"
  by (induction d) (auto simp: filterLoop.simps split: prod.splits)

lemma filterLoop_id: "0xFF \<notin> set d \<Longrightarrow> filterLoop d = (d, [])"
  using filterLoop_plain [of d "[]"] by simp

lemma filterOutput_loop:
  "data \<noteq> [] \<Longrightarrow> filterOutput f data
     = (f\<lparr>mf_partial := snd (filterLoop (mf_partial f @ data))\<rparr>, fst (filterLoop (mf_partial f @ data)))"
  by (auto simp: filterOutput_def Let_def filterLoop_id split: prod.splits)

lemma magic_prefix:
  assumes "x \<noteq> take (length x) discardMarkerMagic" and that: "length x < 4"
  shows "take 4 (x @ e) \<noteq> discardMarkerMagic" "x @ e \<noteq> take (length (x @ e)) discardMarkerMagic"
proof -
  show "take 4 (x @ e) \<noteq> discardMarkerMagic"
  proof
    assume *: "take 4 (x @ e) = discardMarkerMagic"
    have "take (length x) (take 4 (x @ e)) = x" using that by simp
    with * assms show False by simp
  qed
  show "x @ e \<noteq> take (length (x @ e)) discardMarkerMagic"
  proof
    assume *: "x @ e = take (length (x @ e)) discardMarkerMagic"
    have "x = take (length x) (x @ e)" by simp
    also have "\<dots> = take (length x) discardMarkerMagic" by (subst *) (simp add: min_def)
    finally show False using assms by simp
  qed
qed

lemma last_drop_ok: "(d \<noteq> [] \<Longrightarrow> last d \<noteq> v) \<Longrightarrow> drop n d \<noteq> [] \<Longrightarrow> last (drop n d) \<noteq> v"
  by fastforce

text \<open>A chunk can be cut anywhere but after a caret.\<close>

lemma filterLoop_cut:
  "(d \<noteq> [] \<Longrightarrow> last d \<noteq> 0x5E) \<Longrightarrow>
     filterLoop (d @ e) = (case filterLoop d of (r, p) \<Rightarrow> case filterLoop (p @ e) of (r', p') \<Rightarrow> (r @ r', p'))"
proof (induction d rule: filterLoop.induct)
  case (2 b d)
  have tl: "d \<noteq> [] \<Longrightarrow> last d \<noteq> 0x5E" using 2(5) by auto
  consider (plain) "b \<noteq> 0xFF" | (short) "b = 0xFF" "length (b # d) < 4"
    | (long) "b = 0xFF" "\<not> length (b # d) < 4" by blast
  then show ?case
  proof cases
    case plain
    then show ?thesis using 2(1) tl by (simp add: filterLoop.simps split: prod.splits)
  next
    case short
    show ?thesis
    proof (cases "b # d = take (length (b # d)) discardMarkerMagic")
      case True
      have "filterLoop (b # d) = ([], b # d)"
        by (subst filterLoop.simps(2), subst if_not_P, simp add: short(1), subst if_P, rule short(2))
          (rule if_P [OF True])
      then show ?thesis by simp
    next
      case False
      then have "filterLoop (b # d) = (case filterLoop d of (r, p) \<Rightarrow> (b # r, p))"
        using short by (simp add: filterLoop.simps)
      moreover have "filterLoop (b # d @ e) = (case filterLoop (d @ e) of (r, p) \<Rightarrow> (b # r, p))"
        using short False magic_prefix [of "b # d" e] by (auto simp: filterLoop.simps)
      ultimately show ?thesis using 2(2) [OF _ short(2) False] short(1) tl by (simp split: prod.splits)
    qed
  next
    case long
    have t4: "take 4 (b # d @ e) = take 4 (b # d)" using long by simp
    show ?thesis
    proof (cases "take 4 (b # d) = discardMarkerMagic")
      case False
      then have "filterLoop (b # d) = (case filterLoop d of (r, p) \<Rightarrow> (b # r, p))"
        using long by (simp add: filterLoop.simps)
      moreover have "filterLoop (b # d @ e) = (case filterLoop (d @ e) of (r, p) \<Rightarrow> (b # r, p))"
        using long False t4 by (simp add: filterLoop.simps)
      ultimately show ?thesis using 2(3) [OF _ long(2) False] long(1) tl by (simp split: prod.splits)
    next
      case True
      show ?thesis
      proof (cases "consumeMarkerIndex 4 (drop 3 d)")
        case None
        then have "filterLoop (b # d) = ([], b # d)" using long True by (simp add: filterLoop.simps)
        then show ?thesis by simp
      next
        case (Some n)
        have "consumeMarkerIndex 4 (drop 3 d @ e) = Some n"
          using tl by (intro consume_append [OF Some]) fastforce
        moreover have "drop (3 + n) (d @ e) = drop (3 + n) d @ e" "drop 3 (d @ e) = drop 3 d @ e"
          using consume_le [OF Some] long(2) by auto
        ultimately have "filterLoop (b # d @ e) = filterLoop (drop (3 + n) d @ e)"
          using long True t4 by (simp add: filterLoop.simps)
        moreover have "filterLoop (b # d) = filterLoop (drop (3 + n) d)"
          using long True Some by (simp add: filterLoop.simps)
        ultimately show ?thesis
          using 2(4) [OF _ long(2) _ Some] long(1) True last_drop_ok [OF tl, of "3 + n"] by simp
      qed
    qed
  qed
qed auto

lemma filterLoop_step:
  obtains (held) "filterLoop (b # d) = ([], b # d)"
    | (pass) "filterLoop (b # d) = (case filterLoop d of (r, p) \<Rightarrow> (b # r, p))"
    | (skip) n where "filterLoop (b # d) = filterLoop (drop (3 + n) d)"
  using filterLoop.simps(2) [of b d]
  by (cases "consumeMarkerIndex 4 (drop 3 d)") (meson | simp split: if_splits)+

lemma filterLoop_held: "filterLoop d = (r, p) \<Longrightarrow> filterLoop p = ([], p)"
proof (induction d arbitrary: r rule: length_induct)
  case (1 d)
  show ?case
  proof (cases d)
    case (Cons b d')
    consider (held) "filterLoop (b # d') = ([], b # d')"
      | (pass) "filterLoop (b # d') = (case filterLoop d' of (r, p) \<Rightarrow> (b # r, p))"
      | (skip) n where "filterLoop (b # d') = filterLoop (drop (3 + n) d')"
      by (rule filterLoop_step)
    then show ?thesis
    proof cases
      case held
      then show ?thesis using 1(2) Cons by simp
    next
      case pass
      then obtain r' where "filterLoop d' = (r', p)" using 1(2) Cons by (auto split: prod.splits)
      then show ?thesis using 1(1) Cons by fastforce
    next
      case (skip n)
      then have "filterLoop (drop (3 + n) d') = (r, p)" using 1(2) Cons by simp
      moreover have "length (drop (3 + n) d') < length d" using Cons by simp
      ultimately show ?thesis using 1(1) by blast
    qed
  qed (use 1(2) in simp)
qed

text \<open>The output of all reads is that of one pass over the whole stream.\<close>

lemma forwardOutput_pass:
  assumes "filterLoop (mf_partial f) = ([], mf_partial f)"
    and "\<forall>r \<in> set rs. \<not> or_stopped r \<and> or_err r = None \<and> (or_data r = [] \<or> last (or_data r) \<noteq> 0x5E)"
    and "\<not> or_stopped l" "or_err l = Some EOF"
  shows "concat (map outputOf (forwardOutput code f (rs @ [l])))
       = fst (filterLoop (mf_partial f @ concat (map or_data (rs @ [l]))))"
  using assms(1,2)
proof (induction rs arbitrary: f)
  case Nil
  then show ?case using assms(3,4) by (cases "or_data l = []") (auto simp: filterOutput_loop)
next
  case (Cons r rs)
  show ?case
  proof (cases "or_data r = []")
    case True
    then show ?thesis using Cons by simp
  next
    case False
    obtain x p where xp: "filterLoop (mf_partial f @ or_data r) = (x, p)" by fastforce
    have "filterOutput f (or_data r) = (f\<lparr>mf_partial := p\<rparr>, x)" using False xp by (simp add: filterOutput_loop)
    then have "concat (map outputOf (forwardOutput code f ((r # rs) @ [l])))
        = x @ concat (map outputOf (forwardOutput code (f\<lparr>mf_partial := p\<rparr>) (rs @ [l])))"
      using False Cons.prems(2) by simp
    also have "\<dots> = x @ fst (filterLoop (p @ concat (map or_data (rs @ [l]))))"
      using Cons.IH [of "f\<lparr>mf_partial := p\<rparr>"] filterLoop_held [OF xp] Cons.prems(2) by simp
    also have "\<dots> = fst (filterLoop ((mf_partial f @ or_data r) @ concat (map or_data (rs @ [l]))))"
      using filterLoop_cut [of "mf_partial f @ or_data r"] xp False Cons.prems(2) by (simp split: prod.splits)
    finally show ?thesis by simp
  qed
qed

lemma forwardOutput_exit:
  "\<forall>r \<in> set rs. \<not> or_stopped r \<and> or_err r = None \<Longrightarrow> \<not> or_stopped l \<Longrightarrow> or_err l = Some EOF \<Longrightarrow>
     \<exists>calls. forwardOutput code f (rs @ [l]) = calls @ [OnExit code]"
proof (induction rs arbitrary: f)
  case Nil
  then show ?case by (simp split: prod.splits)
next
  case (Cons r rs)
  obtain f1 x where fx: "(if or_data r = [] then (f, []) else filterOutput f (or_data r)) = (f1, x)" by fastforce
  obtain calls where "forwardOutput code f1 (rs @ [l]) = calls @ [OnExit code]" using Cons by auto
  then show ?case using Cons.prems fx by simp
qed

subsection \<open>Streams of text and markers\<close>

text \<open>An index byte as it arrives: a raw byte other than a caret, or the echo of a control byte.\<close>

definition indexUnit :: "bytes \<Rightarrow> bool" where
  "indexUnit u \<longleftrightarrow>
     (case u of [b] \<Rightarrow> b \<noteq> 0x5E | [b, c] \<Rightarrow> b = 0x5E \<and> 0x3F \<le> c \<and> c \<le> 0x5F | _ \<Rightarrow> False)"

datatype piece = Text bytes | Marker "bytes list"

fun pieceOk :: "piece \<Rightarrow> bool" where
  "pieceOk (Text d) \<longleftrightarrow> 0xFF \<notin> set d"
| "pieceOk (Marker us) \<longleftrightarrow> length us = 4 \<and> list_all indexUnit us"

fun pieceBytes :: "piece \<Rightarrow> bytes" where
  "pieceBytes (Text d) = d"
| "pieceBytes (Marker us) = discardMarkerMagic @ concat us"

fun pieceText :: "piece \<Rightarrow> bytes" where
  "pieceText (Text d) = d"
| "pieceText (Marker us) = []"

lemma consume_units:
  "list_all indexUnit us \<Longrightarrow>
     consumeMarkerIndex (length us + n) (concat us @ e)
       = map_option (\<lambda>k. length (concat us) + k) (consumeMarkerIndex n e)"
proof (induction us)
  case (Cons u us)
  then show ?case
    by (auto simp: indexUnit_def echoPair_def option.map_comp comp_def intro!: option.map_cong split: list.splits)
qed (cases "consumeMarkerIndex n e", simp_all)

lemma filterLoop_magic:
  "consumeMarkerIndex 4 d = Some n \<Longrightarrow> filterLoop (discardMarkerMagic @ d) = filterLoop (drop n d)"
proof -
  have "drop (3 + n) (a # b # c # d) = drop n d" for a b c :: u8 by (simp add: numeral_3_eq_3)
  moreover assume "consumeMarkerIndex 4 d = Some n"
  ultimately show ?thesis by (simp add: discardMarkerMagic_def filterLoop.simps)
qed

lemma filterLoop_marker:
  assumes "pieceOk (Marker us)"
  shows "filterLoop (discardMarkerMagic @ concat us @ e) = filterLoop e"
  using assms consume_units [of us 0 e] by (simp add: filterLoop_magic)

lemma filterLoop_pieces:
  "list_all pieceOk ps \<Longrightarrow> filterLoop (concat (map pieceBytes ps)) = (concat (map pieceText ps), [])"
proof (induction ps)
  case (Cons q ps)
  then show ?case by (cases q) (simp_all add: filterLoop_plain filterLoop_marker del: pieceOk.simps(2))
qed simp

subsection \<open>Properties\<close>



text \<open>
  C39: A cut right after a caret does matter: when the echo of the last index byte is split
  between two reads, the marker is taken to end at the caret and the second byte of the pair is
  shown as output, though the same bytes in one read show nothing.
\<close>

theorem marker_split_leaks:
  assumes "length us = 3" "list_all indexUnit us" "0x3F \<le> c" "c \<le> 0x5F"
  shows "snd (filterOutput \<lparr>mf_partial = []\<rparr> (discardMarkerMagic @ concat us @ [0x5E, c])) = []
       \<and> (case filterOutput \<lparr>mf_partial = []\<rparr> (discardMarkerMagic @ concat us @ [0x5E]) of
            (f, out1) \<Rightarrow> out1 = [] \<and> snd (filterOutput f [c]) = [c])"
proof
  have whole: "filterLoop (discardMarkerMagic @ concat us @ [0x5E, c]) = ([], [])"
    using filterLoop_marker [of "us @ [[0x5E, c]]" "[]"] assms by (simp add: indexUnit_def)
  show "snd (filterOutput \<lparr>mf_partial = []\<rparr> (discardMarkerMagic @ concat us @ [0x5E, c])) = []"
    using whole by (simp add: filterOutput_loop)
  have "consumeMarkerIndex 4 (concat us @ [0x5E]) = Some (length (concat us @ [0x5E]))"
    using consume_units [OF assms(2), of 1 "[0x5E]"] assms(1) by (simp add: echoPair_def)
  then have cut: "filterLoop (discardMarkerMagic @ concat us @ [0x5E]) = ([], [])"
    using filterLoop_magic [of "concat us @ [0x5E]"] by simp
  have "c \<noteq> 0xFF" using assms(4) by (auto simp: word_le_nat_alt)
  with cut show "case filterOutput \<lparr>mf_partial = []\<rparr> (discardMarkerMagic @ concat us @ [0x5E]) of
        (f, out1) \<Rightarrow> out1 = [] \<and> snd (filterOutput f [c]) = [c]"
    by (simp add: filterOutput_loop filterLoop.simps)
qed

theorem marker_split_leaks_witness:
  "snd (filterOutput \<lparr>mf_partial = []\<rparr> (discardMarkerMagic @ concat [[0], [0], [0]] @ [0x5E, 0x41])) = []
   \<and> (case filterOutput \<lparr>mf_partial = []\<rparr> (discardMarkerMagic @ concat [[0], [0], [0]] @ [0x5E]) of
        (f, out1) \<Rightarrow> out1 = [] \<and> snd (filterOutput f [0x41]) = [0x41])"
  by (rule marker_split_leaks) (simp_all add: indexUnit_def)

end
