(* ===== verification/Spec2Isabelle.thy ===== *)
theory Spec2Isabelle
  imports TailnetDial ProxyH1 WebSocket Mitm CertMint PortForward MarkerFilter
begin

text \<open>
  A verification development for the SSH client and VPN tunnel of this repository.
\<close>

end
